(* ===== verification/Bot_Prelude.thy ===== *)
theory Bot_Prelude
  imports Main
begin

text \<open>
  Shared vocabulary of the development.

  \<^item> \<^bold>\<open>Tables.\<close> Every durable component of the bots keeps its state in
    PostgreSQL. A table is modelled as the list of its rows, in insertion order, and the four
    statement forms the repositories use (\<open>UPDATE .. WHERE\<close>, \<open>DELETE .. WHERE\<close>,
    \<open>INSERT .. ON CONFLICT DO NOTHING\<close>, \<open>INSERT .. ON CONFLICT DO UPDATE .. WHERE\<close>)
    are the functions \<open>sql_update\<close>, \<open>sql_delete\<close>, \<open>sql_insert_ignore\<close> and
    \<open>sql_upsert\<close>. One statement is one atomic step, as it is in the database.
    A unique index is the predicate \<open>keyed\<close>; its preservation by each statement form is
    proved here once and used by every repository.
  \<^item> \<^bold>\<open>Strings.\<close> \<open>String.prototype.trim\<close>, \<open>join\<close>, \<open>split\<close>, decimal
    rendering and \<open>Number\<close> of decimal numerals, with the round trips the composite
    map keys of the repositories rely on.
  \<^item> \<^bold>\<open>Time.\<close> Instants are milliseconds since the epoch (\<open>int\<close>); every operation
    that reads the clock takes the instant as an argument.
\<close>

section \<open>Names\<close>

type_synonym millis = int
type_synonym ext_id = string
type_synonym user_id = int
type_synonym date_str = string

datatype delivery_outcome = Sent | Ambiguous | Not_Sent | Rate_Limited

text \<open>How a statement or a remote call goes: answered, refused without effect, or applied with its
  reply lost. The last two throw.\<close>

datatype db_reply = Replied | Refused | Reply_Lost

named_theorems tbl_simps \<open>table statements, reduced to list functions\<close>
named_theorems keyed_intros \<open>preservation of unique indexes\<close>

section \<open>Tables\<close>

definition sql_update :: "('r \<Rightarrow> bool) \<Rightarrow> ('r \<Rightarrow> 'r) \<Rightarrow> 'r list \<Rightarrow> 'r list" where
  "sql_update P f xs = map (\<lambda>r. if P r then f r else r) xs"

definition sql_delete :: "('r \<Rightarrow> bool) \<Rightarrow> 'r list \<Rightarrow> 'r list" where
  "sql_delete P xs = filter (\<lambda>r. \<not> P r) xs"

definition sql_count :: "('r \<Rightarrow> bool) \<Rightarrow> 'r list \<Rightarrow> nat" where
  "sql_count P xs = length (filter P xs)"

definition sql_sum :: "('r \<Rightarrow> nat) \<Rightarrow> ('r \<Rightarrow> bool) \<Rightarrow> 'r list \<Rightarrow> nat" where
  "sql_sum f P xs = sum_list (map f (filter P xs))"

definition sql_insert_ignore :: "('r \<Rightarrow> 'k) \<Rightarrow> 'r \<Rightarrow> 'r list \<Rightarrow> 'r list \<times> bool" where
  "sql_insert_ignore key new xs =
     (if list_ex (\<lambda>r. key r = key new) xs then (xs, False) else (xs @ [new], True))"

text \<open>
  \<open>INSERT .. ON CONFLICT (key) DO UPDATE SET upd WHERE guard RETURNING\<close>. The second
  component is the returned row: \<open>None\<close> when a conflicting row fails the guard.
\<close>

definition sql_upsert ::
    "('r \<Rightarrow> 'k) \<Rightarrow> 'r \<Rightarrow> ('r \<Rightarrow> 'r) \<Rightarrow> ('r \<Rightarrow> bool) \<Rightarrow> 'r list \<Rightarrow> 'r list \<times> 'r option" where
  "sql_upsert key new upd guard xs =
     (case find (\<lambda>r. key r = key new) xs of
        None \<Rightarrow> (xs @ [new], Some new)
      | Some old \<Rightarrow>
          if guard old then (sql_update (\<lambda>r. key r = key new) upd xs, Some (upd old))
          else (xs, None))"

text \<open>A unique index on \<open>key\<close>.\<close>

definition keyed :: "('r \<Rightarrow> 'k) \<Rightarrow> 'r list \<Rightarrow> bool" where
  "keyed key xs \<longleftrightarrow> distinct (map key xs)"

subsection \<open>Rewriting\<close>

lemma sql_update_Nil [simp]: "sql_update P f [] = []"
  and sql_update_Cons [simp]:
    "sql_update P f (r # xs) = (if P r then f r else r) # sql_update P f xs"
  by (simp_all add: sql_update_def)

lemma sql_update_append [simp]: "sql_update P f (xs @ ys) = sql_update P f xs @ sql_update P f ys"
  by (simp add: sql_update_def)

lemma length_sql_update [simp]: "length (sql_update P f xs) = length xs"
  by (simp add: sql_update_def)

lemma sql_update_id: "(\<And>r. r \<in> set xs \<Longrightarrow> \<not> P r) \<Longrightarrow> sql_update P f xs = xs"
  by (induction xs) auto

lemma set_sql_update: "set (sql_update P f xs) = {r \<in> set xs. \<not> P r} \<union> f ` {r \<in> set xs. P r}"
  by (induction xs) auto

lemma in_sql_updateE:
  assumes "r \<in> set (sql_update P f xs)"
  obtains "r \<in> set xs" "\<not> P r" | q where "q \<in> set xs" "P q" "r = f q"
  using assms by (auto simp: set_sql_update)

lemma sql_delete_Nil [simp]: "sql_delete P [] = []"
  and sql_delete_Cons [simp]: "sql_delete P (r # xs) = (if P r then sql_delete P xs else r # sql_delete P xs)"
  by (simp_all add: sql_delete_def)

lemma set_sql_delete [simp]: "set (sql_delete P xs) = {r \<in> set xs. \<not> P r}"
  by (auto simp: sql_delete_def)

lemma sql_count_Nil [simp]: "sql_count P [] = 0"
  and sql_count_Cons [simp]: "sql_count P (r # xs) = (if P r then Suc (sql_count P xs) else sql_count P xs)"
  and sql_count_append [simp]: "sql_count P (xs @ ys) = sql_count P xs + sql_count P ys"
  by (simp_all add: sql_count_def)

lemma sql_sum_Nil [simp]: "sql_sum f P [] = 0"
  and sql_sum_Cons [simp]: "sql_sum f P (r # xs) = (if P r then f r + sql_sum f P xs else sql_sum f P xs)"
  and sql_sum_append [simp]: "sql_sum f P (xs @ ys) = sql_sum f P xs + sql_sum f P ys"
  by (simp_all add: sql_sum_def)

lemma sql_count_0_iff: "sql_count P xs = 0 \<longleftrightarrow> (\<forall>r\<in>set xs. \<not> P r)"
  by (induction xs) auto

lemma sql_count_cong: "(\<And>r. r \<in> set xs \<Longrightarrow> P r = Q r) \<Longrightarrow> sql_count P xs = sql_count Q xs"
  by (induction xs) auto

lemma sql_sum_cong:
  "(\<And>r. r \<in> set xs \<Longrightarrow> P r = Q r) \<Longrightarrow> (\<And>r. r \<in> set xs \<Longrightarrow> P r \<Longrightarrow> f r = g r) \<Longrightarrow>
   sql_sum f P xs = sql_sum g Q xs"
  by (induction xs) auto

lemma sql_count_update:
  "sql_count Q (sql_update P f xs) = sql_count (\<lambda>r. if P r then Q (f r) else Q r) xs"
  by (induction xs) auto

lemma sql_sum_update:
  "sql_sum h Q (sql_update P f xs)
   = sql_sum (\<lambda>r. if P r then h (f r) else h r) (\<lambda>r. if P r then Q (f r) else Q r) xs"
  by (induction xs) auto

lemma sql_count_delete: "sql_count Q (sql_delete P xs) = sql_count (\<lambda>r. Q r \<and> \<not> P r) xs"
  by (induction xs) auto

lemma sql_count_mono: "(\<And>r. r \<in> set xs \<Longrightarrow> P r \<Longrightarrow> Q r) \<Longrightarrow> sql_count P xs \<le> sql_count Q xs"
  by (induction xs) auto

lemma sql_count_split: "sql_count P xs = sql_count (\<lambda>r. P r \<and> Q r) xs + sql_count (\<lambda>r. P r \<and> \<not> Q r) xs"
  by (induction xs) auto

subsection \<open>Unique indexes\<close>

lemma keyed_Nil [simp, keyed_intros]: "keyed key []"
  by (simp add: keyed_def)

lemma keyed_Cons: "keyed key (r # xs) \<longleftrightarrow> (\<forall>q\<in>set xs. key q \<noteq> key r) \<and> keyed key xs"
proof -
  have "key r \<in> key ` set xs \<longleftrightarrow> (\<exists>q\<in>set xs. key q = key r)"
    by (metis imageE imageI)
  then show ?thesis by (auto simp: keyed_def)
qed

lemma map_key_update: "(\<And>r. P r \<Longrightarrow> key (f r) = key r) \<Longrightarrow> map key (sql_update P f xs) = map key xs"
  by (induction xs) auto

lemma keyed_update [keyed_intros]:
  "keyed key xs \<Longrightarrow> (\<And>r. P r \<Longrightarrow> key (f r) = key r) \<Longrightarrow> keyed key (sql_update P f xs)"
  by (simp add: keyed_def map_key_update)

lemma keyed_delete [keyed_intros]: "keyed key xs \<Longrightarrow> keyed key (sql_delete P xs)"
  by (induction xs) (auto simp: keyed_Cons)

lemma keyed_snoc: "keyed key xs \<Longrightarrow> (\<And>r. r \<in> set xs \<Longrightarrow> key r \<noteq> key new) \<Longrightarrow> keyed key (xs @ [new])"
  by (force simp: keyed_def)

lemma keyed_insert_ignore [keyed_intros]:
  "keyed key xs \<Longrightarrow> keyed key (fst (sql_insert_ignore key new xs))"
  by (auto simp: sql_insert_ignore_def list_ex_iff intro: keyed_snoc)

lemma keyed_upsert [keyed_intros]:
  assumes "keyed key xs" and "\<And>r. key r = key new \<Longrightarrow> key (upd r) = key new"
  shows "keyed key (fst (sql_upsert key new upd guard xs))"
proof (cases "find (\<lambda>r. key r = key new) xs")
  case None
  then have "keyed key (xs @ [new])"
    using assms(1) by (intro keyed_snoc) (auto simp: find_None_iff)
  with None show ?thesis by (simp add: sql_upsert_def)
next
  case (Some old)
  have "keyed key (sql_update (\<lambda>r. key r = key new) upd xs)"
    using assms by (intro keyed_update) auto
  with Some assms(1) show ?thesis by (simp add: sql_upsert_def)
qed

lemma keyed_unique: "keyed key xs \<Longrightarrow> r \<in> set xs \<Longrightarrow> q \<in> set xs \<Longrightarrow> key r = key q \<Longrightarrow> r = q"
  by (induction xs) (auto simp: keyed_Cons)

lemma keyed_count_le_1: "keyed key xs \<Longrightarrow> sql_count (\<lambda>r. key r = k \<and> Q r) xs \<le> 1"
  by (induction xs) (auto simp: keyed_Cons sql_count_0_iff)

text \<open>Changing the row with one key changes any sum by the change at that row.\<close>

lemma keyed_split:
  assumes "keyed key xs" and "r \<in> set xs"
  obtains as bs where "xs = as @ r # bs" "\<And>q. q \<in> set as \<union> set bs \<Longrightarrow> key q \<noteq> key r"
proof -
  obtain as bs where xs: "xs = as @ r # bs"
    using assms(2) by (meson split_list)
  have "key r \<notin> key ` (set as \<union> set bs)"
    using assms(1) by (simp add: xs keyed_def image_Un)
  then have "\<And>q. q \<in> set as \<union> set bs \<Longrightarrow> key q \<noteq> key r"
    by (metis imageI)
  with xs show ?thesis by (rule that)
qed

lemma keyed_update_split:
  assumes "keyed key xs" and "r \<in> set xs" and "key r = k"
  obtains as bs where "xs = as @ r # bs"
    and "\<And>f. sql_update (\<lambda>q. key q = k) f xs = as @ f r # bs"
    and "sql_delete (\<lambda>q. key q = k) xs = as @ bs"
proof -
  obtain as bs where xs: "xs = as @ r # bs"
    and ne: "\<And>q. q \<in> set as \<union> set bs \<Longrightarrow> key q \<noteq> key r"
    using keyed_split [OF assms(1,2)] by blast
  have "sql_update (\<lambda>q. key q = k) f xs = as @ f r # bs" for f
    using assms(3) ne by (simp add: xs sql_update_id)
  moreover have "sql_delete (\<lambda>q. key q = k) xs = as @ bs"
    using assms(3) ne by (simp add: xs sql_delete_def)
  ultimately show ?thesis using xs that by blast
qed

lemma find_keyed:
  assumes "keyed key xs"
  shows "find (\<lambda>r. key r = k) xs = Some r \<longleftrightarrow> r \<in> set xs \<and> key r = k"
  using assms
  by (induction xs) (auto simp: keyed_Cons)

lemma find_SomeD: "find P xs = Some x \<Longrightarrow> x \<in> set xs \<and> P x"
  by (auto simp: find_Some_iff)

lemma find_NoneD: "find P xs = None \<Longrightarrow> x \<in> set xs \<Longrightarrow> \<not> P x"
  by (auto simp: find_None_iff)

end
