(* ===== verification/Js_Strings.thy ===== *)
theory Js_Strings
  imports Main
begin

text \<open>
  The string operations of the language that the modelled code calls: \<open>trim\<close>,
  \<open>Array.prototype.join\<close>, \<open>String.prototype.split\<close> on one separator character,
  \<open>slice(0, n)\<close> (which is \<open>take\<close>), the rendering of an integer inside a template
  literal and \<open>Number\<close> on a decimal integer numeral. A string is its list of code units.
  The lemmas show that rendering and splitting undo joining and parsing, which is what the
  composite map keys of \<open>chat-rate-limit.repository.ts\<close> rely on.
\<close>

section \<open>Whitespace and trimming\<close>

definition js_space :: "char \<Rightarrow> bool" where
  "js_space c \<longleftrightarrow> of_char c \<in> {9, 10, 11, 12, 13, 32, 160 :: nat}"

definition js_trim :: "string \<Rightarrow> string" where
  "js_trim s = rev (dropWhile js_space (rev (dropWhile js_space s)))"

lemma js_trim_Nil [simp]: "js_trim [] = []"
  by (simp add: js_trim_def)

lemma js_trim_noop:
  assumes "s \<noteq> []" "\<not> js_space (hd s)" "\<not> js_space (last s)"
  shows "js_trim s = s"
proof -
  have "dropWhile js_space s = s"
    using assms(1,2) by (cases s) auto
  moreover have "dropWhile js_space (rev s) = rev s"
    using assms(1,3) by (cases "rev s") (auto simp: hd_rev [symmetric])
  ultimately show ?thesis by (simp add: js_trim_def)
qed

lemma js_trim_ends:
  assumes "js_trim s \<noteq> []"
  shows "\<not> js_space (hd (js_trim s))" and "\<not> js_space (last (js_trim s))"
proof -
  let ?d = "dropWhile js_space s"
  have ne: "dropWhile js_space (rev ?d) \<noteq> []"
    using assms by (simp add: js_trim_def)
  show "\<not> js_space (last (js_trim s))"
    using hd_dropWhile [OF ne] ne by (simp add: js_trim_def last_rev)
  have "?d \<noteq> []" using ne by (metis dropWhile.simps(1) rev.simps(1))
  then have hd_d: "\<not> js_space (hd ?d)" by (rule hd_dropWhile)
  obtain us where us: "rev ?d = us @ dropWhile js_space (rev ?d)"
    by (metis takeWhile_dropWhile_id)
  then have "?d = rev (dropWhile js_space (rev ?d)) @ rev us"
    by (metis rev_append rev_rev_ident)
  then have "hd ?d = hd (js_trim s)"
    using ne by (metis hd_append2 js_trim_def rev_is_Nil_conv)
  with hd_d show "\<not> js_space (hd (js_trim s))" by simp
qed

lemma js_trim_idem [simp]: "js_trim (js_trim s) = js_trim s"
  by (cases "js_trim s = []") (auto intro: js_trim_noop simp: js_trim_ends)

section \<open>Joining and splitting\<close>

fun js_join :: "string \<Rightarrow> string list \<Rightarrow> string" where
  "js_join sep [] = []"
| "js_join sep [x] = x"
| "js_join sep (x # y # ys) = x @ sep @ js_join sep (y # ys)"

fun js_split :: "char \<Rightarrow> string \<Rightarrow> string list" where
  "js_split c [] = [[]]"
| "js_split c (x # xs) =
     (if x = c then [] # js_split c xs
      else (case js_split c xs of [] \<Rightarrow> [[x]] | p # ps \<Rightarrow> (x # p) # ps))"

lemma js_split_nonempty [simp]: "js_split c s \<noteq> []"
  by (induction c s rule: js_split.induct) (auto split: list.splits)

lemma js_split_plain: "c \<notin> set s \<Longrightarrow> js_split c s = [s]"
  by (induction s) auto

lemma js_split_sep: "c \<notin> set s \<Longrightarrow> js_split c (s @ c # t) = s # js_split c t"
  by (induction s) auto

lemma js_split_join:
  "xs \<noteq> [] \<Longrightarrow> (\<And>x. x \<in> set xs \<Longrightarrow> c \<notin> set x) \<Longrightarrow> js_split c (js_join [c] xs) = xs"
  by (induction "[c]" xs rule: js_join.induct) (auto simp: js_split_plain js_split_sep)

lemma length_js_join_Cons:
  "length (js_join sep (x # xs)) = length x + (if xs = [] then 0 else length sep + length (js_join sep xs))"
  by (cases xs) auto

section \<open>Decimal numerals\<close>

definition digit_char :: "nat \<Rightarrow> char" where
  "digit_char d = char_of (48 + d)"

fun nat_str :: "nat \<Rightarrow> string" where
  "nat_str n = (if n < 10 then [digit_char n] else nat_str (n div 10) @ [digit_char (n mod 10)])"

declare nat_str.simps [simp del]

definition int_str :: "int \<Rightarrow> string" where
  "int_str i = (if i < 0 then CHR ''-'' # nat_str (nat (- i)) else nat_str (nat i))"

definition is_digit :: "char \<Rightarrow> bool" where
  "is_digit c \<longleftrightarrow> 48 \<le> (of_char c :: nat) \<and> (of_char c :: nat) \<le> 57"

definition digits_val :: "string \<Rightarrow> nat" where
  "digits_val s = foldl (\<lambda>a c. 10 * a + (of_char c - 48)) 0 s"

text \<open>\<open>Number(s)\<close> for the decimal integers; \<open>None\<close> stands for \<open>NaN\<close>.\<close>

definition js_number :: "string \<Rightarrow> int option" where
  "js_number s =
     (case s of
        [] \<Rightarrow> Some 0
      | c # cs \<Rightarrow>
          if c = CHR ''-'' then
            (if cs \<noteq> [] \<and> list_all is_digit cs then Some (- int (digits_val cs)) else None)
          else if list_all is_digit s then Some (int (digits_val s)) else None)"

lemma of_char_digit [simp]: "d < 10 \<Longrightarrow> of_char (digit_char d) = (48 + d :: nat)"
  by (simp add: digit_char_def)

lemma is_digit_digit_char [simp]: "d < 10 \<Longrightarrow> is_digit (digit_char d)"
  by (simp add: is_digit_def)

lemma nat_str_digits: "list_all is_digit (nat_str n)"
proof (induction n rule: nat_str.induct)
  case (1 n)
  then show ?case by (subst nat_str.simps) auto
qed

lemma nat_str_nonempty [simp]: "nat_str n \<noteq> []"
  by (subst nat_str.simps) simp

lemma digits_val_nat_str: "digits_val (nat_str n) = n"
proof (induction n rule: nat_str.induct)
  case (1 n)
  show ?case
  proof (cases "n < 10")
    case True
    then show ?thesis by (subst nat_str.simps) (simp add: digits_val_def)
  next
    case False
    then have "nat_str n = nat_str (n div 10) @ [digit_char (n mod 10)]"
      by (subst nat_str.simps) simp
    moreover have "digits_val (nat_str (n div 10)) = n div 10"
      using 1 False by blast
    ultimately show ?thesis by (simp add: digits_val_def)
  qed
qed

lemma is_digit_not_minus: "is_digit c \<Longrightarrow> c \<noteq> CHR ''-''"
  by (auto simp: is_digit_def)

lemma is_digit_not_colon: "is_digit c \<Longrightarrow> c \<noteq> CHR '':''"
  by (auto simp: is_digit_def)

lemma js_number_int_str [simp]: "js_number (int_str i) = Some i"
proof (cases "i < 0")
  case True
  then show ?thesis
    by (simp add: js_number_def int_str_def nat_str_digits digits_val_nat_str)
next
  case False
  obtain c cs where s: "nat_str (nat i) = c # cs"
    by (cases "nat_str (nat i)") auto
  moreover have "list_all is_digit (c # cs)"
    using nat_str_digits [of "nat i"] s by simp
  moreover have "int (digits_val (c # cs)) = i"
    using digits_val_nat_str [of "nat i"] s False by simp
  ultimately show ?thesis
    using False is_digit_not_minus by (auto simp: js_number_def int_str_def)
qed

lemma colon_notin_int_str [simp]: "CHR '':'' \<notin> set (int_str i)"
proof -
  have "CHR '':'' \<notin> set (nat_str n)" for n
    using nat_str_digits [of n] is_digit_not_colon by (auto simp: list_all_iff)
  then show ?thesis by (simp add: int_str_def)
qed

end
