(* ===== verification/Chat_Quota.thy ===== *)
theory Chat_Quota
  imports Bot_Prelude Js_Strings "HOL-Library.Multiset"
begin

text \<open>
  The quota repository, \<open>packages/chat-metering/src/chat-rate-limit/chat-rate-limit.repository.ts\<close>,
  over the two tables it owns (\<open>chat_idempotency\<close>, \<open>chat_daily_usage\<close>) and the learner
  usage queries of \<open>packages/database/src/services/cross-cutting/learner-usage-query.ts\<close>.

  A transaction is one function of the database: it returns \<open>Inl\<close> when an exception leaves
  it (the database then rolls back, so the caller keeps the old state) and otherwise the result
  with the committed state. The transactions are atomic steps because each one locks what it
  reads: the advisory locks on the learner/day and on the channel, or the row itself.
  The optional audit hooks append to \<open>quota_events\<close> inside the transaction.
\<close>

section \<open>Rows and tables\<close>

datatype idem_status = Reserved | Delivered | Completed | Refunded

record idem_row =
  i_platform :: string
  i_key :: string
  i_ext :: ext_id
  i_user :: "user_id option"
  i_date :: date_str
  i_status :: idem_status
  i_reserved_at :: millis

record usage_row =
  u_platform :: string
  u_ext :: ext_id
  u_user :: "user_id option"
  u_date :: date_str
  u_count :: nat

datatype release_reason = Send_Failed | Stuck_Recover

datatype quota_event =
    On_Reserved ext_id "user_id option" date_str string int nat
  | On_Released ext_id "user_id option" date_str string release_reason nat

record quota_db =
  idem :: "idem_row list"
  usage :: "usage_row list"
  active_links :: "(string \<times> ext_id \<times> user_id) list"
  legacy_index :: bool
  linked_index :: bool
  anonymous_index :: bool
  quota_events :: "quota_event list"

datatype quota_error = Unsupported_Schema | Learner_Query_Missing | Legacy_Query_Input

datatype schema_mode = Legacy | Owner_Aware

record usage_query =
  uq_date :: date_str
  uq_user :: user_id
  uq_platform :: string
  uq_ext :: ext_id

type_synonym usage_query_factory = "quota_db \<Rightarrow> usage_query \<Rightarrow> quota_error + nat"

record quota_repo =
  q_platform :: string
  q_hooks :: bool
  q_learner_query :: "usage_query_factory option"
  q_legacy_query :: "usage_query_factory option"

record reserve_input =
  ri_ext :: ext_id
  ri_user :: "user_id option"
  ri_date :: date_str
  ri_key :: string
  ri_daily_limit :: int
  ri_burst_limit :: "int option"
  ri_burst_since :: "millis option"
  ri_counts_refunded :: bool

datatype reserve_outcome =
    Slot_Reserved nat
  | Idempotency_Conflict
  | Daily_Limit_Exceeded
  | Burst_Limit_Exceeded nat

datatype recover_outcome = Reopened | In_Flight | Rec_Delivered | Rec_Completed | Not_Found

text \<open>The unique indexes: \<open>(platform, idempotency_key)\<close>, the two partial indexes of the
  owner-aware usage table, and the channel/date index of the legacy one.\<close>

definition idem_key :: "idem_row \<Rightarrow> string \<times> string" where
  "idem_key r = (i_platform r, i_key r)"

type_synonym bucket = "string \<times> ext_id \<times> date_str \<times> user_id option"

definition usage_bucket :: "usage_row \<Rightarrow> bucket" where
  "usage_bucket u = (u_platform u, u_ext u, u_date u, u_user u)"

definition idem_bucket :: "idem_row \<Rightarrow> bucket" where
  "idem_bucket r = (i_platform r, i_ext r, i_date r, i_user r)"

definition usage_channel :: "usage_row \<Rightarrow> string \<times> ext_id \<times> date_str" where
  "usage_channel u = (u_platform u, u_ext u, u_date u)"

section \<open>Usage queries\<close>

definition build_learner_usage_query :: usage_query_factory where
  "build_learner_usage_query db q =
     Inr (sql_sum u_count (\<lambda>u. u_date u = uq_date q \<and> u_user u = Some (uq_user q)) (usage db))"

definition build_legacy_learner_usage_query :: usage_query_factory where
  "build_legacy_learner_usage_query db q =
     (if uq_platform q = [] \<or> uq_ext q = [] then Inl Legacy_Query_Input
      else Inr (sql_sum u_count
        (\<lambda>u. u_date u = uq_date q \<and>
             (u_user u = Some (uq_user q)
              \<or> (u_user u = None \<and> u_platform u = uq_platform q \<and> u_ext u = uq_ext q)
              \<or> (u_user u = None \<and>
                  list_ex (\<lambda>(p, e, i). p = u_platform u \<and> e = u_ext u \<and> i = uq_user q)
                    (active_links db))))
        (usage db)))"

definition read_usage_schema_mode :: "quota_db \<Rightarrow> quota_error + schema_mode" where
  "read_usage_schema_mode db =
     (if legacy_index db \<and> \<not> linked_index db \<and> \<not> anonymous_index db then Inr Legacy
      else if \<not> legacy_index db \<and> linked_index db \<and> anonymous_index db then Inr Owner_Aware
      else Inl Unsupported_Schema)"

definition learner_usage_query_for_schema ::
    "quota_repo \<Rightarrow> schema_mode \<Rightarrow> usage_query_factory option" where
  "learner_usage_query_for_schema R mode =
     (case mode of Legacy \<Rightarrow> q_legacy_query R | Owner_Aware \<Rightarrow> q_learner_query R)"

definition get_learner_usage_count ::
    "quota_repo \<Rightarrow> schema_mode \<Rightarrow> quota_db \<Rightarrow> usage_query \<Rightarrow> quota_error + nat" where
  "get_learner_usage_count R mode db q =
     (case learner_usage_query_for_schema R mode of
        None \<Rightarrow> Inl Learner_Query_Missing
      | Some factory \<Rightarrow> factory db q)"

definition get_anonymous_usage_count ::
    "quota_repo \<Rightarrow> quota_db \<Rightarrow> ext_id \<Rightarrow> date_str \<Rightarrow> nat" where
  "get_anonymous_usage_count R db ext d =
     (case find (\<lambda>u. usage_bucket u = (q_platform R, ext, d, None)) (usage db) of
        None \<Rightarrow> 0
      | Some u \<Rightarrow> u_count u)"

definition get_daily_usage_count ::
    "quota_repo \<Rightarrow> quota_db \<Rightarrow> ext_id \<Rightarrow> date_str \<Rightarrow> user_id option \<Rightarrow> quota_error + nat" where
  "get_daily_usage_count R db ext d user =
     (case user of
        Some i \<Rightarrow>
          (case read_usage_schema_mode db of
             Inl e \<Rightarrow> Inl e
           | Inr mode \<Rightarrow>
               get_learner_usage_count R mode db
                 \<lparr>uq_date = d, uq_user = i, uq_platform = q_platform R, uq_ext = ext\<rparr>)
      | None \<Rightarrow> Inr (get_anonymous_usage_count R db ext d))"

text \<open>The repository as \<open>PlatformChatRateLimitService\<close> constructs it for a platform, with the
  two query factories its modules pass.\<close>

definition wired_repo :: "string \<Rightarrow> quota_repo" where
  "wired_repo p = \<lparr>q_platform = p, q_hooks = False,
     q_learner_query = Some build_learner_usage_query,
     q_legacy_query = Some build_legacy_learner_usage_query\<rparr>"

section \<open>Reserve\<close>

definition new_idem_row :: "quota_repo \<Rightarrow> millis \<Rightarrow> reserve_input \<Rightarrow> idem_row" where
  "new_idem_row R now inp =
     \<lparr>i_platform = q_platform R, i_key = ri_key inp, i_ext = ri_ext inp, i_user = ri_user inp,
      i_date = ri_date inp, i_status = Reserved, i_reserved_at = now\<rparr>"

definition try_reserve_idempotency ::
    "quota_repo \<Rightarrow> millis \<Rightarrow> reserve_input \<Rightarrow> quota_db \<Rightarrow> idem_row option \<times> quota_db" where
  "try_reserve_idempotency R now inp db =
     (let row = new_idem_row R now inp;
          (rows, inserted) = sql_insert_ignore idem_key row (idem db)
      in (if inserted then Some row else None, db\<lparr>idem := rows\<rparr>))"

definition burst_statuses :: "bool \<Rightarrow> idem_status list" where
  "burst_statuses counts_refunded =
     [Reserved, Delivered, Completed] @ (if counts_refunded then [Refunded] else [])"

definition burst_count :: "quota_repo \<Rightarrow> ext_id \<Rightarrow> millis \<Rightarrow> bool \<Rightarrow> quota_db \<Rightarrow> nat" where
  "burst_count R ext since counts_refunded db =
     sql_count (\<lambda>r. i_platform r = q_platform R \<and> i_ext r = ext \<and> i_reserved_at r > since
                  \<and> i_status r \<in> set (burst_statuses counts_refunded)) (idem db)"

definition burst_exceeded :: "quota_repo \<Rightarrow> reserve_input \<Rightarrow> quota_db \<Rightarrow> nat option" where
  "burst_exceeded R inp db =
     (case (ri_burst_limit inp, ri_burst_since inp) of
        (Some lim, Some since) \<Rightarrow>
          (let c = burst_count R (ri_ext inp) since (ri_counts_refunded inp) db
           in if int c > lim then Some c else None)
      | _ \<Rightarrow> None)"

definition reserve_query :: "quota_repo \<Rightarrow> reserve_input \<Rightarrow> user_id \<Rightarrow> usage_query" where
  "reserve_query R inp i =
     \<lparr>uq_date = ri_date inp, uq_user = i, uq_platform = q_platform R, uq_ext = ri_ext inp\<rparr>"

definition new_usage_row :: "quota_repo \<Rightarrow> reserve_input \<Rightarrow> usage_row" where
  "new_usage_row R inp =
     \<lparr>u_platform = q_platform R, u_ext = ri_ext inp, u_user = ri_user inp,
      u_date = ri_date inp, u_count = 1\<rparr>"

text \<open>The learner upsert, after the aggregate check; \<open>None\<close> is the thrown
  \<open>DailyLimitExceededError\<close>.\<close>

definition charge_learner ::
    "quota_repo \<Rightarrow> schema_mode \<Rightarrow> reserve_input \<Rightarrow> user_id \<Rightarrow> quota_db \<Rightarrow>
     quota_error + (nat \<times> quota_db) option" where
  "charge_learner R mode inp i db =
     (case get_learner_usage_count R mode db (reserve_query R inp i) of
        Inl e \<Rightarrow> Inl e
      | Inr used_before \<Rightarrow>
          if int used_before \<ge> ri_daily_limit inp then Inr None
          else
            let (rows, ret) =
              (case mode of
                 Legacy \<Rightarrow>
                   sql_upsert usage_channel (new_usage_row R inp)
                     (\<lambda>u. u\<lparr>u_count := (if u_user u \<noteq> None \<and> u_user u \<noteq> Some i then 1
                                        else u_count u + 1),
                           u_user := Some i\<rparr>)
                     (\<lambda>u. True) (usage db)
               | Owner_Aware \<Rightarrow>
                   sql_upsert usage_bucket (new_usage_row R inp)
                     (\<lambda>u. u\<lparr>u_count := u_count u + 1\<rparr>) (\<lambda>u. True) (usage db))
            in Inr (map_option (\<lambda>u. (u_count u, db\<lparr>usage := rows\<rparr>)) ret))"

definition charge_anonymous ::
    "quota_repo \<Rightarrow> schema_mode \<Rightarrow> reserve_input \<Rightarrow> quota_db \<Rightarrow> (nat \<times> quota_db) option" where
  "charge_anonymous R mode inp db =
     (let (rows, ret) =
        (case mode of
           Legacy \<Rightarrow>
             sql_upsert usage_channel (new_usage_row R inp)
               (\<lambda>u. u\<lparr>u_count := (if u_user u = None then u_count u + 1 else 1), u_user := None\<rparr>)
               (\<lambda>u. u_user u \<noteq> None \<or> int (u_count u) < ri_daily_limit inp) (usage db)
         | Owner_Aware \<Rightarrow>
             sql_upsert usage_bucket (new_usage_row R inp)
               (\<lambda>u. u\<lparr>u_count := u_count u + 1\<rparr>)
               (\<lambda>u. int (u_count u) < ri_daily_limit inp) (usage db))
      in map_option (\<lambda>u. (u_count u, db\<lparr>usage := rows\<rparr>)) ret)"

definition charge_usage ::
    "quota_repo \<Rightarrow> schema_mode \<Rightarrow> reserve_input \<Rightarrow> quota_db \<Rightarrow>
     quota_error + (nat \<times> quota_db) option" where
  "charge_usage R mode inp db =
     (case ri_user inp of
        Some i \<Rightarrow> charge_learner R mode inp i db
      | None \<Rightarrow> Inr (charge_anonymous R mode inp db))"

definition emit_event :: "quota_repo \<Rightarrow> quota_event \<Rightarrow> quota_db \<Rightarrow> quota_db" where
  "emit_event R ev db = (if q_hooks R then db\<lparr>quota_events := quota_events db @ [ev]\<rparr> else db)"

definition reserve_slot ::
    "quota_repo \<Rightarrow> millis \<Rightarrow> reserve_input \<Rightarrow> quota_db \<Rightarrow>
     quota_error + (reserve_outcome \<times> quota_db)" where
  "reserve_slot R now inp db =
     (let (row, db1) = try_reserve_idempotency R now inp db in
      case row of
        None \<Rightarrow> Inr (Idempotency_Conflict, db1)
      | Some _ \<Rightarrow>
          (case burst_exceeded R inp db1 of
             Some c \<Rightarrow> Inr (Burst_Limit_Exceeded c, db)
           | None \<Rightarrow>
               (case read_usage_schema_mode db1 of
                  Inl e \<Rightarrow> Inl e
                | Inr mode \<Rightarrow>
                    (case charge_usage R mode inp db1 of
                       Inl e \<Rightarrow> Inl e
                     | Inr None \<Rightarrow> Inr (Daily_Limit_Exceeded, db)
                     | Inr (Some (n, db2)) \<Rightarrow>
                         (case (case ri_user inp of
                                  None \<Rightarrow> Inr n
                                | Some i \<Rightarrow>
                                    get_learner_usage_count R mode db2 (reserve_query R inp i)) of
                            Inl e \<Rightarrow> Inl e
                          | Inr used_after \<Rightarrow>
                              Inr (Slot_Reserved used_after,
                                emit_event R
                                  (On_Reserved (ri_ext inp) (ri_user inp) (ri_date inp)
                                     (ri_key inp) (ri_daily_limit inp) used_after) db2))))))"

section \<open>Release, delivery and completion\<close>

definition uncharge :: "bucket \<Rightarrow> usage_row list \<Rightarrow> usage_row list" where
  "uncharge b us = sql_update (\<lambda>u. usage_bucket u = b) (\<lambda>u. u\<lparr>u_count := u_count u - 1\<rparr>) us"

text \<open>The usage the release event reports: the learner aggregate for a learner charge, the
  decremented anonymous row otherwise.\<close>

definition used_after_release ::
    "quota_repo \<Rightarrow> quota_db \<Rightarrow> idem_row \<Rightarrow> quota_error + nat" where
  "used_after_release R db r =
     (case i_user r of
        None \<Rightarrow> Inr (get_anonymous_usage_count R db (i_ext r) (i_date r))
      | Some i \<Rightarrow>
          (case read_usage_schema_mode db of
             Inl e \<Rightarrow> Inl e
           | Inr mode \<Rightarrow>
               get_learner_usage_count R mode db
                 \<lparr>uq_date = i_date r, uq_user = i, uq_platform = q_platform R, uq_ext = i_ext r\<rparr>))"

definition set_status :: "quota_repo \<Rightarrow> string \<Rightarrow> idem_status list \<Rightarrow> idem_status \<Rightarrow> quota_db \<Rightarrow> quota_db" where
  "set_status R key froms to db =
     db\<lparr>idem := sql_update (\<lambda>r. idem_key r = (q_platform R, key) \<and> i_status r \<in> set froms)
                 (\<lambda>r. r\<lparr>i_status := to\<rparr>) (idem db)\<rparr>"

definition release_row ::
    "quota_repo \<Rightarrow> release_reason \<Rightarrow> idem_row \<Rightarrow> quota_db \<Rightarrow> quota_error + quota_db" where
  "release_row R reason r db =
     (let db1 = set_status R (i_key r) [Reserved] Refunded db;
          db2 = db1\<lparr>usage := uncharge (idem_bucket r) (usage db1)\<rparr>
      in case used_after_release R db2 r of
           Inl e \<Rightarrow> Inl e
         | Inr n \<Rightarrow>
             Inr (emit_event R
               (On_Released (i_ext r) (i_user r) (i_date r) (i_key r) reason n) db2))"

definition find_idem :: "quota_repo \<Rightarrow> string \<Rightarrow> quota_db \<Rightarrow> idem_row option" where
  "find_idem R key db = find (\<lambda>r. idem_key r = (q_platform R, key)) (idem db)"

definition refund_reserved_slot ::
    "quota_repo \<Rightarrow> release_reason \<Rightarrow> string \<Rightarrow> quota_db \<Rightarrow> quota_error + (bool \<times> quota_db)" where
  "refund_reserved_slot R reason key db =
     (case find_idem R key db of
        Some r \<Rightarrow>
          if i_status r = Reserved
          then (case release_row R reason r db of Inl e \<Rightarrow> Inl e | Inr db' \<Rightarrow> Inr (True, db'))
          else Inr (False, db)
      | None \<Rightarrow> Inr (False, db))"

definition has_status :: "quota_repo \<Rightarrow> string \<Rightarrow> idem_status list \<Rightarrow> quota_db \<Rightarrow> bool" where
  "has_status R key sts db =
     list_ex (\<lambda>r. idem_key r = (q_platform R, key) \<and> i_status r \<in> set sts) (idem db)"

definition complete_reserved_slot :: "quota_repo \<Rightarrow> string \<Rightarrow> quota_db \<Rightarrow> bool \<times> quota_db" where
  "complete_reserved_slot R key db =
     (has_status R key [Reserved, Delivered] db,
      set_status R key [Reserved, Delivered] Completed db)"

definition mark_delivered_slot :: "quota_repo \<Rightarrow> string \<Rightarrow> quota_db \<Rightarrow> bool \<times> quota_db" where
  "mark_delivered_slot R key db =
     (has_status R key [Reserved] db, set_status R key [Reserved] Delivered db)"

definition count_recent_reservations ::
    "quota_repo \<Rightarrow> ext_id \<Rightarrow> millis \<Rightarrow> bool \<Rightarrow> quota_db \<Rightarrow> nat" where
  "count_recent_reservations R ext since include_refunded db =
     sql_count (\<lambda>r. i_platform r = q_platform R \<and> i_ext r = ext \<and> i_reserved_at r > since
                  \<and> (include_refunded \<or> i_status r \<in> {Reserved, Delivered, Completed})) (idem db)"

section \<open>Recovery\<close>

definition delete_idem :: "quota_repo \<Rightarrow> string \<Rightarrow> quota_db \<Rightarrow> quota_db" where
  "delete_idem R key db = db\<lparr>idem := sql_delete (\<lambda>r. idem_key r = (q_platform R, key)) (idem db)\<rparr>"

definition recover_idempotency_for_retry ::
    "quota_repo \<Rightarrow> string \<Rightarrow> millis \<Rightarrow> quota_db \<Rightarrow> quota_error + (recover_outcome \<times> quota_db)" where
  "recover_idempotency_for_retry R key stuck_before db =
     (case find_idem R key db of
        None \<Rightarrow> Inr (Not_Found, db)
      | Some r \<Rightarrow>
          (case i_status r of
             Completed \<Rightarrow> Inr (Rec_Completed, db)
           | Delivered \<Rightarrow> Inr (Rec_Delivered, db)
           | Reserved \<Rightarrow>
               if i_reserved_at r \<ge> stuck_before then Inr (In_Flight, db)
               else (case release_row R Stuck_Recover r db of
                       Inl e \<Rightarrow> Inl e
                     | Inr db' \<Rightarrow> Inr (Reopened, delete_idem R key db'))
           | Refunded \<Rightarrow> Inr (Reopened, delete_idem R key db)))"

definition list_stuck_reserved :: "quota_repo \<Rightarrow> millis \<Rightarrow> quota_db \<Rightarrow> idem_row list" where
  "list_stuck_reserved R stuck_before db =
     sort_key i_reserved_at
       (filter (\<lambda>r. i_platform r = q_platform R \<and> i_status r = Reserved
                  \<and> i_reserved_at r < stuck_before) (idem db))"

text \<open>Bulk recovery groups the decrements of a page in two JavaScript maps keyed by composite
  strings, then splits the keys again to build the \<open>VALUES\<close> list.\<close>

definition slice10 :: "date_str \<Rightarrow> date_str" where
  "slice10 d = take 10 d"

definition anonymous_key :: "idem_row \<Rightarrow> string" where
  "anonymous_key r = js_join '':'' [slice10 (i_date r), i_ext r]"

definition learner_key :: "user_id \<Rightarrow> idem_row \<Rightarrow> string" where
  "learner_key i r = js_join '':'' [slice10 (i_date r), int_str i, i_ext r]"

fun bump_count :: "'k \<Rightarrow> ('k \<times> nat) list \<Rightarrow> ('k \<times> nat) list" where
  "bump_count k [] = [(k, 1)]"
| "bump_count k ((k', n) # m) = (if k' = k then (k', n + 1) # m else (k', n) # bump_count k m)"

definition group_counts :: "'k list \<Rightarrow> ('k \<times> nat) list" where
  "group_counts ks = fold bump_count ks []"

fun anonymous_values :: "string \<Rightarrow> string \<times> nat \<Rightarrow> (bucket \<times> nat) option" where
  "anonymous_values p (k, n) =
     (case js_split (CHR '':'') k of
        d # e # _ \<Rightarrow> Some ((p, e, slice10 d, None), n)
      | _ \<Rightarrow> None)"

fun learner_values :: "string \<Rightarrow> string \<times> nat \<Rightarrow> (bucket \<times> nat) option" where
  "learner_values p (k, n) =
     (case js_split (CHR '':'') k of
        d # i # e # _ \<Rightarrow> map_option (\<lambda>u. ((p, e, slice10 d, Some u), n)) (js_number i)
      | _ \<Rightarrow> None)"

definition decrement_by_values :: "(bucket \<times> nat) list \<Rightarrow> usage_row list \<Rightarrow> usage_row list" where
  "decrement_by_values vs us =
     map (\<lambda>u. case map_of vs (usage_bucket u) of
                None \<Rightarrow> u
              | Some delta \<Rightarrow> u\<lparr>u_count := u_count u - delta\<rparr>) us"

definition page_decrement :: "quota_repo \<Rightarrow> idem_row list \<Rightarrow> usage_row list \<Rightarrow> usage_row list" where
  "page_decrement R page us =
     (let anon = group_counts (map anonymous_key (filter (\<lambda>r. i_user r = None) page));
          lrn = group_counts (List.map_filter (\<lambda>r. map_option (\<lambda>i. learner_key i r) (i_user r)) page);
          us1 = decrement_by_values (List.map_filter (anonymous_values (q_platform R)) anon) us
      in decrement_by_values (List.map_filter (learner_values (q_platform R)) lrn) us1)"

definition event_bucket_key :: "idem_row \<Rightarrow> string" where
  "event_bucket_key r =
     (case i_user r of
        None \<Rightarrow> js_join '':'' [''anonymous'', slice10 (i_date r), i_ext r]
      | Some i \<Rightarrow> js_join '':'' [''learner'', slice10 (i_date r), int_str i])"

definition used_after_cached ::
    "quota_repo \<Rightarrow> schema_mode \<Rightarrow> (string \<times> nat) list \<Rightarrow> idem_row \<Rightarrow> quota_db \<Rightarrow> quota_error + nat" where
  "used_after_cached R mode cache r db =
     (case map_of cache (event_bucket_key r) of
        Some n \<Rightarrow> Inr n
      | None \<Rightarrow>
          (case i_user r of
             None \<Rightarrow> Inr (get_anonymous_usage_count R db (i_ext r) (slice10 (i_date r)))
           | Some i \<Rightarrow>
               get_learner_usage_count R mode db
                 \<lparr>uq_date = slice10 (i_date r), uq_user = i,
                  uq_platform = q_platform R, uq_ext = i_ext r\<rparr>))"

fun emit_page_events ::
    "quota_repo \<Rightarrow> schema_mode \<Rightarrow> (string \<times> nat) list \<Rightarrow> idem_row list \<Rightarrow> quota_db \<Rightarrow>
     quota_error + quota_db" where
  "emit_page_events R mode cache [] db = Inr db"
| "emit_page_events R mode cache (r # rs) db =
     (case used_after_cached R mode cache r db of
        Inl e \<Rightarrow> Inl e
      | Inr n \<Rightarrow>
          emit_page_events R mode ((event_bucket_key r, n) # cache) rs
            (emit_event R
              (On_Released (i_ext r) (i_user r) (slice10 (i_date r)) (i_key r) Stuck_Recover n) db))"

function chunks :: "nat \<Rightarrow> 'a list \<Rightarrow> 'a list list" where
  "chunks n xs = (if xs = [] \<or> n = 0 then [] else take n xs # chunks n (drop n xs))"
  by pat_completeness auto
termination
  by (relation "measure (\<lambda>(n, xs). length xs)") auto

declare chunks.simps [simp del]

fun recover_pages ::
    "quota_repo \<Rightarrow> schema_mode \<Rightarrow> idem_row list list \<Rightarrow> quota_db \<Rightarrow> quota_error + quota_db" where
  "recover_pages R mode [] db = Inr db"
| "recover_pages R mode (page # pages) db =
     (case emit_page_events R mode [] page
             (db\<lparr>usage := page_decrement R page (usage db)\<rparr>) of
        Inl e \<Rightarrow> Inl e
      | Inr db' \<Rightarrow> recover_pages R mode pages db')"

definition stuck_in :: "quota_repo \<Rightarrow> millis \<Rightarrow> idem_status \<Rightarrow> idem_row \<Rightarrow> bool" where
  "stuck_in R stuck_before st r \<longleftrightarrow>
     i_platform r = q_platform R \<and> i_status r = st \<and> i_reserved_at r < stuck_before"

definition recover_all_stuck_reserved ::
    "quota_repo \<Rightarrow> millis \<Rightarrow> quota_db \<Rightarrow> quota_error + (string list \<times> quota_db)" where
  "recover_all_stuck_reserved R stuck_before db =
     (case read_usage_schema_mode db of
        Inl e \<Rightarrow> Inl e
      | Inr mode \<Rightarrow>
          (let delivered = filter (stuck_in R stuck_before Delivered) (idem db);
               db1 = db\<lparr>idem := sql_update (stuck_in R stuck_before Delivered)
                                  (\<lambda>r. r\<lparr>i_status := Completed\<rparr>) (idem db)\<rparr>;
               rows = filter (stuck_in R stuck_before Reserved) (idem db1);
               db2 = db1\<lparr>idem := sql_update (stuck_in R stuck_before Reserved)
                                   (\<lambda>r. r\<lparr>i_status := Refunded\<rparr>) (idem db1)\<rparr>
           in if rows = [] then Inr (map i_key delivered, db1)
              else (case recover_pages R mode (chunks 1000 rows) db2 of
                      Inl e \<Rightarrow> Inl e
                    | Inr db3 \<Rightarrow> Inr (map i_key delivered @ map i_key rows, db3))))"

end
