(* ===== verification/Chat_Quota_Books.thy ===== *)
theory Chat_Quota_Books
  imports Chat_Quota
begin

text \<open>
  The accounting discipline of the quota repository. In the owner-aware schema the multiset of
  charged buckets of \<open>chat_daily_usage\<close> is exactly the multiset of buckets of the
  idempotency rows that still hold a slot, whatever sequence of reserve, refund, deliver,
  complete and recovery transactions of the platforms ran; from it follow the daily caps.
  A sequence of transactions is a list of \<open>quota_op\<close>; \<open>quota_run\<close> executes it, a
  transaction that throws leaving the database as it was.
\<close>

section \<open>Books: charged buckets against live reservations\<close>

definition live :: "idem_row \<Rightarrow> bool" where
  "live r \<longleftrightarrow> i_status r \<noteq> Refunded"

definition usage_mset :: "usage_row list \<Rightarrow> bucket multiset" where
  "usage_mset us = sum_list (map (\<lambda>u. replicate_mset (u_count u) (usage_bucket u)) us)"

definition charged_mset :: "idem_row list \<Rightarrow> bucket multiset" where
  "charged_mset rs = image_mset idem_bucket (filter_mset live (mset rs))"

definition owner_aware :: "quota_db \<Rightarrow> bool" where
  "owner_aware db \<longleftrightarrow> \<not> legacy_index db \<and> linked_index db \<and> anonymous_index db"

definition accounted :: "quota_db \<Rightarrow> bool" where
  "accounted db \<longleftrightarrow> owner_aware db \<and> keyed idem_key (idem db) \<and> keyed usage_bucket (usage db)
     \<and> usage_mset (usage db) = charged_mset (idem db)"

text \<open>Identifiers for which the composite keys of bulk recovery are unambiguous: a channel id
  without a colon and a date of the form \<open>YYYY-MM-DD\<close>.\<close>

definition plain_ids :: "ext_id \<Rightarrow> date_str \<Rightarrow> bool" where
  "plain_ids ext d \<longleftrightarrow> CHR '':'' \<notin> set ext \<and> CHR '':'' \<notin> set d \<and> length d = 10"

definition plain_row :: "idem_row \<Rightarrow> bool" where
  "plain_row r \<longleftrightarrow> plain_ids (i_ext r) (i_date r)"

subsection \<open>The usage multiset\<close>

lemma usage_mset_simps [simp]:
  "usage_mset [] = {#}"
  "usage_mset (u # us) = replicate_mset (u_count u) (usage_bucket u) + usage_mset us"
  "usage_mset (us @ vs) = usage_mset us + usage_mset vs"
  by (simp_all add: usage_mset_def)

lemma charged_mset_simps [simp]:
  "charged_mset [] = {#}"
  "charged_mset (r # rs) = (if live r then {#idem_bucket r#} else {#}) + charged_mset rs"
  "charged_mset (rs @ qs) = charged_mset rs + charged_mset qs"
  by (simp_all add: charged_mset_def)

lemma count_usage_mset: "count (usage_mset us) b = sql_sum u_count (\<lambda>u. usage_bucket u = b) us"
  by (induction us) auto

lemma filter_replicate_mset:
  "filter_mset P (replicate_mset n x) = (if P x then replicate_mset n x else {#})"
  by (induction n) auto

lemma size_filter_usage_mset:
  "size (filter_mset P (usage_mset us)) = sql_sum u_count (\<lambda>u. P (usage_bucket u)) us"
  by (induction us) (auto simp: filter_replicate_mset)

lemma size_filter_charged_mset:
  "size (filter_mset P (charged_mset rs)) = sql_count (\<lambda>r. live r \<and> P (idem_bucket r)) rs"
  by (induction rs) auto

lemma count_charged_mset: "count (charged_mset rs) b = sql_count (\<lambda>r. live r \<and> idem_bucket r = b) rs"
  by (induction rs) auto

lemma usage_bucket_count [simp]: "usage_bucket (u\<lparr>u_count := n\<rparr>) = usage_bucket u"
  by (simp add: usage_bucket_def)

lemma idem_bucket_status [simp]:
  "idem_bucket (r\<lparr>i_status := s\<rparr>) = idem_bucket r" "idem_key (r\<lparr>i_status := s\<rparr>) = idem_key r"
  by (simp_all add: idem_bucket_def idem_key_def)

lemma usage_mset_upsert:
  assumes "keyed usage_bucket us"
    and "sql_upsert usage_bucket new (\<lambda>u. u\<lparr>u_count := u_count u + 1\<rparr>) g us = (rows, Some u)"
    and "u_count new = 1"
  shows "usage_mset rows = usage_mset us + {#usage_bucket new#}"
proof (cases "find (\<lambda>r. usage_bucket r = usage_bucket new) us")
  case None
  then show ?thesis using assms(2,3) by (auto simp: sql_upsert_def)
next
  case (Some old)
  then have old: "old \<in> set us" "usage_bucket old = usage_bucket new"
    using find_SomeD by fast+
  obtain as bs where "us = as @ old # bs"
    and "\<And>f. sql_update (\<lambda>q. usage_bucket q = usage_bucket new) f us = as @ f old # bs"
    using keyed_update_split [OF assms(1) old] by metis
  then show ?thesis
    using Some assms(2) old by (auto simp: sql_upsert_def split: if_splits)
qed

text \<open>Decrementing rows by a function of their bucket subtracts that many copies.\<close>

definition dec_rows :: "(bucket \<Rightarrow> nat) \<Rightarrow> usage_row list \<Rightarrow> usage_row list" where
  "dec_rows f us = map (\<lambda>u. u\<lparr>u_count := u_count u - f (usage_bucket u)\<rparr>) us"

lemma sql_sum_dec_rows:
  assumes "keyed usage_bucket us"
  shows "sql_sum u_count (\<lambda>u. usage_bucket u = b) (dec_rows f us)
       = sql_sum u_count (\<lambda>u. usage_bucket u = b) us - f b"
  using assms
proof (induction us)
  case Nil
  then show ?case by (simp add: dec_rows_def)
next
  case (Cons u us)
  have "usage_bucket u = b \<Longrightarrow> sql_sum u_count (\<lambda>u. usage_bucket u = b) us = 0"
    using Cons.prems by (auto simp: keyed_Cons sql_sum_def filter_empty_conv)
  with Cons show ?case by (auto simp: dec_rows_def keyed_Cons)
qed

lemma keyed_dec_rows: "keyed usage_bucket us \<Longrightarrow> keyed usage_bucket (dec_rows f us)"
  by (simp add: keyed_def dec_rows_def comp_def)

lemma uncharge_dec_rows: "uncharge b us = dec_rows (\<lambda>x. if x = b then 1 else 0) us"
  by (simp add: uncharge_def sql_update_def dec_rows_def)

lemma decrement_by_values_dec_rows:
  "decrement_by_values vs us = dec_rows (\<lambda>b. case map_of vs b of None \<Rightarrow> 0 | Some n \<Rightarrow> n) us"
  unfolding decrement_by_values_def dec_rows_def
  by (rule map_cong) (auto split: option.splits)

lemma dec_rows_dec_rows: "dec_rows g (dec_rows f us) = dec_rows (\<lambda>b. f b + g b) us"
  by (simp add: dec_rows_def)

lemma usage_mset_dec_rows:
  assumes "keyed usage_bucket us" and "\<And>b. count M b = f b"
  shows "usage_mset (dec_rows f us) = usage_mset us - M"
  by (rule multiset_eqI) (simp add: count_usage_mset sql_sum_dec_rows [OF assms(1)] assms(2))

lemma usage_mset_uncharge:
  "keyed usage_bucket us \<Longrightarrow> usage_mset (uncharge b us) = usage_mset us - {#b#}"
  unfolding uncharge_dec_rows by (rule usage_mset_dec_rows) auto

subsection \<open>Grouping a page of decrements\<close>

lemma map_of_bump_count: "map_of (bump_count k m) = (map_of m)(k \<mapsto> (case map_of m k of None \<Rightarrow> 1 | Some n \<Rightarrow> n + 1))"
  by (induction k m rule: bump_count.induct) (auto split: option.splits)

lemma group_counts_Nil [simp]: "group_counts [] = []"
  and group_counts_snoc [simp]: "group_counts (ks @ [k]) = bump_count k (group_counts ks)"
  by (simp_all add: group_counts_def)

lemma map_of_group_counts:
  "map_of (group_counts ks) k = (if k \<in> set ks then Some (count_list ks k) else None)"
proof (induction ks rule: rev_induct)
  case Nil
  then show ?case by (simp add: group_counts_def)
next
  case (snoc x xs)
  then show ?case
    by (auto simp: map_of_bump_count split: option.splits if_splits)
qed

lemma keys_bump_count: "fst ` set (bump_count k m) = insert k (fst ` set m)"
  by (induction k m rule: bump_count.induct) auto

lemma keys_group_counts: "fst ` set (group_counts ks) = set ks"
proof -
  have "fst ` set (fold bump_count ks m) = set ks \<union> fst ` set m" for m
    by (induction ks arbitrary: m) (auto simp: keys_bump_count)
  then show ?thesis by (simp add: group_counts_def)
qed

lemma bump_count_map:
  "inj_on f (insert k (fst ` set m)) \<Longrightarrow>
   bump_count (f k) (map (map_prod f id) m) = map (map_prod f id) (bump_count k m)"
proof (induction k m rule: bump_count.induct)
  case (2 k k' n m)
  have "f k' = f k \<longleftrightarrow> k' = k"
    using 2(2) by (auto simp: inj_on_def)
  moreover have "inj_on f (insert k (fst ` set m))"
    using 2(2) by (rule inj_on_subset) auto
  ultimately show ?case using 2(1) by auto
qed simp

lemma group_counts_map:
  "inj_on f (set ks) \<Longrightarrow> group_counts (map f ks) = map (map_prod f id) (group_counts ks)"
proof (induction ks rule: rev_induct)
  case Nil
  then show ?case by (simp add: group_counts_def)
next
  case (snoc x xs)
  have "inj_on f (insert x (fst ` set (group_counts xs)))"
    using snoc.prems by (simp add: keys_group_counts)
  moreover have "group_counts (map f xs) = map (map_prod f id) (group_counts xs)"
    using snoc by (auto intro: inj_on_subset)
  ultimately show ?case using bump_count_map [of f x "group_counts xs"] by (simp add: id_def)
qed

text \<open>Encoding buckets as keys, grouping the keys and decoding them groups the buckets.\<close>

lemma decode_group_counts:
  assumes dec: "\<And>b n. b \<in> set bs \<Longrightarrow> vals (enc b, n) = Some (b, n)"
  shows "List.map_filter vals (group_counts (map enc bs)) = group_counts bs"
proof -
  have "inj_on enc (set bs)"
    using dec by (metis inj_onI option.inject prod.inject)
  then have "group_counts (map enc bs) = map (map_prod enc id) (group_counts bs)"
    by (rule group_counts_map)
  moreover have "List.map_filter vals (map (map_prod enc id) m) = m"
    if "fst ` set m \<subseteq> set bs" for m
    using that
    by (induction m) (auto simp: List.map_filter_simps dec)
  ultimately show ?thesis by (simp add: keys_group_counts)
qed

definition enc_anonymous :: "bucket \<Rightarrow> string" where
  "enc_anonymous b = (case b of (p, e, d, u) \<Rightarrow> js_join '':'' [slice10 d, e])"

definition enc_learner :: "bucket \<Rightarrow> string" where
  "enc_learner b = (case b of (p, e, d, u) \<Rightarrow> js_join '':'' [slice10 d, int_str (the u), e])"

lemma slice10_plain [simp]: "plain_ids e d \<Longrightarrow> slice10 d = d"
  by (simp add: plain_ids_def slice10_def)

lemma anonymous_values_enc:
  assumes "plain_ids e d"
  shows "anonymous_values p (enc_anonymous (p, e, d, None), n) = Some ((p, e, d, None), n)"
proof -
  have "js_split (CHR '':'') (js_join '':'' [d, e]) = [d, e]"
    using assms by (intro js_split_join) (auto simp: plain_ids_def)
  with assms show ?thesis by (simp add: enc_anonymous_def)
qed

lemma learner_values_enc:
  assumes "plain_ids e d"
  shows "learner_values p (enc_learner (p, e, d, Some i), n) = Some ((p, e, d, Some i), n)"
proof -
  have "js_split (CHR '':'') (js_join '':'' [d, int_str i, e]) = [d, int_str i, e]"
    using assms by (intro js_split_join) (auto simp: plain_ids_def)
  with assms show ?thesis by (simp add: enc_learner_def)
qed

definition page_ok :: "quota_repo \<Rightarrow> idem_row list \<Rightarrow> bool" where
  "page_ok R page \<longleftrightarrow> (\<forall>r\<in>set page. i_platform r = q_platform R \<and> plain_row r)"

lemma anonymous_page_values:
  assumes "page_ok R page"
  shows "List.map_filter (anonymous_values (q_platform R))
           (group_counts (map anonymous_key (filter (\<lambda>r. i_user r = None) page)))
       = group_counts (map idem_bucket (filter (\<lambda>r. i_user r = None) page))"
proof -
  let ?bs = "map idem_bucket (filter (\<lambda>r. i_user r = None) page)"
  have keys: "map anonymous_key (filter (\<lambda>r. i_user r = None) page) = map enc_anonymous ?bs"
    by (simp add: anonymous_key_def enc_anonymous_def idem_bucket_def)
  have "anonymous_values (q_platform R) (enc_anonymous b, n) = Some (b, n)" if "b \<in> set ?bs" for b n
    using that assms
    by (auto simp: page_ok_def plain_row_def idem_bucket_def anonymous_values_enc
        simp del: anonymous_values.simps)
  then show ?thesis unfolding keys by (rule decode_group_counts)
qed

lemma learner_keys_page:
  "List.map_filter (\<lambda>r. map_option (\<lambda>i. learner_key i r) (i_user r)) page
   = map enc_learner (map idem_bucket (filter (\<lambda>r. i_user r \<noteq> None) page))"
  by (induction page)
    (auto simp: List.map_filter_simps learner_key_def enc_learner_def idem_bucket_def)

lemma learner_page_values:
  assumes "page_ok R page"
  shows "List.map_filter (learner_values (q_platform R))
           (group_counts (List.map_filter (\<lambda>r. map_option (\<lambda>i. learner_key i r) (i_user r)) page))
       = group_counts (map idem_bucket (filter (\<lambda>r. i_user r \<noteq> None) page))"
proof -
  let ?bs = "map idem_bucket (filter (\<lambda>r. i_user r \<noteq> None) page)"
  have "learner_values (q_platform R) (enc_learner b, n) = Some (b, n)" if "b \<in> set ?bs" for b n
    using that assms
    by (auto simp: page_ok_def plain_row_def idem_bucket_def learner_values_enc
        simp del: learner_values.simps)
  then show ?thesis unfolding learner_keys_page by (rule decode_group_counts)
qed

lemma count_list_zero: "k \<notin> set ks \<Longrightarrow> count_list ks k = 0"
  by (induction ks) auto

lemma count_group_counts:
  "(case map_of (group_counts ks) k of None \<Rightarrow> 0 | Some n \<Rightarrow> n) = count_list ks k"
  by (simp add: map_of_group_counts count_list_zero)

lemma count_list_partition:
  "count_list (map f (filter P xs)) b + count_list (map f (filter (\<lambda>x. \<not> P x) xs)) b
   = count_list (map f xs) b"
  by (induction xs) auto

lemma page_decrement_dec_rows:
  assumes "page_ok R page"
  shows "page_decrement R page us = dec_rows (count_list (map idem_bucket page)) us"
  using count_list_partition [of idem_bucket "\<lambda>r. i_user r = None" page]
  by (simp add: page_decrement_def anonymous_page_values [OF assms] learner_page_values [OF assms]
      decrement_by_values_dec_rows dec_rows_dec_rows count_group_counts)

lemma usage_mset_page_decrement:
  assumes "page_ok R page" and "keyed usage_bucket us"
  shows "usage_mset (page_decrement R page us) = usage_mset us - mset (map idem_bucket page)"
  unfolding page_decrement_dec_rows [OF assms(1)]
  by (rule usage_mset_dec_rows [OF assms(2)]) (rule count_mset)

section \<open>What each transaction does to the books\<close>

definition repo_ok :: "quota_repo \<Rightarrow> bool" where
  "repo_ok R \<longleftrightarrow> (case q_learner_query R of None \<Rightarrow> False | Some f \<Rightarrow> f = build_learner_usage_query)"

lemma repo_ok_iff: "repo_ok R \<longleftrightarrow> q_learner_query R = Some build_learner_usage_query"
  by (simp add: repo_ok_def split: option.splits)

lemma schema_mode_owner_aware [simp]: "owner_aware db \<Longrightarrow> read_usage_schema_mode db = Inr Owner_Aware"
  by (simp add: owner_aware_def read_usage_schema_mode_def)

lemma owner_aware_update [simp]:
  "owner_aware (db\<lparr>idem := a\<rparr>) = owner_aware db"
  "owner_aware (db\<lparr>usage := b\<rparr>) = owner_aware db"
  "owner_aware (db\<lparr>quota_events := c\<rparr>) = owner_aware db"
  "owner_aware (db\<lparr>active_links := d\<rparr>) = owner_aware db"
  by (simp_all add: owner_aware_def)

lemma emit_event_frame [simp]:
  "idem (emit_event R ev db) = idem db" "usage (emit_event R ev db) = usage db"
  "owner_aware (emit_event R ev db) = owner_aware db"
  by (simp_all add: emit_event_def)

definition learner_used :: "user_id \<Rightarrow> date_str \<Rightarrow> quota_db \<Rightarrow> nat" where
  "learner_used i d db = sql_sum u_count (\<lambda>u. u_date u = d \<and> u_user u = Some i) (usage db)"

lemma get_learner_usage_count_ok:
  "repo_ok R \<Longrightarrow> get_learner_usage_count R Owner_Aware db q = Inr (learner_used (uq_user q) (uq_date q) db)"
  by (simp add: repo_ok_iff get_learner_usage_count_def learner_usage_query_for_schema_def
      build_learner_usage_query_def learner_used_def)

lemma used_after_cached_ok: "repo_ok R \<Longrightarrow> \<exists>n. used_after_cached R Owner_Aware cache r db = Inr n"
  by (simp add: used_after_cached_def get_learner_usage_count_ok split: option.splits)

lemma emit_page_events_ok:
  assumes "repo_ok R"
  obtains db' where "emit_page_events R Owner_Aware cache page db = Inr db'"
    and "idem db' = idem db" "usage db' = usage db" "owner_aware db' = owner_aware db"
proof -
  have "\<exists>db'. emit_page_events R Owner_Aware cache page db = Inr db'
      \<and> idem db' = idem db \<and> usage db' = usage db \<and> owner_aware db' = owner_aware db"
  proof (induction page arbitrary: cache db)
    case (Cons r rs)
    obtain n where "used_after_cached R Owner_Aware cache r db = Inr n"
      using used_after_cached_ok [OF assms] by blast
    then show ?case
      using Cons [of "(event_bucket_key r, n) # cache"
          "emit_event R (On_Released (i_ext r) (i_user r) (slice10 (i_date r)) (i_key r) Stuck_Recover n) db"]
      by simp
  qed simp
  then show ?thesis using that by blast
qed

lemma recover_pages_ok:
  assumes "repo_ok R" and "page_ok R (concat pages)" and "keyed usage_bucket (usage db)"
  shows "\<exists>db'. recover_pages R Owner_Aware pages db = Inr db' \<and> idem db' = idem db
     \<and> owner_aware db' = owner_aware db \<and> keyed usage_bucket (usage db')
     \<and> usage_mset (usage db') = usage_mset (usage db) - mset (map idem_bucket (concat pages))"
  using assms(2,3)
proof (induction pages arbitrary: db)
  case (Cons page pages)
  have page: "page_ok R page" "page_ok R (concat pages)"
    using Cons.prems(1) by (auto simp: page_ok_def)
  let ?db1 = "db\<lparr>usage := page_decrement R page (usage db)\<rparr>"
  obtain db2 where db2: "emit_page_events R Owner_Aware [] page ?db1 = Inr db2"
    "idem db2 = idem db" "usage db2 = usage ?db1" "owner_aware db2 = owner_aware db"
    using emit_page_events_ok [OF assms(1), of "[]" page ?db1] by auto
  have keyed: "keyed usage_bucket (usage db2)"
    using Cons.prems(2) db2(3) by (simp add: page_decrement_dec_rows [OF page(1)] keyed_dec_rows)
  have "usage_mset (usage db2) = usage_mset (usage db) - mset (map idem_bucket page)"
    using usage_mset_page_decrement [OF page(1) Cons.prems(2)] db2(3) by simp
  then show ?case
    using Cons.IH [OF page(2) keyed] db2 by (auto simp: diff_diff_add)
qed simp

lemma concat_chunks: "0 < n \<Longrightarrow> concat (chunks n xs) = xs"
proof (induction n xs rule: chunks.induct)
  case (1 n xs)
  then show ?case by (subst chunks.simps) auto
qed

subsection \<open>Status changes\<close>

lemma charged_mset_update:
  "(\<And>r. P r \<Longrightarrow> live (f r) = live r \<and> idem_bucket (f r) = idem_bucket r) \<Longrightarrow>
   charged_mset (sql_update P f rs) = charged_mset rs"
  by (induction rs) auto

lemma charged_mset_refund:
  "(\<And>r. P r \<Longrightarrow> live r) \<Longrightarrow>
   charged_mset rs
   = charged_mset (sql_update P (\<lambda>r. r\<lparr>i_status := Refunded\<rparr>) rs) + mset (map idem_bucket (filter P rs))"
  by (induction rs) (auto simp: live_def)

lemma charged_mset_delete:
  "(\<And>r. r \<in> set rs \<Longrightarrow> P r \<Longrightarrow> \<not> live r) \<Longrightarrow> charged_mset (sql_delete P rs) = charged_mset rs"
  by (induction rs) auto

lemma keyed_filter_single:
  assumes "keyed key xs" "r \<in> set xs" "key r = k" "Q r"
  shows "filter (\<lambda>x. key x = k \<and> Q x) xs = [r]"
  using assms by (induction xs) (auto simp: keyed_Cons filter_empty_conv)

definition books :: "quota_db \<Rightarrow> bool" where
  "books db \<longleftrightarrow> accounted db \<and> list_all plain_row (idem db)"

lemma list_all_plain_update:
  "list_all plain_row rs \<Longrightarrow> (\<And>r. P r \<Longrightarrow> plain_row (f r) = plain_row r) \<Longrightarrow>
   list_all plain_row (sql_update P f rs)"
  by (induction rs) auto

lemma plain_row_status [simp]: "plain_row (r\<lparr>i_status := s\<rparr>) = plain_row r"
  by (simp add: plain_row_def)

lemma keyed_set_status:
  "keyed idem_key (idem db) \<Longrightarrow> keyed idem_key (idem (set_status R key froms to db))"
  by (simp add: set_status_def keyed_update)

lemma set_status_frame [simp]:
  "usage (set_status R key froms to db) = usage db"
  "owner_aware (set_status R key froms to db) = owner_aware db"
  by (simp_all add: set_status_def)

lemma find_idem_set_status:
  "find_idem R key (set_status R key froms to db)
   = map_option (\<lambda>r. if i_status r \<in> set froms then r\<lparr>i_status := to\<rparr> else r) (find_idem R key db)"
proof -
  have "find (\<lambda>r. idem_key r = k) (sql_update (\<lambda>r. idem_key r = k \<and> i_status r \<in> set froms)
      (\<lambda>r. r\<lparr>i_status := to\<rparr>) rs)
    = map_option (\<lambda>r. if i_status r \<in> set froms then r\<lparr>i_status := to\<rparr> else r)
        (find (\<lambda>r. idem_key r = k) rs)" for k rs
    by (induction rs) auto
  then show ?thesis by (simp add: find_idem_def set_status_def)
qed

lemma has_status_find:
  "keyed idem_key (idem db) \<Longrightarrow>
   has_status R key sts db \<longleftrightarrow> (\<exists>r. find_idem R key db = Some r \<and> i_status r \<in> set sts)"
  by (auto simp: has_status_def find_idem_def list_ex_iff find_keyed)

lemma set_status_books:
  assumes "books db" and "Refunded \<notin> set froms" and "to \<noteq> Refunded"
  shows "books (set_status R key froms to db)"
proof -
  have "charged_mset (idem (set_status R key froms to db)) = charged_mset (idem db)"
    unfolding set_status_def
    using assms(2,3) by (auto simp: live_def intro!: charged_mset_update)
  then show ?thesis
    using assms(1)
    by (simp add: books_def accounted_def keyed_set_status)
      (simp add: set_status_def list_all_plain_update)
qed

lemma used_after_release_ok:
  "repo_ok R \<Longrightarrow> owner_aware db \<Longrightarrow> \<exists>n. used_after_release R db r = Inr n"
  by (simp add: used_after_release_def get_learner_usage_count_ok split: option.splits)

text \<open>Releasing a reserved row succeeds, marks it refunded and takes back exactly its slot.\<close>

lemma release_row_ok:
  assumes "repo_ok R" "books db" and r: "r \<in> set (idem db)" "idem_key r = (q_platform R, i_key r)"
    "i_status r = Reserved"
  shows "\<exists>db'. release_row R reason r db = Inr db' \<and> books db'
     \<and> idem db' = idem (set_status R (i_key r) [Reserved] Refunded db)
     \<and> usage_mset (usage db') = usage_mset (usage db) - {#idem_bucket r#}"
proof -
  let ?P = "\<lambda>q. idem_key q = (q_platform R, i_key r) \<and> i_status q \<in> set [Reserved]"
  let ?db1 = "set_status R (i_key r) [Reserved] Refunded db"
  let ?db2 = "?db1\<lparr>usage := uncharge (idem_bucket r) (usage ?db1)\<rparr>"
  have acc: "accounted db" and plain: "list_all plain_row (idem db)"
    using assms(2) by (auto simp: books_def)
  then have k: "keyed idem_key (idem db)" "keyed usage_bucket (usage db)" "owner_aware db"
    and bal: "usage_mset (usage db) = charged_mset (idem db)"
    by (auto simp: accounted_def)
  have "filter ?P (idem db) = [r]"
    using keyed_filter_single [OF k(1) r(1,2), of "\<lambda>q. i_status q \<in> set [Reserved]"] r(3) by simp
  then have "charged_mset (idem db) = charged_mset (idem ?db1) + {#idem_bucket r#}"
    using charged_mset_refund [of ?P "idem db"] by (auto simp: set_status_def live_def)
  then have "usage_mset (usage ?db2) = charged_mset (idem ?db2)"
    using bal by (simp add: usage_mset_uncharge [OF k(2)])
  moreover have "keyed usage_bucket (usage ?db2)"
    using k(2) by (simp add: uncharge_dec_rows keyed_dec_rows)
  moreover have "list_all plain_row (idem ?db2)"
    using plain by (simp add: set_status_def list_all_plain_update)
  ultimately have "books ?db2"
    using k by (simp add: books_def accounted_def keyed_set_status)
  moreover obtain n where "used_after_release R ?db2 r = Inr n"
    using used_after_release_ok [OF assms(1), of ?db2] k(3) by auto
  ultimately show ?thesis
    using k(2) by (simp add: release_row_def books_def accounted_def Let_def usage_mset_uncharge)
qed

lemma find_idem_SomeD:
  "find_idem R key db = Some r \<Longrightarrow> r \<in> set (idem db) \<and> idem_key r = (q_platform R, key) \<and> i_key r = key"
  unfolding find_idem_def by (auto dest!: find_SomeD simp: idem_key_def)

subsection \<open>The transactions keep the books\<close>

lemma refund_ok:
  assumes "repo_ok R" "books db"
  shows "\<exists>done db'. refund_reserved_slot R reason key db = Inr (done, db') \<and> books db'
     \<and> usage_mset (usage db') \<subseteq># usage_mset (usage db)"
proof (cases "\<exists>r. find_idem R key db = Some r \<and> i_status r = Reserved")
  case True
  then obtain r where r: "find_idem R key db = Some r" "i_status r = Reserved" by blast
  then show ?thesis
    using release_row_ok [OF assms, of r reason] find_idem_SomeD [OF r(1)]
    by (auto simp: refund_reserved_slot_def)
next
  case False
  then show ?thesis
    using assms(2) by (auto simp: refund_reserved_slot_def split: option.splits)
qed

lemma delete_refunded_books:
  assumes "books db" and "\<And>r. r \<in> set (idem db) \<Longrightarrow> idem_key r = (q_platform R, key) \<Longrightarrow> \<not> live r"
  shows "books (delete_idem R key db)"
  using assms
  by (auto simp: books_def accounted_def delete_idem_def keyed_delete charged_mset_delete
      list_all_iff)

lemma set_status_refunded:
  assumes "keyed idem_key (idem db)" "r \<in> set (idem db)" "idem_key r = (q_platform R, key)"
    "i_status r = Reserved"
    and "q \<in> set (idem (set_status R key [Reserved] Refunded db))" "idem_key q = (q_platform R, key)"
  shows "\<not> live q"
  using assms(5)
  unfolding set_status_def
  by simp (elim in_sql_updateE; use keyed_unique [OF assms(1,2)] assms in \<open>auto simp: live_def\<close>)

lemma retry_ok:
  assumes "repo_ok R" "books db"
  shows "\<exists>out db'. recover_idempotency_for_retry R key t db = Inr (out, db') \<and> books db'
     \<and> usage_mset (usage db') \<subseteq># usage_mset (usage db)"
proof (cases "find_idem R key db")
  case None
  then show ?thesis using assms(2) by (simp add: recover_idempotency_for_retry_def)
next
  case (Some r)
  note r = find_idem_SomeD [OF Some]
  have k: "keyed idem_key (idem db)" using assms(2) by (simp add: books_def accounted_def)
  show ?thesis
  proof (cases "i_status r")
    case Reserved
    obtain db1 where db1: "release_row R Stuck_Recover r db = Inr db1" "books db1"
      "idem db1 = idem (set_status R (i_key r) [Reserved] Refunded db)"
      "usage_mset (usage db1) \<subseteq># usage_mset (usage db)"
      using release_row_ok [OF assms, of r Stuck_Recover] r Reserved by auto
    have "\<not> live q" if "q \<in> set (idem db1)" "idem_key q = (q_platform R, key)" for q
      using set_status_refunded [OF k, of r R key q] r Reserved that db1(3) by simp
    then have "books (delete_idem R key db1)"
      using delete_refunded_books [OF db1(2)] by blast
    then show ?thesis
      using Some Reserved db1(1,4) assms(2)
      by (simp add: recover_idempotency_for_retry_def delete_idem_def)
  next
    case Refunded
    have "\<not> live q" if "q \<in> set (idem db)" "idem_key q = (q_platform R, key)" for q
      using keyed_unique [OF k, of r q] r that Refunded by (simp add: live_def)
    then have "books (delete_idem R key db)"
      using delete_refunded_books [OF assms(2)] by blast
    then show ?thesis using Some Refunded
      by (simp add: recover_idempotency_for_retry_def delete_idem_def)
  qed (use Some assms(2) in \<open>simp_all add: recover_idempotency_for_retry_def\<close>)
qed

text \<open>The two bulk updates of \<open>recoverAllStuckReserved\<close> before the decrements.\<close>

definition recovered_idem :: "quota_repo \<Rightarrow> millis \<Rightarrow> idem_row list \<Rightarrow> idem_row list" where
  "recovered_idem R t rs =
     sql_update (stuck_in R t Reserved) (\<lambda>r. r\<lparr>i_status := Refunded\<rparr>)
       (sql_update (stuck_in R t Delivered) (\<lambda>r. r\<lparr>i_status := Completed\<rparr>) rs)"

lemma recover_all_ok:
  assumes "repo_ok R" "books db"
  shows "\<exists>keys db'. recover_all_stuck_reserved R t db = Inr (keys, db') \<and> books db'
     \<and> idem db' = recovered_idem R t (idem db)
     \<and> usage_mset (usage db') \<subseteq># usage_mset (usage db)"
proof -
  let ?rs1 = "sql_update (stuck_in R t Delivered) (\<lambda>r. r\<lparr>i_status := Completed\<rparr>) (idem db)"
  let ?rows = "filter (stuck_in R t Reserved) ?rs1"
  let ?rs2 = "recovered_idem R t (idem db)"
  let ?db2 = "db\<lparr>idem := ?rs2\<rparr>"
  have k: "keyed idem_key (idem db)" "keyed usage_bucket (usage db)" "owner_aware db"
    and bal: "usage_mset (usage db) = charged_mset (idem db)" and plain: "list_all plain_row (idem db)"
    using assms(2) by (auto simp: books_def accounted_def)
  have plain1: "list_all plain_row ?rs1"
    using plain by (simp add: list_all_plain_update)
  have plain2: "list_all plain_row ?rs2"
    using plain1 by (simp add: recovered_idem_def list_all_plain_update)
  have keyed2: "keyed idem_key ?rs2"
    using k(1) by (simp add: recovered_idem_def keyed_update)
  have page: "page_ok R ?rows"
    using plain1 by (auto simp: page_ok_def list_all_iff stuck_in_def)
  have "charged_mset (idem db) = charged_mset ?rs1"
    by (intro charged_mset_update [symmetric]) (auto simp: live_def stuck_in_def)
  also have "\<dots> = charged_mset ?rs2 + mset (map idem_bucket ?rows)"
    unfolding recovered_idem_def by (intro charged_mset_refund) (auto simp: live_def stuck_in_def)
  finally have charged: "charged_mset (idem db) = charged_mset ?rs2 + mset (map idem_bucket ?rows)" .
  show ?thesis
  proof (cases "?rows = []")
    case True
    then have "?rs2 = ?rs1"
      by (auto simp: recovered_idem_def filter_empty_conv intro: sql_update_id)
    then have "books ?db2"
      using k keyed2 plain2 bal charged True by (simp add: books_def accounted_def)
    then show ?thesis
      using k(3) True \<open>?rs2 = ?rs1\<close> by (simp add: recover_all_stuck_reserved_def)
  next
    case False
    obtain db3 where db3: "recover_pages R Owner_Aware (chunks 1000 ?rows) ?db2 = Inr db3"
      "idem db3 = ?rs2" "owner_aware db3" "keyed usage_bucket (usage db3)"
      "usage_mset (usage db3) = usage_mset (usage db) - mset (map idem_bucket ?rows)"
      using recover_pages_ok [OF assms(1), of "chunks 1000 ?rows" ?db2] page k
      by (auto simp: concat_chunks)
    have "books db3"
      using db3 keyed2 plain2 bal charged by (simp add: books_def accounted_def)
    then show ?thesis
      using k(3) False db3(1,2,5)
      by (simp add: recover_all_stuck_reserved_def recovered_idem_def Let_def)
  qed
qed

subsection \<open>Reserve\<close>

lemma reserve_slot_denied:
  assumes "reserve_slot R now inp db = Inr (out, db')" and "\<And>n. out \<noteq> Slot_Reserved n"
  shows "db' = db"
  using assms
  by (auto simp: reserve_slot_def try_reserve_idempotency_def sql_insert_ignore_def Let_def
      split: if_splits option.splits sum.splits prod.splits)

lemma charge_usage_total:
  "repo_ok R \<Longrightarrow> \<exists>res. charge_usage R Owner_Aware inp db = Inr res"
  by (simp add: charge_usage_def charge_learner_def get_learner_usage_count_ok
      split: option.splits prod.splits)

lemma try_reserve_frame [simp]: "owner_aware (snd (try_reserve_idempotency R now inp db)) = owner_aware db"
  by (simp add: try_reserve_idempotency_def Let_def split: prod.splits)

lemma reserve_slot_total:
  assumes "repo_ok R" "owner_aware db"
  shows "\<exists>out db'. reserve_slot R now inp db = Inr (out, db')"
proof -
  obtain row db1 where tried: "try_reserve_idempotency R now inp db = (row, db1)" "owner_aware db1"
    using assms(2) try_reserve_frame by (metis prod.collapse)
  obtain res where "charge_usage R Owner_Aware inp db1 = Inr res"
    using charge_usage_total [OF assms(1)] by blast
  then show ?thesis
    using tried assms(1)
    by (auto simp: reserve_slot_def get_learner_usage_count_ok split: option.splits)
qed

definition charge_guard :: "reserve_input \<Rightarrow> usage_row \<Rightarrow> bool" where
  "charge_guard inp =
     (case ri_user inp of None \<Rightarrow> (\<lambda>u. int (u_count u) < ri_daily_limit inp) | Some _ \<Rightarrow> (\<lambda>u. True))"

lemma charge_usage_owner_aware:
  assumes "repo_ok R" "charge_usage R Owner_Aware inp db = Inr (Some (n, db'))"
  obtains rows u where
    "sql_upsert usage_bucket (new_usage_row R inp) (\<lambda>u. u\<lparr>u_count := u_count u + 1\<rparr>)
       (charge_guard inp) (usage db) = (rows, Some u)"
    "n = u_count u" "db' = db\<lparr>usage := rows\<rparr>"
    "\<And>i. ri_user inp = Some i \<Longrightarrow> int (learner_used i (ri_date inp) db) < ri_daily_limit inp"
  using assms
  by (cases "ri_user inp")
    (auto simp: charge_usage_def charge_learner_def charge_anonymous_def charge_guard_def
      get_learner_usage_count_ok reserve_query_def split: if_splits prod.splits)

text \<open>A granted reservation: one new reserved row, one charge of its bucket, both checks passed.\<close>

lemma reserve_slot_granted:
  assumes "repo_ok R" "owner_aware db" "reserve_slot R now inp db = Inr (Slot_Reserved n, db')"
  obtains rows u where
    "\<And>r. r \<in> set (idem db) \<Longrightarrow> idem_key r \<noteq> idem_key (new_idem_row R now inp)"
    "idem db' = idem db @ [new_idem_row R now inp]"
    "burst_exceeded R inp (db\<lparr>idem := idem db'\<rparr>) = None"
    "sql_upsert usage_bucket (new_usage_row R inp) (\<lambda>u. u\<lparr>u_count := u_count u + 1\<rparr>)
       (charge_guard inp) (usage db) = (rows, Some u)"
    "usage db' = rows" "owner_aware db'"
    "n = (case ri_user inp of None \<Rightarrow> u_count u | Some i \<Rightarrow> learner_used i (ri_date inp) db')"
    "\<And>i. ri_user inp = Some i \<Longrightarrow> int (learner_used i (ri_date inp) db) < ri_daily_limit inp"
proof -
  let ?row = "new_idem_row R now inp"
  let ?db1 = "db\<lparr>idem := idem db @ [?row]\<rparr>"
  have new: "\<not> list_ex (\<lambda>r. idem_key r = idem_key ?row) (idem db)"
    using assms(3) by (auto simp: reserve_slot_def try_reserve_idempotency_def sql_insert_ignore_def)
  then have tried: "try_reserve_idempotency R now inp db = (Some ?row, ?db1)"
    by (simp add: try_reserve_idempotency_def sql_insert_ignore_def Let_def)
  obtain m db2 where c: "charge_usage R Owner_Aware inp ?db1 = Inr (Some (m, db2))"
    and burst: "burst_exceeded R inp ?db1 = None"
    and n: "n = (case ri_user inp of None \<Rightarrow> m | Some i \<Rightarrow> learner_used i (ri_date inp) db2)"
    and db': "db' = emit_event R (On_Reserved (ri_ext inp) (ri_user inp) (ri_date inp)
                (ri_key inp) (ri_daily_limit inp) n) db2"
    using assms
    by (auto simp: reserve_slot_def tried get_learner_usage_count_ok reserve_query_def
        split: option.splits sum.splits)
  obtain rows u where u: "sql_upsert usage_bucket (new_usage_row R inp)
      (\<lambda>u. u\<lparr>u_count := u_count u + 1\<rparr>) (charge_guard inp) (usage db) = (rows, Some u)"
    "m = u_count u" "db2 = ?db1\<lparr>usage := rows\<rparr>"
    "\<And>i. ri_user inp = Some i \<Longrightarrow> int (learner_used i (ri_date inp) db) < ri_daily_limit inp"
    using charge_usage_owner_aware [OF assms(1) c] by (auto simp: learner_used_def)
  show ?thesis
  proof (rule that)
    show "idem_key r \<noteq> idem_key ?row" if "r \<in> set (idem db)" for r
      using new that by (auto simp: list_ex_iff)
    show "n = (case ri_user inp of None \<Rightarrow> u_count u | Some i \<Rightarrow> learner_used i (ri_date inp) db')"
      using n u(2) db' by (simp add: learner_used_def split: option.splits)
  qed (use u db' burst assms(2) in simp_all)
qed

lemma bucket_new_rows: "usage_bucket (new_usage_row R inp) = idem_bucket (new_idem_row R now inp)"
  by (simp add: usage_bucket_def idem_bucket_def new_usage_row_def new_idem_row_def)

lemma reserve_granted_books:
  assumes "repo_ok R" "books db" "plain_ids (ri_ext inp) (ri_date inp)"
    "reserve_slot R now inp db = Inr (Slot_Reserved n, db')"
  shows "books db' \<and> usage_mset (usage db') = usage_mset (usage db) + {#idem_bucket (new_idem_row R now inp)#}"
proof -
  have acc: "accounted db" "list_all plain_row (idem db)"
    using assms(2) by (simp_all add: books_def)
  then have "owner_aware db" by (simp add: accounted_def)
  then obtain rows u where g:
    "\<And>r. r \<in> set (idem db) \<Longrightarrow> idem_key r \<noteq> idem_key (new_idem_row R now inp)"
    "idem db' = idem db @ [new_idem_row R now inp]"
    "sql_upsert usage_bucket (new_usage_row R inp) (\<lambda>u. u\<lparr>u_count := u_count u + 1\<rparr>)
       (charge_guard inp) (usage db) = (rows, Some u)" "usage db' = rows" "owner_aware db'"
    using reserve_slot_granted [OF assms(1) _ assms(4)] by blast
  have keyed: "keyed idem_key (idem db')"
    using acc g(1) by (auto simp: g(2) accounted_def intro: keyed_snoc)
  have "keyed usage_bucket (fst (sql_upsert usage_bucket (new_usage_row R inp)
      (\<lambda>u. u\<lparr>u_count := u_count u + 1\<rparr>) (charge_guard inp) (usage db)))"
    using acc by (intro keyed_upsert) (auto simp: accounted_def)
  moreover have "usage_mset rows = usage_mset (usage db) + {#usage_bucket (new_usage_row R inp)#}"
    using acc g(3) by (intro usage_mset_upsert) (auto simp: accounted_def new_usage_row_def)
  moreover have "live (new_idem_row R now inp)" "plain_row (new_idem_row R now inp)"
    using assms(3) by (simp_all add: live_def new_idem_row_def plain_row_def)
  ultimately show ?thesis
    using acc g keyed by (simp add: books_def accounted_def bucket_new_rows [where now = now])
qed

lemma reserve_books:
  assumes "repo_ok R" "books db" "plain_ids (ri_ext inp) (ri_date inp)"
    "reserve_slot R now inp db = Inr (out, db')"
  shows "books db'"
  using assms reserve_granted_books [OF assms(1-3)] reserve_slot_denied [OF assms(4)]
  by (cases out) auto

section \<open>Sequences of transactions\<close>

datatype quota_op =
    Op_Reserve millis reserve_input
  | Op_Refund release_reason string
  | Op_Deliver string
  | Op_Complete string
  | Op_Retry string millis
  | Op_Recover_All millis
  | Op_Links "(string \<times> ext_id \<times> user_id) list"

definition committed :: "quota_db \<Rightarrow> quota_error + ('a \<times> quota_db) \<Rightarrow> quota_db" where
  "committed db res = (case res of Inl _ \<Rightarrow> db | Inr (_, db') \<Rightarrow> db')"

fun quota_exec :: "quota_repo \<times> quota_op \<Rightarrow> quota_db \<Rightarrow> quota_db" where
  "quota_exec (R, Op_Reserve now inp) db = committed db (reserve_slot R now inp db)"
| "quota_exec (R, Op_Refund reason key) db = committed db (refund_reserved_slot R reason key db)"
| "quota_exec (R, Op_Deliver key) db = snd (mark_delivered_slot R key db)"
| "quota_exec (R, Op_Complete key) db = snd (complete_reserved_slot R key db)"
| "quota_exec (R, Op_Retry key t) db = committed db (recover_idempotency_for_retry R key t db)"
| "quota_exec (R, Op_Recover_All t) db = committed db (recover_all_stuck_reserved R t db)"
| "quota_exec (R, Op_Links ls) db = db\<lparr>active_links := ls\<rparr>"

definition quota_run :: "(quota_repo \<times> quota_op) list \<Rightarrow> quota_db \<Rightarrow> quota_db" where
  "quota_run ops db = fold quota_exec ops db"

definition empty_quota_db :: quota_db where
  "empty_quota_db = \<lparr>idem = [], usage = [], active_links = [], legacy_index = False,
     linked_index = True, anonymous_index = True, quota_events = []\<rparr>"

text \<open>The operations a deployment issues: the wired learner query, identifiers in the form the
  platforms use, and a daily limit of at most \<open>L\<close>.\<close>

fun valid_op :: "int \<Rightarrow> quota_repo \<times> quota_op \<Rightarrow> bool" where
  "valid_op L (R, Op_Reserve now inp) \<longleftrightarrow>
     repo_ok R \<and> plain_ids (ri_ext inp) (ri_date inp) \<and> ri_daily_limit inp \<le> L"
| "valid_op L (R, _) \<longleftrightarrow> repo_ok R"

lemma exec_books:
  assumes "valid_op L (R, opn)" "books db"
  shows "books (quota_exec (R, opn) db)"
proof (cases opn)
  case (Op_Reserve now inp)
  then show ?thesis
    using assms reserve_books [of R db inp now]
    by (auto simp: committed_def split: sum.splits)
next
  case (Op_Refund reason key)
  then show ?thesis using assms refund_ok [of R db reason key] by (auto simp: committed_def)
next
  case (Op_Deliver key)
  then show ?thesis using assms by (simp add: mark_delivered_slot_def set_status_books)
next
  case (Op_Complete key)
  then show ?thesis using assms by (simp add: complete_reserved_slot_def set_status_books)
next
  case (Op_Retry key t)
  then show ?thesis using assms retry_ok [of R db key t] by (auto simp: committed_def)
next
  case (Op_Recover_All t)
  then show ?thesis using assms recover_all_ok [of R db t] by (auto simp: committed_def)
next
  case (Op_Links ls)
  then show ?thesis using assms by (simp add: books_def accounted_def)
qed

lemma run_books: "list_all (valid_op L) ops \<Longrightarrow> books db \<Longrightarrow> books (quota_run ops db)"
  unfolding quota_run_def by (induction ops arbitrary: db) (auto simp: exec_books)

lemma books_empty [simp]: "books empty_quota_db"
  by (simp add: books_def accounted_def empty_quota_db_def owner_aware_def)


section \<open>Daily caps\<close>

definition of_learner :: "user_id \<Rightarrow> date_str \<Rightarrow> bucket \<Rightarrow> bool" where
  "of_learner i d b \<longleftrightarrow> fst (snd (snd b)) = d \<and> snd (snd (snd b)) = Some i"

definition capped :: "int \<Rightarrow> bucket multiset \<Rightarrow> bool" where
  "capped L M \<longleftrightarrow> (\<forall>i d. int (size (filter_mset (of_learner i d) M)) \<le> max 0 L)
     \<and> (\<forall>p e d. int (count M (p, e, d, None)) \<le> max 1 L)"

lemma capped_mono:
  assumes "capped L M" "N \<subseteq># M"
  shows "capped L N"
proof -
  have "size (filter_mset P N) \<le> size (filter_mset P M)" for P
    using assms(2) by (simp add: multiset_filter_mono size_mset_mono)
  moreover have "count N b \<le> count M b" for b
    using assms(2) by (simp add: mset_subset_eq_count)
  ultimately show ?thesis
    using assms(1) unfolding capped_def by (meson of_nat_le_iff order_trans)
qed

lemma learner_used_size:
  "learner_used i d db = size (filter_mset (of_learner i d) (usage_mset (usage db)))"
  by (simp add: learner_used_def size_filter_usage_mset of_learner_def usage_bucket_def)

lemma count_usage_found:
  "keyed usage_bucket us \<Longrightarrow>
   count (usage_mset us) b = (case find (\<lambda>u. usage_bucket u = b) us of None \<Rightarrow> 0 | Some u \<Rightarrow> u_count u)"
  unfolding count_usage_mset
  by (induction us) (auto simp: keyed_Cons sql_sum_def filter_empty_conv)

lemma anonymous_charge_guarded:
  assumes "keyed usage_bucket us" "ri_user inp = None"
    "sql_upsert usage_bucket new upd (charge_guard inp) us = (rows, Some u)"
  shows "int (count (usage_mset us) (usage_bucket new)) + 1 \<le> max 1 (ri_daily_limit inp)"
  using assms
  by (auto simp: count_usage_found sql_upsert_def charge_guard_def split: option.splits if_splits)

lemma reserve_capped:
  assumes "repo_ok R" "books db" "plain_ids (ri_ext inp) (ri_date inp)" "ri_daily_limit inp \<le> L"
    "reserve_slot R now inp db = Inr (Slot_Reserved n, db')" "capped L (usage_mset (usage db))"
  shows "capped L (usage_mset (usage db'))"
proof -
  let ?b = "idem_bucket (new_idem_row R now inp)"
  let ?M = "usage_mset (usage db)"
  have own: "owner_aware db" and keyed: "keyed usage_bucket (usage db)"
    using assms(2) by (auto simp: books_def accounted_def)
  have M': "usage_mset (usage db') = ?M + {#?b#}"
    using reserve_granted_books [OF assms(1-3,5)] by simp
  have b: "?b = (q_platform R, ri_ext inp, ri_date inp, ri_user inp)"
    by (simp add: idem_bucket_def new_idem_row_def)
  obtain rows u where up: "sql_upsert usage_bucket (new_usage_row R inp)
      (\<lambda>u. u\<lparr>u_count := u_count u + 1\<rparr>) (charge_guard inp) (usage db) = (rows, Some u)"
    and lim: "\<And>i. ri_user inp = Some i \<Longrightarrow> int (learner_used i (ri_date inp) db) < ri_daily_limit inp"
    using reserve_slot_granted [OF assms(1) own assms(5)] by blast
  have "int (size (filter_mset (of_learner i d) (?M + {#?b#}))) \<le> max 0 L" for i d
    using assms(4,6) lim [of i] by (auto simp: capped_def b of_learner_def learner_used_size)
  moreover have "int (count (?M + {#?b#}) (p, e, d, None)) \<le> max 1 L" for p e d
  proof (cases "?b = (p, e, d, None)")
    case True
    then have "int (count ?M (p, e, d, None)) + 1 \<le> max 1 (ri_daily_limit inp)"
      using anonymous_charge_guarded [OF keyed _ up] by (simp add: b bucket_new_rows [where now = now])
    with True assms(4) show ?thesis by simp
  next
    case False
    then show ?thesis using assms(6) by (simp add: capped_def)
  qed
  ultimately show ?thesis by (simp add: M' capped_def)
qed

lemma exec_capped:
  assumes "valid_op L (R, opn)" "books db" "capped L (usage_mset (usage db))"
  shows "capped L (usage_mset (usage (quota_exec (R, opn) db)))"
proof (cases opn)
  case (Op_Reserve now inp)
  show ?thesis
  proof (cases "\<exists>n db'. reserve_slot R now inp db = Inr (Slot_Reserved n, db')")
    case True
    then show ?thesis
      using assms Op_Reserve reserve_capped [of R db inp L now] by (auto simp: committed_def)
  next
    case False
    then have "quota_exec (R, opn) db = db"
      using reserve_slot_denied [of R now inp db] Op_Reserve
      by (auto simp: committed_def split: sum.splits)
    then show ?thesis using assms(3) by simp
  qed
next
  case (Op_Refund reason key)
  then show ?thesis
    using assms refund_ok [of R db reason key] by (auto simp: committed_def intro: capped_mono)
next
  case (Op_Retry key t)
  then show ?thesis
    using assms retry_ok [of R db key t] by (auto simp: committed_def intro: capped_mono)
next
  case (Op_Recover_All t)
  then show ?thesis
    using assms recover_all_ok [of R db t] by (auto simp: committed_def intro: capped_mono)
qed (use assms in \<open>simp_all add: mark_delivered_slot_def complete_reserved_slot_def\<close>)

lemma run_capped:
  assumes "list_all (valid_op L) ops" "books db" "capped L (usage_mset (usage db))"
  shows "capped L (usage_mset (usage (quota_run ops db)))"
  using assms unfolding quota_run_def
proof (induction ops arbitrary: db)
  case (Cons ro ops)
  then show ?case
    using exec_books [of L "fst ro" "snd ro" db] exec_capped [of L "fst ro" "snd ro" db] by simp
qed simp

section \<open>Properties of the quota repository\<close>

text \<open>A repository as the bots wire it, and a reservation on it, for the examples.\<close>

definition zalo_repo :: quota_repo where
  "zalo_repo = wired_repo ''zalo''"

definition sample_reserve :: "ext_id \<Rightarrow> user_id option \<Rightarrow> string \<Rightarrow> reserve_input" where
  "sample_reserve e u k = \<lparr>ri_ext = e, ri_user = u, ri_date = ''2026-05-04'', ri_key = k,
     ri_daily_limit = 2, ri_burst_limit = Some 2, ri_burst_since = Some 0,
     ri_counts_refunded = True\<rparr>"

lemma repo_ok_wired [simp]: "repo_ok (wired_repo p)"
  by (simp add: repo_ok_iff wired_repo_def)

lemma repo_ok_zalo [simp]: "repo_ok zalo_repo"
  by (simp add: zalo_repo_def)

definition sample_ops :: "(quota_repo \<times> quota_op) list" where
  "sample_ops =
     [(zalo_repo, Op_Reserve 10 (sample_reserve ''u1'' (Some 7) ''k1'')),
      (zalo_repo, Op_Reserve 20 (sample_reserve ''u2'' None ''k2'')),
      (zalo_repo, Op_Deliver ''k1''),
      (zalo_repo, Op_Recover_All 15),
      (zalo_repo, Op_Refund Send_Failed ''k2'')]"

lemma valid_sample_ops: "list_all (valid_op 2) sample_ops"
  by (simp add: sample_ops_def sample_reserve_def plain_ids_def)

text \<open>C6: Quota accounting is exact. Whatever sequence of reserve, refund, mark-delivered,
  complete, retry-recovery, bulk-recovery and account-link changes the bots run from the empty
  owner-aware tables, the free-form counters of \<open>chat_daily_usage\<close> hold, bucket by bucket,
  exactly one unit per idempotency row that is reserved, delivered or completed: no slot is lost
  and none is returned twice.\<close>

theorem quota_slots_balanced:
  assumes "list_all (valid_op L) ops"
  shows "usage_mset (usage (quota_run ops empty_quota_db)) = charged_mset (idem (quota_run ops empty_quota_db))"
  using run_books [OF assms books_empty] by (simp add: books_def accounted_def)

theorem quota_slots_balanced_witness:
  "list_all (valid_op 2) sample_ops \<and>
   usage_mset (usage (quota_run sample_ops empty_quota_db))
   = charged_mset (idem (quota_run sample_ops empty_quota_db))"
  using quota_slots_balanced [OF valid_sample_ops] valid_sample_ops by simp

lemma capped_empty: "capped L (usage_mset (usage empty_quota_db))"
  by (simp add: capped_def empty_quota_db_def)

lemma run_charged_capped:
  assumes "list_all (valid_op L) ops"
  shows "capped L (charged_mset (idem (quota_run ops empty_quota_db)))"
  using run_capped [OF assms books_empty capped_empty] run_books [OF assms books_empty]
  by (simp add: books_def accounted_def)

text \<open>C9: The learner cap holds across channels and platforms. In every reachable state the
  idempotency rows charged to one learner on one date (reserved, delivered or completed, on any
  platform and any channel) number at most the largest daily limit any reservation used.\<close>

theorem learner_daily_cap:
  assumes "list_all (valid_op L) ops"
  shows "int (sql_count (\<lambda>r. live r \<and> i_date r = d \<and> i_user r = Some i)
           (idem (quota_run ops empty_quota_db))) \<le> max 0 L"
proof -
  let ?rs = "idem (quota_run ops empty_quota_db)"
  have "sql_count (\<lambda>r. live r \<and> i_date r = d \<and> i_user r = Some i) ?rs
      = size (filter_mset (of_learner i d) (charged_mset ?rs))"
    by (simp add: size_filter_charged_mset of_learner_def idem_bucket_def)
  then show ?thesis using run_charged_capped [OF assms] by (simp add: capped_def)
qed

theorem learner_daily_cap_witness:
  "list_all (valid_op 2) sample_ops \<and>
   int (sql_count (\<lambda>r. live r \<and> i_date r = ''2026-05-04'' \<and> i_user r = Some 7)
     (idem (quota_run sample_ops empty_quota_db))) \<le> max 0 2"
  using learner_daily_cap [OF valid_sample_ops, of "''2026-05-04''" 7] valid_sample_ops by simp

text \<open>C24: The anonymous cap holds per channel. The rows charged to a channel with no learner on
  one date number at most the daily limit, and at most one when the limit is not positive: the
  \<open>INSERT\<close> arm of the upsert is not guarded by the limit.\<close>

theorem anonymous_daily_cap:
  assumes "list_all (valid_op L) ops"
  shows "int (sql_count (\<lambda>r. live r \<and> idem_bucket r = (p, e, d, None))
           (idem (quota_run ops empty_quota_db))) \<le> max 1 L"
  using run_charged_capped [OF assms] by (simp add: capped_def count_charged_mset)

theorem anonymous_daily_cap_witness:
  "list_all (valid_op 2) sample_ops \<and>
   int (sql_count (\<lambda>r. live r \<and> idem_bucket r = (''zalo'', ''u2'', ''2026-05-04'', None))
     (idem (quota_run sample_ops empty_quota_db))) \<le> max 1 2"
  using anonymous_daily_cap [OF valid_sample_ops, of "''zalo''" "''u2''" "''2026-05-04''"]
    valid_sample_ops by simp

lemma reserve_outcome_books:
  assumes "repo_ok R" "books db" "plain_ids (ri_ext inp) (ri_date inp)"
  shows "\<exists>out db'. reserve_slot R now inp db = Inr (out, db') \<and>
    (case out of
       Slot_Reserved n \<Rightarrow>
         idem db' = idem db @ [new_idem_row R now inp]
         \<and> usage_mset (usage db') = usage_mset (usage db) + {#idem_bucket (new_idem_row R now inp)#}
         \<and> books db'
         \<and> (\<forall>i. ri_user inp = Some i \<longrightarrow> n = learner_used i (ri_date inp) db + 1)
     | _ \<Rightarrow> db' = db)"
proof -
  have own: "owner_aware db" using assms(2) by (simp add: books_def accounted_def)
  obtain out db' where res: "reserve_slot R now inp db = Inr (out, db')"
    using reserve_slot_total [OF assms(1) own] by blast
  show ?thesis
  proof (cases out)
    case (Slot_Reserved n)
    note g = reserve_granted_books [OF assms res [unfolded Slot_Reserved]]
    have "n = learner_used i (ri_date inp) db + 1" if "ri_user inp = Some i" for i
    proof -
      have "n = learner_used i (ri_date inp) db'"
        using reserve_slot_granted [OF assms(1) own res [unfolded Slot_Reserved]] that by auto
      then show ?thesis
        using g that by (simp add: learner_used_size of_learner_def idem_bucket_def new_idem_row_def)
    qed
    moreover have "idem db' = idem db @ [new_idem_row R now inp]"
      using reserve_slot_granted [OF assms(1) own res [unfolded Slot_Reserved]] by blast
    ultimately show ?thesis using res Slot_Reserved g by simp
  qed (use res reserve_slot_denied [OF res] in auto)
qed

text \<open>C22: A reservation is all or nothing. On books that balance the reserve transaction never
  throws; a conflict, a daily or a burst denial leaves the whole database as it was, and a grant
  adds exactly one reserved row, charges exactly its bucket once, and reports the usage of the
  bucket owner after the charge.\<close>

theorem reserve_all_or_nothing:
  assumes "repo_ok R" "books db" "plain_ids (ri_ext inp) (ri_date inp)"
  shows "\<exists>out db'. reserve_slot R now inp db = Inr (out, db') \<and>
    (case out of
       Slot_Reserved n \<Rightarrow>
         idem db' = idem db @ [new_idem_row R now inp]
         \<and> usage_mset (usage db') = usage_mset (usage db) + {#idem_bucket (new_idem_row R now inp)#}
         \<and> books db'
         \<and> (\<forall>i. ri_user inp = Some i \<longrightarrow> n = learner_used i (ri_date inp) db + 1)
     | _ \<Rightarrow> db' = db)"
  using reserve_outcome_books [OF assms] .

theorem reserve_all_or_nothing_witness:
  "\<exists>out db'. reserve_slot zalo_repo 5 (sample_reserve ''u1'' (Some 7) ''k1'') empty_quota_db = Inr (out, db') \<and>
    (case out of
       Slot_Reserved n \<Rightarrow>
         idem db' = idem empty_quota_db @ [new_idem_row zalo_repo 5 (sample_reserve ''u1'' (Some 7) ''k1'')]
         \<and> usage_mset (usage db') = usage_mset (usage empty_quota_db)
             + {#idem_bucket (new_idem_row zalo_repo 5 (sample_reserve ''u1'' (Some 7) ''k1''))#}
         \<and> books db'
         \<and> (\<forall>i. ri_user (sample_reserve ''u1'' (Some 7) ''k1'') = Some i \<longrightarrow>
               n = learner_used i (ri_date (sample_reserve ''u1'' (Some 7) ''k1'')) empty_quota_db + 1)
     | _ \<Rightarrow> db' = empty_quota_db)"
  by (rule reserve_all_or_nothing) (simp_all add: sample_reserve_def plain_ids_def)

text \<open>The durable burst window is enforced by the reserving transaction itself: when a
  reservation with a burst limit is granted, the reservations of that channel inside the window,
  the new one included, number at most the limit.\<close>

theorem burst_cap_after_reserve:
  assumes "repo_ok R" "owner_aware db" "reserve_slot R now inp db = Inr (Slot_Reserved n, db')"
    and "ri_burst_limit inp = Some lim" "ri_burst_since inp = Some since"
  shows "int (burst_count R (ri_ext inp) since (ri_counts_refunded inp) db') \<le> lim"
proof -
  have "burst_exceeded R inp (db\<lparr>idem := idem db'\<rparr>) = None"
    using reserve_slot_granted [OF assms(1-3)] by blast
  then show ?thesis
    using assms(4,5) by (simp add: burst_exceeded_def burst_count_def Let_def split: if_splits)
qed

definition sample_reserved_db :: quota_db where
  "sample_reserved_db = committed empty_quota_db
     (reserve_slot zalo_repo 5 (sample_reserve ''u1'' (Some 7) ''k1'') empty_quota_db)"

lemma sample_reserve_grants:
  "reserve_slot zalo_repo 5 (sample_reserve ''u1'' (Some 7) ''k1'') empty_quota_db
   = Inr (Slot_Reserved 1, sample_reserved_db)"
  by (simp add: sample_reserved_db_def committed_def) code_simp

theorem burst_cap_after_reserve_witness:
  "int (burst_count zalo_repo ''u1'' 0 True sample_reserved_db) \<le> 2"
  using burst_cap_after_reserve [OF repo_ok_zalo _ sample_reserve_grants, of 2 0]
  by (simp add: empty_quota_db_def owner_aware_def sample_reserve_def)

lemma refund_outcome:
  assumes "repo_ok R" "books db"
  shows "case find_idem R key db of
      Some r \<Rightarrow>
        if i_status r = Reserved then
          \<exists>db'. refund_reserved_slot R reason key db = Inr (True, db') \<and> books db'
            \<and> usage_mset (usage db') = usage_mset (usage db) - {#idem_bucket r#}
            \<and> find_idem R key db' = Some (r\<lparr>i_status := Refunded\<rparr>)
            \<and> refund_reserved_slot R reason' key db' = Inr (False, db')
        else refund_reserved_slot R reason key db = Inr (False, db)
    | None \<Rightarrow> refund_reserved_slot R reason key db = Inr (False, db)"
proof (cases "find_idem R key db")
  case (Some r)
  note r = find_idem_SomeD [OF Some]
  show ?thesis
  proof (cases "i_status r = Reserved")
    case True
    obtain db' where db': "release_row R reason r db = Inr db'" "books db'"
      "idem db' = idem (set_status R key [Reserved] Refunded db)"
      "usage_mset (usage db') = usage_mset (usage db) - {#idem_bucket r#}"
      using release_row_ok [OF assms, of r reason] r True by auto
    have k: "keyed idem_key (idem db')" using db'(2) by (simp add: books_def accounted_def)
    have "r\<lparr>i_status := Refunded\<rparr> \<in> set (idem db')"
      using r True by (force simp: db'(3) set_status_def set_sql_update)
    then have "find_idem R key db' = Some (r\<lparr>i_status := Refunded\<rparr>)"
      using r by (simp add: find_idem_def find_keyed [OF k])
    then show ?thesis using Some True db' by (simp add: refund_reserved_slot_def)
  qed (use Some in \<open>simp add: refund_reserved_slot_def\<close>)
qed (simp add: refund_reserved_slot_def)

text \<open>A refund happens at most once and only for a slot that is still reserved. It
  succeeds exactly when the key's row is reserved; then the row becomes refunded, its bucket
  loses one unit, and a second refund of the same key reports \<open>false\<close> and changes nothing.
  A delivered, completed, refunded or unknown key is left alone.\<close>

theorem refund_at_most_once:
  assumes "repo_ok R" "books db"
  shows "case find_idem R key db of
      Some r \<Rightarrow>
        if i_status r = Reserved then
          \<exists>db'. refund_reserved_slot R reason key db = Inr (True, db') \<and> books db'
            \<and> usage_mset (usage db') = usage_mset (usage db) - {#idem_bucket r#}
            \<and> find_idem R key db' = Some (r\<lparr>i_status := Refunded\<rparr>)
            \<and> refund_reserved_slot R reason' key db' = Inr (False, db')
        else refund_reserved_slot R reason key db = Inr (False, db)
    | None \<Rightarrow> refund_reserved_slot R reason key db = Inr (False, db)"
  using refund_outcome [OF assms] .

lemma books_sample_reserved: "books sample_reserved_db"
  by (rule reserve_books [OF repo_ok_zalo books_empty _ sample_reserve_grants])
    (simp add: sample_reserve_def plain_ids_def)

theorem refund_at_most_once_witness:
  "\<exists>r. find_idem zalo_repo ''k1'' sample_reserved_db = Some r \<and>
     (\<exists>db'. refund_reserved_slot zalo_repo Send_Failed ''k1'' sample_reserved_db = Inr (True, db')
        \<and> refund_reserved_slot zalo_repo Send_Failed ''k1'' db' = Inr (False, db'))"
proof -
  have "find_idem zalo_repo ''k1'' sample_reserved_db
      = Some (new_idem_row zalo_repo 5 (sample_reserve ''u1'' (Some 7) ''k1''))"
    by code_simp
  then show ?thesis
    using refund_at_most_once [OF repo_ok_zalo books_sample_reserved, where key = "''k1''" and reason = Send_Failed and reason' = Send_Failed]
    by (auto simp: new_idem_row_def)
qed

text \<open>C25: Bulk recovery clears every stuck slot and touches no other. Afterwards no row of the
  platform older than the cutoff is reserved or delivered; a stuck reserved row is refunded, a
  stuck delivered row is completed, every other row is unchanged, and the books balance. The
  transaction does not throw, whatever the number of pages.\<close>

theorem recover_all_clears_stuck:
  assumes "repo_ok R" "books db"
  shows "\<exists>keys db'. recover_all_stuck_reserved R t db = Inr (keys, db') \<and> books db' \<and>
    idem db' = map (\<lambda>r. if stuck_in R t Delivered r then r\<lparr>i_status := Completed\<rparr>
                        else if stuck_in R t Reserved r then r\<lparr>i_status := Refunded\<rparr>
                        else r) (idem db) \<and>
    list_all (\<lambda>r. \<not> stuck_in R t Reserved r \<and> \<not> stuck_in R t Delivered r) (idem db')"
proof -
  have "recovered_idem R t rs = map (\<lambda>r. if stuck_in R t Delivered r then r\<lparr>i_status := Completed\<rparr>
      else if stuck_in R t Reserved r then r\<lparr>i_status := Refunded\<rparr> else r) rs" for rs
    by (induction rs) (auto simp: recovered_idem_def stuck_in_def)
  then show ?thesis
    using recover_all_ok [OF assms, of t] by (auto simp: list_all_iff stuck_in_def)
qed

theorem recover_all_clears_stuck_witness:
  "\<exists>keys db'. recover_all_stuck_reserved zalo_repo 9 sample_reserved_db = Inr (keys, db') \<and>
    list_all (\<lambda>r. \<not> stuck_in zalo_repo 9 Reserved r \<and> \<not> stuck_in zalo_repo 9 Delivered r) (idem db')"
  using recover_all_clears_stuck [OF repo_ok_zalo books_sample_reserved, of 9] by blast

definition colon_db :: quota_db where
  "colon_db = committed empty_quota_db
     (reserve_slot zalo_repo 5 (sample_reserve ''a:b'' None ''k1'') empty_quota_db)"

text \<open>Bulk recovery relies on channel ids without a colon. With the id \<open>a:b\<close> the composite
  map key splits into more parts than the code reads, the decrement addresses channel \<open>a\<close>,
  and the slot of the refunded row stays charged.\<close>

theorem recover_all_colon_leak:
  "case recover_all_stuck_reserved zalo_repo 9 colon_db of
     Inr (keys, db') \<Rightarrow> keys = [''k1''] \<and> map i_status (idem db') = [Refunded]
       \<and> map u_count (usage db') = [1]
   | Inl _ \<Rightarrow> False"
  by code_simp

end
