(* ===== verification/Burst_Counter.thy ===== *)
theory Burst_Counter
  imports Chat_Quota_Books
begin

text \<open>
  The advisory burst counters of \<open>packages/chat-metering/src/chat-rate-limit\<close>: the port
  \<open>BurstCounterPort\<close> as the locale \<open>burst_port\<close>, its PostgreSQL implementation
  (\<open>postgres-burst-counter.ts\<close>), its Redis implementation (\<open>redis-burst-counter.ts\<close>,
  the two Lua scripts included) and the consistency audit (\<open>redis-burst-reconciler.ts\<close>).

  Redis is a map from keys to an integer with an expiry instant; a key is visible until it
  expires. The client may be absent, and a call may fail (\<open>rd_fails\<close>), in which case the
  code falls back as its \<open>catch\<close> branches say.
\<close>

section \<open>The port\<close>

definition burst_window_ms :: int where
  "burst_window_ms = 60000"

text \<open>With a positive limit a counter never moves on a rejected attempt, and releasing an admitted attempt puts the
  channel's count back: the two promises of the interface comment.\<close>

locale burst_port =
  fixes cnt :: "millis \<Rightarrow> ext_id \<Rightarrow> quota_db \<Rightarrow> 'b \<Rightarrow> nat"
    and tryb :: "millis \<Rightarrow> ext_id \<Rightarrow> int \<Rightarrow> quota_db \<Rightarrow> 'b \<Rightarrow> (bool \<times> nat) \<times> 'b"
    and rel :: "millis \<Rightarrow> ext_id \<Rightarrow> 'b \<Rightarrow> 'b"
    and ok :: "'b \<Rightarrow> bool"
  assumes tryb_ok: "ok b \<Longrightarrow> 0 < lim \<Longrightarrow> ok (snd (tryb t e lim db b))"
    and rel_ok: "ok b \<Longrightarrow> ok (rel t e b)"
    and reject_keeps: "ok b \<Longrightarrow> 0 < lim \<Longrightarrow> tryb t e lim db b = ((False, n), b') \<Longrightarrow> cnt t e db' b' = cnt t e db' b"
    and release_undoes: "ok b \<Longrightarrow> 0 < lim \<Longrightarrow> tryb t e lim db b = ((True, n), b') \<Longrightarrow>
      cnt t e db' (rel t e b') = cnt t e db' b"

section \<open>PostgreSQL counter\<close>

definition pg_burst_count :: "quota_repo \<Rightarrow> bool \<Rightarrow> millis \<Rightarrow> ext_id \<Rightarrow> quota_db \<Rightarrow> unit \<Rightarrow> nat" where
  "pg_burst_count R incl now e db b = count_recent_reservations R e (now - burst_window_ms) incl db"

definition pg_try_burst ::
    "quota_repo \<Rightarrow> bool \<Rightarrow> millis \<Rightarrow> ext_id \<Rightarrow> int \<Rightarrow> quota_db \<Rightarrow> unit \<Rightarrow> (bool \<times> nat) \<times> unit" where
  "pg_try_burst R incl now e lim db b =
     (let c = pg_burst_count R incl now e db b in ((int c < lim, c), b))"

definition pg_release_burst :: "millis \<Rightarrow> ext_id \<Rightarrow> unit \<Rightarrow> unit" where
  "pg_release_burst now e b = b"

interpretation pgb: burst_port "pg_burst_count R incl" "pg_try_burst R incl" pg_release_burst "\<lambda>_. True"
  by unfold_locales (simp_all add: pg_try_burst_def pg_release_burst_def Let_def)

section \<open>Redis counter\<close>

type_synonym redis_store = "string \<Rightarrow> (int \<times> millis option) option"

record redis =
  rd_client :: bool
  rd_fails :: bool
  rd_platform :: string
  rd_legacy :: bool
  rd_store :: redis_store

definition redis_get :: "millis \<Rightarrow> redis_store \<Rightarrow> string \<Rightarrow> (int \<times> millis option) option" where
  "redis_get now st k =
     (case st k of
        None \<Rightarrow> None
      | Some (v, ex) \<Rightarrow> (case ex of Some x \<Rightarrow> if x \<le> now then None else Some (v, ex) | None \<Rightarrow> Some (v, ex)))"

definition burst_key :: "string \<Rightarrow> ext_id \<Rightarrow> int \<Rightarrow> string" where
  "burst_key p e bucket = js_join '':'' [''burst'', p, e, int_str bucket]"

definition legacy_burst_key :: "ext_id \<Rightarrow> int \<Rightarrow> string" where
  "legacy_burst_key e bucket = js_join '':'' [''burst'', e, int_str bucket]"

definition current_bucket :: "millis \<Rightarrow> int" where
  "current_bucket now = now div burst_window_ms"

definition burst_ttl_ms :: int where
  "burst_ttl_ms = 120000"

definition safe_count :: "int \<Rightarrow> nat" where
  "safe_count v = nat v"

definition redis_burst_count :: "millis \<Rightarrow> ext_id \<Rightarrow> quota_db \<Rightarrow> redis \<Rightarrow> nat" where
  "redis_burst_count now e db r =
     (if \<not> rd_client r \<or> rd_fails r then 0
      else
        (case redis_get now (rd_store r) (burst_key (rd_platform r) e (current_bucket now)) of
           Some (v, _) \<Rightarrow> safe_count v
         | None \<Rightarrow>
             if rd_legacy r then
               (case redis_get now (rd_store r) (legacy_burst_key e (current_bucket now)) of
                  Some (v, _) \<Rightarrow> safe_count v
                | None \<Rightarrow> 0)
             else 0))"

text \<open>The reserve script: migrate a legacy key, increment, set the expiry of a fresh counter,
  and take the increment back when the limit is passed.\<close>

definition lua_migrate :: "millis \<Rightarrow> string \<Rightarrow> string \<Rightarrow> redis_store \<Rightarrow> redis_store" where
  "lua_migrate now key legacy st =
     (if key \<noteq> legacy \<and> redis_get now st key = None then
        (case redis_get now st legacy of
           None \<Rightarrow> st
         | Some (v, ex) \<Rightarrow>
             st(key := Some (v, (case ex of Some x \<Rightarrow> Some x | None \<Rightarrow> Some (now + burst_ttl_ms))),
                legacy := None))
      else st)"

definition lua_incr :: "millis \<Rightarrow> string \<Rightarrow> redis_store \<Rightarrow> int \<times> redis_store" where
  "lua_incr now key st =
     (case redis_get now st key of
        None \<Rightarrow> (1, st(key := Some (1, None)))
      | Some (v, ex) \<Rightarrow> (v + 1, st(key := Some (v + 1, ex))))"

definition lua_expire :: "millis \<Rightarrow> string \<Rightarrow> redis_store \<Rightarrow> redis_store" where
  "lua_expire now key st =
     (case st key of None \<Rightarrow> st | Some (v, _) \<Rightarrow> st(key := Some (v, Some (now + burst_ttl_ms))))"

definition lua_decr :: "millis \<Rightarrow> string \<Rightarrow> redis_store \<Rightarrow> int \<times> redis_store" where
  "lua_decr now key st =
     (case redis_get now st key of
        None \<Rightarrow> (- 1, st(key := Some (- 1, None)))
      | Some (v, ex) \<Rightarrow> (v - 1, st(key := Some (v - 1, ex))))"

definition lua_try_reserve ::
    "millis \<Rightarrow> string \<Rightarrow> string \<Rightarrow> int \<Rightarrow> redis_store \<Rightarrow> (bool \<times> int) \<times> redis_store" where
  "lua_try_reserve now key legacy lim st =
     (let (c, st1) = lua_incr now key (lua_migrate now key legacy st);
          st2 = (if c = 1 then lua_expire now key st1 else st1)
      in if c > lim then ((False, c - 1), snd (lua_decr now key st2)) else ((True, c), st2))"

definition redis_try_burst ::
    "millis \<Rightarrow> ext_id \<Rightarrow> int \<Rightarrow> quota_db \<Rightarrow> redis \<Rightarrow> (bool \<times> nat) \<times> redis" where
  "redis_try_burst now e lim db r =
     (if \<not> rd_client r \<or> rd_fails r then ((True, 0), r)
      else
        let key = burst_key (rd_platform r) e (current_bucket now);
            legacy = (if rd_legacy r then legacy_burst_key e (current_bucket now) else key);
            ((a, c), st) = lua_try_reserve now key legacy lim (rd_store r)
        in ((a, nat c), r\<lparr>rd_store := st\<rparr>))"

definition lua_release :: "millis \<Rightarrow> string \<Rightarrow> redis_store \<Rightarrow> redis_store" where
  "lua_release now key st =
     (let (left, st1) = lua_decr now key st in if left \<le> 0 then st1(key := None) else st1)"

definition redis_release_burst :: "millis \<Rightarrow> ext_id \<Rightarrow> redis \<Rightarrow> redis" where
  "redis_release_burst now e r =
     (if \<not> rd_client r \<or> rd_fails r then r
      else r\<lparr>rd_store := lua_release now (burst_key (rd_platform r) e (current_bucket now)) (rd_store r)\<rparr>)"

subsection \<open>The scripts on one key\<close>

definition all_positive :: "redis_store \<Rightarrow> bool" where
  "all_positive st \<longleftrightarrow> (\<forall>k v ex. st k = Some (v, ex) \<longrightarrow> 0 < v)"

definition redis_ok :: "redis \<Rightarrow> bool" where
  "redis_ok r \<longleftrightarrow> all_positive (rd_store r)"

lemmas lua_defs = lua_migrate_def lua_incr_def lua_expire_def lua_decr_def lua_try_reserve_def
  lua_release_def Let_def

text \<open>What a reader of the counter sees: the key, or the legacy key while it is not migrated.\<close>

definition seen :: "millis \<Rightarrow> string \<Rightarrow> string \<Rightarrow> redis_store \<Rightarrow> int" where
  "seen now key legacy st =
     (case redis_get now st key of
        Some (v, _) \<Rightarrow> v
      | None \<Rightarrow> (case redis_get now st legacy of Some (v, _) \<Rightarrow> v | None \<Rightarrow> 0))"

definition unexpired :: "millis \<Rightarrow> millis option \<Rightarrow> bool" where
  "unexpired now ex \<longleftrightarrow> (case ex of None \<Rightarrow> True | Some x \<Rightarrow> now < x)"

lemma unexpired_simps [simp]: "unexpired now None" "unexpired now (Some (now + burst_ttl_ms))"
  by (simp_all add: unexpired_def burst_ttl_ms_def)

lemma redis_get_iff: "redis_get now st k = Some (v, ex) \<longleftrightarrow> st k = Some (v, ex) \<and> unexpired now ex"
  by (auto simp: redis_get_def unexpired_def split: option.splits if_splits)

lemma redis_get_other [simp]: "k' \<noteq> k \<Longrightarrow> redis_get now (st(k := x)) k' = redis_get now st k'"
  by (simp add: redis_get_def)

lemma redis_get_same [simp]:
  "redis_get now (st(k := None)) k = None"
  "unexpired now ex \<Longrightarrow> redis_get now (st(k := Some (v, ex))) k = Some (v, ex)"
  by (simp_all add: redis_get_iff) (simp add: redis_get_def)

text \<open>After the increment the key carries the seen count plus one, with an unexpired entry.\<close>

lemma lua_incr_seen:
  assumes "lua_incr now key (lua_migrate now key legacy st) = (c, st1)"
  shows "c = seen now key legacy st + 1 \<and> (\<exists>ex. st1 key = Some (c, ex) \<and> unexpired now ex)"
proof (cases "redis_get now st key")
  case (Some p)
  then obtain v ex where p: "redis_get now st key = Some (v, ex)" by (cases p) auto
  then have "lua_migrate now key legacy st = st" by (simp add: lua_migrate_def)
  then show ?thesis
    using assms p redis_get_iff [of now st key v ex] by (auto simp: lua_incr_def seen_def)
next
  case None
  show ?thesis
  proof (cases "redis_get now st legacy")
    case (Some q)
    then obtain v ex where q: "redis_get now st legacy = Some (v, ex)" by (cases q) auto
    have ne: "key \<noteq> legacy" using None Some by auto
    define ex' where "ex' = (case ex of Some x \<Rightarrow> Some x | None \<Rightarrow> Some (now + burst_ttl_ms))"
    have "unexpired now ex'" using q by (auto simp: ex'_def redis_get_iff split: option.splits)
    moreover have "lua_migrate now key legacy st = st(key := Some (v, ex'), legacy := None)"
      using None q ne by (simp add: lua_migrate_def ex'_def)
    ultimately show ?thesis
      using assms None q ne by (auto simp: lua_incr_def seen_def)
  next
    case None': None
    then have "lua_migrate now key legacy st = st" by (simp add: lua_migrate_def)
    then show ?thesis using assms None None' by (auto simp: lua_incr_def seen_def)
  qed
qed

lemma lua_try_seen:
  assumes "lua_try_reserve now key legacy lim st = ((a, n), st')"
  shows "(a \<longleftrightarrow> seen now key legacy st < lim) \<and> n = seen now key legacy st + (if a then 1 else 0)
    \<and> (\<exists>ex. redis_get now st' key = Some (n, ex))"
proof -
  obtain c st1 where inc: "lua_incr now key (lua_migrate now key legacy st) = (c, st1)"
    by (cases "lua_incr now key (lua_migrate now key legacy st)")
  obtain ex where c: "c = seen now key legacy st + 1" and ex: "st1 key = Some (c, ex)" "unexpired now ex"
    using lua_incr_seen [OF inc] by auto
  define st2 where "st2 = (if c = 1 then lua_expire now key st1 else st1)"
  obtain ex2 where "redis_get now st2 key = Some (c, ex2)" "unexpired now ex2"
    using ex by (cases "c = 1") (auto simp: lua_expire_def st2_def redis_get_iff)
  moreover have "lua_try_reserve now key legacy lim st
      = (if c > lim then ((False, c - 1), snd (lua_decr now key st2)) else ((True, c), st2))"
    by (simp add: lua_try_reserve_def inc st2_def)
  ultimately show ?thesis
    using assms c by (auto simp: lua_decr_def split: if_splits)
qed

lemma seen_reject:
  "lua_try_reserve now key legacy lim st = ((False, n), st') \<Longrightarrow> seen now key legacy st' = seen now key legacy st"
  using lua_try_seen by (fastforce simp: seen_def)

lemma seen_release:
  assumes "lua_try_reserve now key legacy lim st = ((True, n), st')"
    and "all_positive st"
  shows "seen now key legacy (lua_release now key st') = seen now key legacy st"
proof -
  obtain ex where n: "n = seen now key legacy st + 1" and get: "redis_get now st' key = Some (n, ex)"
    using lua_try_seen [OF assms(1)] by auto
  have ex: "unexpired now ex" using get by (simp add: redis_get_iff)
  show ?thesis
  proof (cases "n - 1 \<le> 0")
    case False
    then have "redis_get now (lua_release now key st') key = Some (n - 1, ex)"
      using get ex by (simp add: lua_release_def lua_decr_def Let_def)
    then show ?thesis using n by (simp add: seen_def)
  next
    case True
    have pos': "0 < v" if "redis_get now st k = Some (v, x)" for k v x
      using that assms(2) by (auto simp: redis_get_iff all_positive_def)
    then have absent: "redis_get now st key = None" "redis_get now st legacy = None"
      using True n by (fastforce simp: seen_def split: option.splits)+
    then have "lua_migrate now key legacy st = st" by (simp add: lua_migrate_def)
    then have "st' = st(key := Some (1, Some (now + burst_ttl_ms)))"
      using assms(1) absent
      by (auto simp: lua_try_reserve_def lua_incr_def lua_expire_def Let_def split: if_splits)
    then have "redis_get now (lua_release now key st') k = None" if "k = key \<or> k = legacy" for k
      using that absent True get by (cases "k = key") (auto simp: lua_release_def lua_decr_def)
    then show ?thesis using absent by (simp add: seen_def)
  qed
qed

lemma lua_try_positive:
  assumes "lua_try_reserve now key legacy lim st = (r, st')" "0 < lim" "all_positive st"
  shows "all_positive st'"
  unfolding all_positive_def
proof (intro allI impI)
  fix k v ex
  assume st': "st' k = Some (v, ex)"
  show "0 < v"
  proof (cases "k = key")
    case True
    obtain a n where r: "r = (a, n)" by (cases r)
    have "0 \<le> seen now key legacy st"
      using assms(3) by (fastforce simp: all_positive_def seen_def redis_get_iff split: option.splits)
    then have "0 < n"
      using lua_try_seen [OF assms(1) [unfolded r]] assms(2) by (auto split: if_splits)
    then show ?thesis
      using lua_try_seen [OF assms(1) [unfolded r]] True st' by (auto simp: redis_get_iff)
  next
    case False
    then have "st' k = st k \<or> st' k = None"
      using assms(1)
      by (auto simp: lua_try_reserve_def lua_migrate_def lua_incr_def lua_expire_def lua_decr_def Let_def
          split: if_splits option.splits)
    then have "st k = Some (v, ex)" using st' by auto
    then show ?thesis using assms(3) unfolding all_positive_def by blast
  qed
qed

lemma lua_release_positive: "all_positive st \<Longrightarrow> all_positive (lua_release now key st)"
  by (auto simp: all_positive_def lua_release_def lua_decr_def Let_def split: option.splits if_splits)

subsection \<open>The Redis counter implements the port\<close>

definition redis_seen :: "millis \<Rightarrow> ext_id \<Rightarrow> redis \<Rightarrow> int" where
  "redis_seen now e r =
     seen now (burst_key (rd_platform r) e (current_bucket now))
       (if rd_legacy r then legacy_burst_key e (current_bucket now)
        else burst_key (rd_platform r) e (current_bucket now)) (rd_store r)"

lemma redis_burst_count_seen:
  "redis_burst_count now e db r = (if \<not> rd_client r \<or> rd_fails r then 0 else nat (redis_seen now e r))"
  by (auto simp: redis_burst_count_def redis_seen_def seen_def safe_count_def split: option.splits)

interpretation rdb: burst_port redis_burst_count redis_try_burst redis_release_burst redis_ok
proof
  show "redis_ok (snd (redis_try_burst t e lim db r))" if "redis_ok r" "0 < lim" for r t e lim db
    using that
    by (auto simp: redis_ok_def redis_try_burst_def Let_def lua_try_positive split: prod.splits)
  show "redis_ok (redis_release_burst t e r)" if "redis_ok r" for r t e
    using that by (simp add: redis_ok_def redis_release_burst_def lua_release_positive)
  show "redis_burst_count t e db' r' = redis_burst_count t e db' r"
    if "redis_ok r" "0 < lim" "redis_try_burst t e lim db r = ((False, n), r')" for r t e lim db n r' db'
    using that
    by (auto simp: redis_burst_count_seen redis_seen_def redis_try_burst_def Let_def
        split: prod.splits if_splits dest: seen_reject)
  show "redis_burst_count t e db' (redis_release_burst t e r') = redis_burst_count t e db' r"
    if "redis_ok r" "0 < lim" "redis_try_burst t e lim db r = ((True, n), r')" for r t e lim db n r' db'
    using that
    by (auto simp: redis_burst_count_seen redis_seen_def redis_try_burst_def redis_release_burst_def
        redis_ok_def Let_def split: prod.splits if_splits dest: seen_release)
qed

section \<open>Consistency audit\<close>

datatype burst_item = Item_Clean | Item_Repaired | Item_Unresolved

datatype reconcile_status = Rc_Clean | Rc_Drift | Rc_Partial | Rc_Unavailable | Rc_Locked

record reconcile_result =
  rc_status :: reconcile_status
  rc_scanned :: nat
  rc_mismatches :: nat
  rc_repaired :: nat
  rc_unresolved :: nat
  rc_truncated :: bool
  rc_samples :: "string list"

text \<open>\<open>get_fails\<close> and \<open>del_fails\<close> say for which channels the Redis calls throw; \<open>mask_id\<close>
  is the identifier masking of \<open>bot-common\<close>.\<close>

definition reconcile_row ::
    "(ext_id \<Rightarrow> bool) \<Rightarrow> (ext_id \<Rightarrow> bool) \<Rightarrow> millis \<Rightarrow> string \<Rightarrow> bool \<Rightarrow> int \<Rightarrow>
     ext_id \<times> nat \<Rightarrow> redis_store \<Rightarrow> (burst_item \<times> bool) \<times> redis_store" where
  "reconcile_row get_fails del_fails now p legacy bucket row st =
     (let (e, c) = row; key = burst_key p e bucket; lkey = legacy_burst_key e bucket in
      if get_fails e then ((Item_Unresolved, False), st)
      else
        (case (case redis_get now st key of
                 Some x \<Rightarrow> Some x
               | None \<Rightarrow> if legacy then redis_get now st lkey else None) of
           None \<Rightarrow> ((Item_Clean, False), st)
         | Some (v, _) \<Rightarrow>
             if v = int c then ((Item_Clean, False), st)
             else if del_fails e then ((Item_Unresolved, True), st)
             else ((Item_Repaired, True),
                   if legacy then st(key := None, lkey := None) else st(key := None))))"

fun reconcile_rows ::
    "(ext_id \<Rightarrow> bool) \<Rightarrow> (ext_id \<Rightarrow> bool) \<Rightarrow> millis \<Rightarrow> string \<Rightarrow> bool \<Rightarrow> int \<Rightarrow>
     (ext_id \<times> nat) list \<Rightarrow> redis_store \<Rightarrow> (ext_id \<times> burst_item \<times> bool) list \<times> redis_store" where
  "reconcile_rows gf df now p legacy bucket [] st = ([], st)"
| "reconcile_rows gf df now p legacy bucket (row # rows) st =
     (let (it, st1) = reconcile_row gf df now p legacy bucket row st;
          (its, st2) = reconcile_rows gf df now p legacy bucket rows st1
      in ((fst row, it) # its, st2))"

definition reconcile_batch ::
    "(ext_id \<Rightarrow> bool) \<Rightarrow> (ext_id \<Rightarrow> bool) \<Rightarrow> (ext_id \<Rightarrow> string) \<Rightarrow> millis \<Rightarrow> string \<Rightarrow> bool \<Rightarrow>
     (ext_id \<times> nat) list \<Rightarrow> bool \<Rightarrow> redis_store \<Rightarrow> reconcile_result \<times> redis_store" where
  "reconcile_batch gf df mask_id now p legacy listed truncated st =
     (let (its, st') = reconcile_rows gf df now p legacy (current_bucket now) listed st;
          mism = filter (\<lambda>(e, i, b). b) its;
          unres = sql_count (\<lambda>(e, i, b). i = Item_Unresolved) its
      in (\<lparr>rc_status = (if unres > 0 then Rc_Drift else if truncated then Rc_Partial else Rc_Clean),
           rc_scanned = length listed, rc_mismatches = length mism,
           rc_repaired = sql_count (\<lambda>(e, i, b). i = Item_Repaired) its,
           rc_unresolved = unres, rc_truncated = truncated,
           rc_samples = map (\<lambda>(e, _). mask_id e) (take 5 mism)\<rparr>, st'))"

definition key_agrees :: "millis \<Rightarrow> redis_store \<Rightarrow> string \<Rightarrow> nat \<Rightarrow> bool" where
  "key_agrees now st k c \<longleftrightarrow> (case redis_get now st k of None \<Rightarrow> True | Some (v, _) \<Rightarrow> v = int c)"

lemma key_agrees_delete: "key_agrees now st k c \<Longrightarrow> key_agrees now (st(k' := None)) k c"
  by (cases "k' = k") (simp_all add: key_agrees_def)

lemma redis_get_deleted [simp]: "redis_get now (st(k := None, k' := None)) k = None"
  by (cases "k' = k") simp_all

lemma reconcile_row_agrees:
  assumes "reconcile_row gf df now p legacy bucket (e, c) st = ((it, b), st')" "it \<noteq> Item_Unresolved"
  shows "key_agrees now st' (burst_key p e bucket) c"
  using assms
  by (auto simp: reconcile_row_def key_agrees_def key_agrees_delete Let_def
      split: if_splits option.splits)

lemma reconcile_row_only_deletes:
  "key_agrees now st k c \<Longrightarrow> key_agrees now (snd (reconcile_row gf df now p legacy bucket row st)) k c"
  by (auto simp: reconcile_row_def key_agrees_delete Let_def split: if_splits option.splits prod.splits)

lemma reconcile_rows_only_deletes:
  "key_agrees now st k c \<Longrightarrow> key_agrees now (snd (reconcile_rows gf df now p legacy bucket rows st)) k c"
proof (induction rows arbitrary: st)
  case (Cons row rows)
  then show ?case
    using reconcile_row_only_deletes [OF Cons.prems, of gf df p legacy bucket row]
    by (auto simp: Let_def split: prod.splits) (metis snd_conv)
qed simp

lemma reconcile_rows_agree:
  assumes "reconcile_rows gf df now p legacy bucket rows st = (its, st')"
    "list_all (\<lambda>(e, i, b). i \<noteq> Item_Unresolved) its" "(e, c) \<in> set rows"
  shows "key_agrees now st' (burst_key p e bucket) c"
  using assms
proof (induction rows arbitrary: st its)
  case (Cons row rows)
  obtain it b st1 where r1: "reconcile_row gf df now p legacy bucket row st = ((it, b), st1)"
    by (metis prod.exhaust)
  obtain its2 where r2: "reconcile_rows gf df now p legacy bucket rows st1 = (its2, st')"
    "its = (fst row, it, b) # its2"
    using Cons.prems(1) r1 by (auto split: prod.splits)
  show ?case
  proof (cases "(e, c) \<in> set rows")
    case True
    then show ?thesis using Cons.IH [OF r2(1)] Cons.prems(2) r2(2) by simp
  next
    case False
    then have "row = (e, c)" using Cons.prems(3) by simp
    then have "key_agrees now st1 (burst_key p e bucket) c"
      using reconcile_row_agrees r1 r2(2) Cons.prems(2) by auto
    then show ?thesis using reconcile_rows_only_deletes r2(1) by (metis snd_conv)
  qed
qed simp

text \<open>The Redis audit converges. When a batch reports no unresolved item, every listed
  channel's Redis counter of the current window is either absent or equal to the PostgreSQL
  count; the audit only ever deletes keys, so it never invents a count.\<close>

theorem burst_audit_converges:
  assumes "reconcile_batch gf df mask_id now p legacy listed truncated st = (res, st')"
    and "rc_unresolved res = 0" and "(e, c) \<in> set listed"
  shows "key_agrees now st' (burst_key p e (current_bucket now)) c
    \<and> rc_repaired res = rc_mismatches res"
proof -
  obtain its where its: "reconcile_rows gf df now p legacy (current_bucket now) listed st = (its, st')"
    and res: "rc_unresolved res = sql_count (\<lambda>(e, i, b). i = Item_Unresolved) its"
      "rc_repaired res = sql_count (\<lambda>(e, i, b). i = Item_Repaired) its"
      "rc_mismatches res = length (filter (\<lambda>(e, i, b). b) its)"
    using assms(1) by (auto simp: reconcile_batch_def Let_def split: prod.splits)
  have ok: "list_all (\<lambda>(e, i, b). i \<noteq> Item_Unresolved) its"
    using assms(2) res(1) by (auto simp: list_all_iff sql_count_0_iff)
  have "list_all (\<lambda>(e, i, b). b \<longleftrightarrow> i = Item_Repaired) its"
    using its ok
    by (induction listed arbitrary: st its)
      (auto simp: reconcile_row_def Let_def split: prod.splits if_splits option.splits)
  then have "rc_repaired res = rc_mismatches res"
    unfolding res(2,3) by (induction its) (auto simp: sql_count_def)
  then show ?thesis using reconcile_rows_agree [OF its ok assms(3)] by simp
qed

definition drifted_store :: redis_store where
  "drifted_store = (\<lambda>_. None)(burst_key ''zalo'' ''u1'' 0 := Some (5, Some 120000))"

theorem burst_audit_converges_witness:
  "key_agrees 7 (snd (reconcile_batch (\<lambda>_. False) (\<lambda>_. False) id 7 ''zalo'' False
       [(''u1'', 2)] False drifted_store)) (burst_key ''zalo'' ''u1'' (current_bucket 7)) 2"
proof -
  have "rc_unresolved (fst (reconcile_batch (\<lambda>_. False) (\<lambda>_. False) id 7 ''zalo'' False
      [(''u1'', 2)] False drifted_store)) = 0"
    by (simp add: reconcile_batch_def reconcile_row_def Let_def split: option.splits)
  then show ?thesis
    using burst_audit_converges [of "\<lambda>_. False" "\<lambda>_. False" id 7 "''zalo''" False "[(''u1'', 2)]" False
        drifted_store _ _ "''u1''" 2]
    by (metis list.set_intros(1) prod.collapse)
qed

end
