(* ===== verification/Quota_Core.thy ===== *)
theory Quota_Core
  imports Burst_Counter
begin

text \<open>
  \<open>ChatRateLimitCore\<close> (\<open>chat-rate-limit-core.service.ts\<close>): the quota engine that
  composes the repository of \<open>Chat_Quota\<close> with a burst counter. The state is the database
  together with the counter's own state \<open>'b\<close>; the counter operations are arguments, and the
  theorems about the engine are proved in the context of the locale \<open>burst_port\<close> and used
  through its two interpretations.

  A call of the engine runs several transactions, so an exception leaves the state reached so
  far: the result is a pair of \<open>quota_error + 'a\<close> and the state. A call reads the clock
  several times; the instants are the fields of \<open>ticks\<close>.
\<close>

section \<open>The engine\<close>

record quota_settings =
  free_form_daily_limit :: int
  burst_per_minute :: int
  settings_counts_refunded :: bool
  stuck_reserved_ms :: int

datatype deny_reason = Daily_Limit | Burst_Limit | Conflict

record quota_check =
  qc_allowed :: bool
  qc_used :: int
  qc_limit :: int
  qc_remaining :: int
  qc_reason :: "deny_reason option"
  qc_date :: date_str
  qc_reserved :: bool

record ticks =
  t_begin :: millis
  t_reserve :: millis
  t_recover :: millis
  t_retry :: millis
  t_release :: millis

definition build_quota_result :: "int \<Rightarrow> int \<Rightarrow> date_str \<Rightarrow> quota_check" where
  "build_quota_result used lim d =
     \<lparr>qc_allowed = (used < lim), qc_used = used, qc_limit = lim, qc_remaining = max (lim - used) 0,
      qc_reason = (if used \<ge> lim then Some Daily_Limit else None), qc_date = d, qc_reserved = False\<rparr>"

definition check_quota ::
    "quota_repo \<Rightarrow> quota_settings \<Rightarrow> (millis \<Rightarrow> date_str) \<Rightarrow> millis \<Rightarrow> ext_id \<Rightarrow> user_id option \<Rightarrow>
     quota_db \<Rightarrow> quota_error + quota_check" where
  "check_quota R S today now e user db =
     (case get_daily_usage_count R db e (today now) user of
        Inl err \<Rightarrow> Inl err
      | Inr used \<Rightarrow> Inr (build_quota_result (int used) (free_form_daily_limit S) (today now)))"

definition lift_tx ::
    "quota_db \<Rightarrow> quota_error + ('a \<times> quota_db) \<Rightarrow> (quota_error + 'a) \<times> quota_db" where
  "lift_tx db res = (case res of Inl e \<Rightarrow> (Inl e, db) | Inr (x, db') \<Rightarrow> (Inr x, db'))"

definition reserve_slot_or_recover_on_conflict ::
    "quota_repo \<Rightarrow> quota_settings \<Rightarrow> ticks \<Rightarrow> reserve_input \<Rightarrow> quota_db \<Rightarrow>
     (quota_error + reserve_outcome) \<times> quota_db" where
  "reserve_slot_or_recover_on_conflict R S T inp db =
     (case lift_tx db (reserve_slot R (t_reserve T) inp db) of
        (Inr Idempotency_Conflict, db1) \<Rightarrow>
          (case lift_tx db1 (recover_idempotency_for_retry R (ri_key inp)
                               (t_recover T - stuck_reserved_ms S) db1) of
             (Inl e, db2) \<Rightarrow> (Inl e, db2)
           | (Inr Reopened, db2) \<Rightarrow> lift_tx db2 (reserve_slot R (t_retry T) inp db2)
           | (Inr _, db2) \<Rightarrow> (Inr Idempotency_Conflict, db2))
      | res \<Rightarrow> res)"

definition deny :: "int \<Rightarrow> int \<Rightarrow> int \<Rightarrow> deny_reason \<Rightarrow> date_str \<Rightarrow> quota_check" where
  "deny used lim remaining reason d =
     \<lparr>qc_allowed = False, qc_used = used, qc_limit = lim, qc_remaining = remaining,
      qc_reason = Some reason, qc_date = d, qc_reserved = False\<rparr>"

definition reserve_and_rollback_burst ::
    "(millis \<Rightarrow> ext_id \<Rightarrow> 'b \<Rightarrow> 'b) \<Rightarrow> quota_repo \<Rightarrow> quota_settings \<Rightarrow> ticks \<Rightarrow> reserve_input \<Rightarrow> bool \<Rightarrow>
     quota_db \<times> 'b \<Rightarrow> (quota_error + quota_check) \<times> quota_db \<times> 'b" where
  "reserve_and_rollback_burst rel R S T inp held st =
     (let (db, b) = st;
          (res, db') = reserve_slot_or_recover_on_conflict R S T inp db;
          b_released = (if held then rel (t_release T) (ri_ext inp) b else b);
          lim = free_form_daily_limit S
      in case res of
           Inl e \<Rightarrow> (Inl e, db', b)
         | Inr (Burst_Limit_Exceeded c) \<Rightarrow>
             (Inr (deny (int c) (burst_per_minute S) 0 Burst_Limit (ri_date inp)), db', b_released)
         | Inr Daily_Limit_Exceeded \<Rightarrow>
             (Inr (deny lim lim 0 Daily_Limit (ri_date inp)), db', b_released)
         | Inr Idempotency_Conflict \<Rightarrow>
             (Inr (deny 0 lim lim Conflict (ri_date inp)), db', b_released)
         | Inr (Slot_Reserved n) \<Rightarrow>
             (Inr \<lparr>qc_allowed = True, qc_used = int n, qc_limit = lim,
                   qc_remaining = max (lim - int n) 0, qc_reason = None, qc_date = ri_date inp,
                   qc_reserved = True\<rparr>, db', b))"

definition core_reserve_input ::
    "quota_settings \<Rightarrow> (millis \<Rightarrow> date_str) \<Rightarrow> ticks \<Rightarrow> ext_id \<Rightarrow> user_id option \<Rightarrow> string \<Rightarrow> reserve_input" where
  "core_reserve_input S today T e user key =
     \<lparr>ri_ext = e, ri_user = user, ri_date = today (t_begin T), ri_key = key,
      ri_daily_limit = free_form_daily_limit S, ri_burst_limit = Some (burst_per_minute S),
      ri_burst_since = Some (t_begin T - burst_window_ms),
      ri_counts_refunded = settings_counts_refunded S\<rparr>"

definition reserve_free_form_slot ::
    "(millis \<Rightarrow> ext_id \<Rightarrow> int \<Rightarrow> quota_db \<Rightarrow> 'b \<Rightarrow> (bool \<times> nat) \<times> 'b) \<Rightarrow> (millis \<Rightarrow> ext_id \<Rightarrow> 'b \<Rightarrow> 'b) \<Rightarrow>
     quota_repo \<Rightarrow> quota_settings \<Rightarrow> (millis \<Rightarrow> date_str) \<Rightarrow> ticks \<Rightarrow> ext_id \<Rightarrow> user_id option \<Rightarrow> string \<Rightarrow>
     quota_db \<times> 'b \<Rightarrow> (quota_error + quota_check) \<times> quota_db \<times> 'b" where
  "reserve_free_form_slot tryb rel R S today T e user key st =
     (let (db, b) = st;
          ((held, _), b1) = tryb (t_begin T) e (burst_per_minute S) db b
      in reserve_and_rollback_burst rel R S T (core_reserve_input S today T e user key) held (db, b1))"

definition refund_free_form_slot ::
    "quota_repo \<Rightarrow> string \<Rightarrow> quota_db \<Rightarrow> (quota_error + bool) \<times> quota_db" where
  "refund_free_form_slot R key db = lift_tx db (refund_reserved_slot R Send_Failed key db)"

definition mark_completed :: "quota_repo \<Rightarrow> string \<Rightarrow> quota_db \<Rightarrow> quota_db" where
  "mark_completed R key db = snd (complete_reserved_slot R key db)"

definition mark_delivered :: "quota_repo \<Rightarrow> string \<Rightarrow> quota_db \<Rightarrow> quota_db" where
  "mark_delivered R key db = snd (mark_delivered_slot R key db)"

definition recover_stuck_reserved_slots ::
    "quota_repo \<Rightarrow> quota_settings \<Rightarrow> millis \<Rightarrow> quota_db \<Rightarrow> (quota_error + string list) \<times> quota_db" where
  "recover_stuck_reserved_slots R S now db =
     lift_tx db (recover_all_stuck_reserved R (now - stuck_reserved_ms S) db)"

section \<open>The database is the authority\<close>

lemma lift_tx_Inr [simp]: "lift_tx db (Inr (x, db')) = (Inr x, db')"
  and lift_tx_Inl [simp]: "lift_tx db (Inl e) = (Inl e, db)"
  by (simp_all add: lift_tx_def)

definition granted_in :: "quota_repo \<Rightarrow> reserve_input \<Rightarrow> quota_db \<Rightarrow> bool" where
  "granted_in R inp db \<longleftrightarrow> has_status R (ri_key inp) [Reserved] db \<and> burst_exceeded R inp db = None"

lemma burst_exceeded_idem: "idem db = idem db' \<Longrightarrow> burst_exceeded R inp db = burst_exceeded R inp db'"
  by (simp add: burst_exceeded_def burst_count_def split: option.splits)

lemma reserve_slot_granted_in:
  assumes "repo_ok R" "books db" "reserve_slot R now inp db = Inr (Slot_Reserved n, db')"
  shows "granted_in R inp db'"
proof -
  have "owner_aware db" using assms(2) by (simp add: books_def accounted_def)
  then have g: "idem db' = idem db @ [new_idem_row R now inp]"
    "burst_exceeded R inp (db\<lparr>idem := idem db'\<rparr>) = None"
    using reserve_slot_granted [OF assms(1) _ assms(3)] by blast+
  have "burst_exceeded R inp db' = None"
    using g(2) burst_exceeded_idem [of "db\<lparr>idem := idem db'\<rparr>" db'] by simp
  then show ?thesis
    by (simp add: granted_in_def has_status_def g(1) new_idem_row_def idem_key_def)
qed

text \<open>One reservation transaction, as the engine sees it.\<close>

lemma reserve_tx:
  assumes "repo_ok R" "books db" "plain_ids (ri_ext inp) (ri_date inp)"
  obtains out db' where "reserve_slot R now inp db = Inr (out, db')" "books db'"
    "\<And>n. out = Slot_Reserved n \<Longrightarrow> granted_in R inp db'"
    "(\<And>n. out \<noteq> Slot_Reserved n) \<Longrightarrow> db' = db"
proof -
  obtain out db' where r: "reserve_slot R now inp db = Inr (out, db')"
    using reserve_outcome_books [OF assms] by blast
  then show ?thesis
    using that [OF r] reserve_books [OF assms r] reserve_slot_granted_in [OF assms(1,2)]
      reserve_slot_denied [OF r] by blast
qed

lemma reserve_or_recover_sound:
  assumes "repo_ok R" "books db" "plain_ids (ri_ext inp) (ri_date inp)"
  shows "\<exists>out db'. reserve_slot_or_recover_on_conflict R S T inp db = (Inr out, db') \<and> books db'
    \<and> (if \<exists>n. out = Slot_Reserved n then granted_in R inp db'
       else usage_mset (usage db') \<subseteq># usage_mset (usage db))"
proof -
  obtain out db1 where r1: "reserve_slot R (t_reserve T) inp db = Inr (out, db1)" "books db1"
    "\<And>n. out = Slot_Reserved n \<Longrightarrow> granted_in R inp db1"
    "(\<And>n. out \<noteq> Slot_Reserved n) \<Longrightarrow> db1 = db"
    using reserve_tx [OF assms] by metis
  show ?thesis
  proof (cases "out = Idempotency_Conflict")
    case False
    then have "reserve_slot_or_recover_on_conflict R S T inp db = (Inr out, db1)"
      by (cases out) (simp_all add: reserve_slot_or_recover_on_conflict_def r1(1))
    then show ?thesis using r1(2-4) by auto
  next
    case True
    have db1: "db1 = db" using r1(4) True by simp
    obtain rec db2 where r2: "recover_idempotency_for_retry R (ri_key inp)
        (t_recover T - stuck_reserved_ms S) db = Inr (rec, db2)" "books db2"
      "usage_mset (usage db2) \<subseteq># usage_mset (usage db)"
      using retry_ok [OF assms(1,2)] by blast
    obtain out3 db3 where r3: "reserve_slot R (t_retry T) inp db2 = Inr (out3, db3)" "books db3"
      "\<And>n. out3 = Slot_Reserved n \<Longrightarrow> granted_in R inp db3"
      "(\<And>n. out3 \<noteq> Slot_Reserved n) \<Longrightarrow> db3 = db2"
      using reserve_tx [OF assms(1) r2(2) assms(3)] by metis
    show ?thesis
    proof (cases "rec = Reopened")
      case True
      then have "reserve_slot_or_recover_on_conflict R S T inp db = (Inr out3, db3)"
        using \<open>out = Idempotency_Conflict\<close> by (simp add: reserve_slot_or_recover_on_conflict_def r1(1) db1 r2(1) r3(1))
      then show ?thesis using r3(2-4) r2(3) by auto
    next
      case False
      then have "reserve_slot_or_recover_on_conflict R S T inp db = (Inr Idempotency_Conflict, db2)"
        using \<open>out = Idempotency_Conflict\<close>
        by (cases rec) (simp_all add: reserve_slot_or_recover_on_conflict_def r1(1) db1 r2(1))
      then show ?thesis using r2(2,3) by simp
    qed
  qed
qed

lemma granted_in_core:
  "granted_in R (core_reserve_input S today T e user key) db \<longleftrightarrow>
     has_status R key [Reserved] db
     \<and> int (burst_count R e (t_begin T - burst_window_ms) (settings_counts_refunded S) db) \<le> burst_per_minute S"
  by (auto simp: granted_in_def burst_exceeded_def core_reserve_input_def Let_def)

lemma core_reserve_outcome:
  assumes "repo_ok R" "books db" "plain_ids e (today (t_begin T))"
  shows "\<exists>res db' b'. reserve_free_form_slot tryb rel R S today T e user key (db, b) = (Inr res, db', b')
    \<and> books db' \<and> (qc_allowed res \<longleftrightarrow> qc_reserved res)
    \<and> (if qc_reserved res then granted_in R (core_reserve_input S today T e user key) db'
       else usage_mset (usage db') \<subseteq># usage_mset (usage db))"
proof -
  let ?inp = "core_reserve_input S today T e user key"
  obtain held n b1 where t: "tryb (t_begin T) e (burst_per_minute S) db b = ((held, n), b1)"
    by (metis prod.exhaust)
  have "plain_ids (ri_ext ?inp) (ri_date ?inp)"
    using assms(3) by (simp add: core_reserve_input_def)
  then obtain out db' where r: "reserve_slot_or_recover_on_conflict R S T ?inp db = (Inr out, db')"
    "books db'" "if \<exists>n. out = Slot_Reserved n then granted_in R ?inp db'
       else usage_mset (usage db') \<subseteq># usage_mset (usage db)"
    using reserve_or_recover_sound [OF assms(1,2)] by blast
  show ?thesis
    using r by (cases out) (simp_all add: reserve_free_form_slot_def reserve_and_rollback_burst_def t deny_def Let_def)
qed

text \<open>C15: The engine admits a message exactly when the database reserved a slot for it, whatever
  the advisory burst counter answers (an unreachable Redis, a stale count, a wrong reject). The
  call never throws on balanced books and keeps them balanced; an admitted message holds a
  reserved row whose burst window is within the limit; a refused one has charged nothing.\<close>

theorem core_reserve_authority:
  assumes "repo_ok R" "books db" "plain_ids e (today (t_begin T))"
  shows "\<exists>res db' b'. reserve_free_form_slot tryb rel R S today T e user key (db, b) = (Inr res, db', b')
    \<and> books db' \<and> (qc_allowed res \<longleftrightarrow> qc_reserved res)
    \<and> (if qc_reserved res then
         has_status R key [Reserved] db'
         \<and> int (burst_count R e (t_begin T - burst_window_ms) (settings_counts_refunded S) db')
             \<le> burst_per_minute S
       else usage_mset (usage db') \<subseteq># usage_mset (usage db))"
  using core_reserve_outcome [OF assms(1,2), where today = today and T = T, OF assms(3), of tryb rel S user key b]
  unfolding granted_in_core .

definition sample_settings :: quota_settings where
  "sample_settings = \<lparr>free_form_daily_limit = 15, burst_per_minute = 3,
     settings_counts_refunded = False, stuck_reserved_ms = 600000\<rparr>"

definition sample_ticks :: ticks where
  "sample_ticks = \<lparr>t_begin = 100, t_reserve = 101, t_recover = 102, t_retry = 103, t_release = 100\<rparr>"

theorem core_reserve_authority_witness:
  "\<exists>res db' b'. reserve_free_form_slot (pg_try_burst zalo_repo False) pg_release_burst zalo_repo
      sample_settings (\<lambda>_. ''2026-05-04'') sample_ticks ''u1'' (Some 7) ''k9'' (sample_reserved_db, ())
      = (Inr res, db', b') \<and> books db' \<and> (qc_allowed res \<longleftrightarrow> qc_reserved res)"
  using core_reserve_authority [OF repo_ok_zalo books_sample_reserved, of "''u1''" "\<lambda>_. ''2026-05-04''"
      sample_ticks "pg_try_burst zalo_repo False" pg_release_burst sample_settings "Some 7" "''k9''" "()"]
  by (auto simp: plain_ids_def)

section \<open>The advisory counter\<close>

context burst_port
begin

text \<open>A refused attempt leaves the channel's advisory count where it was.\<close>

lemma refused_net_zero:
  assumes "ok b" "0 < burst_per_minute S" "t_release T = t_begin T"
    and "reserve_free_form_slot tryb rel R S today T e user key (db, b) = (Inr res, db', b')"
    and "\<not> qc_reserved res"
  shows "ok b' \<and> cnt (t_begin T) e db' b' = cnt (t_begin T) e db' b"
proof -
  obtain held n b1 where t: "tryb (t_begin T) e (burst_per_minute S) db b = ((held, n), b1)"
    by (metis prod.exhaust)
  have ok1: "ok b1" using tryb_ok [OF assms(1,2)] t by (metis snd_conv)
  have e: "ri_ext (core_reserve_input S today T e user key) = e"
    by (simp add: core_reserve_input_def)
  have b': "b' = (if held then rel (t_begin T) e b1 else b1)"
    using assms(3-5)
    by (auto simp: reserve_free_form_slot_def reserve_and_rollback_burst_def t e Let_def
        split: prod.splits sum.splits reserve_outcome.splits)
  show ?thesis
  proof (cases held)
    case True
    then show ?thesis using b' ok1 rel_ok release_undoes [OF assms(1,2)] t by simp
  next
    case False
    then show ?thesis using b' ok1 reject_keeps [OF assms(1,2)] t by simp
  qed
qed

text \<open>An attempt whose transaction throws keeps the advisory increment.\<close>

lemma thrown_keeps_increment:
  assumes "reserve_free_form_slot tryb rel R S today T e user key (db, b) = (Inl err, db', b')"
  shows "b' = snd (tryb (t_begin T) e (burst_per_minute S) db b)"
  using assms
  by (auto simp: reserve_free_form_slot_def reserve_and_rollback_burst_def Let_def
      split: prod.splits sum.splits reserve_outcome.splits)

end

text \<open>With the Redis counter a refused attempt is net zero: the daily or burst denial and the
  duplicate key put the channel's advisory count back to what it was, whether or not the
  advisory precheck had admitted the attempt and whether or not a legacy key was migrated.\<close>

theorem redis_refusal_net_zero:
  assumes "redis_ok r" "0 < burst_per_minute S" "t_release T = t_begin T"
    and "reserve_free_form_slot redis_try_burst redis_release_burst R S today T e user key (db, r)
           = (Inr res, db', r')"
    and "\<not> qc_reserved res"
  shows "redis_ok r' \<and> redis_burst_count (t_begin T) e db' r' = redis_burst_count (t_begin T) e db' r"
  using rdb.refused_net_zero [OF assms] .

definition sample_redis :: redis where
  "sample_redis = \<lparr>rd_client = True, rd_fails = False, rd_platform = ''zalo'', rd_legacy = False,
     rd_store = (\<lambda>_. None)\<rparr>"

definition sample_engine_call :: "quota_db \<Rightarrow> (quota_error + quota_check) \<times> quota_db \<times> redis" where
  "sample_engine_call db = reserve_free_form_slot redis_try_burst redis_release_burst zalo_repo
     sample_settings (\<lambda>_. ''2026-05-04'') sample_ticks ''u1'' (Some 7) ''k1'' (db, sample_redis)"

lemma redis_ok_sample: "redis_ok sample_redis"
  by (simp add: redis_ok_def sample_redis_def all_positive_def)

theorem redis_refusal_net_zero_witness:
  "redis_burst_count 100 ''u1'' sample_reserved_db (snd (snd (sample_engine_call sample_reserved_db)))
   = redis_burst_count 100 ''u1'' sample_reserved_db sample_redis"
proof -
  have res: "map_sum id qc_reserved (fst (sample_engine_call sample_reserved_db)) = Inr False"
    by code_simp
  obtain q where q: "fst (sample_engine_call sample_reserved_db) = Inr q" "\<not> qc_reserved q"
    using res by (cases "fst (sample_engine_call sample_reserved_db)") auto
  then obtain db' r' where c: "sample_engine_call sample_reserved_db = (Inr q, db', r')"
    by (metis prod.collapse)
  have "redis_burst_count 100 ''u1'' db' r' = redis_burst_count 100 ''u1'' db' sample_redis"
    using redis_refusal_net_zero [OF redis_ok_sample _ _ c [unfolded sample_engine_call_def] q(2)]
    by (simp add: sample_settings_def sample_ticks_def)
  then show ?thesis using c by (simp add: redis_burst_count_def)
qed

text \<open>When the reserving transaction throws, the engine does not release the advisory
  reservation it holds: here the usage table is in no supported schema, the call fails, and
  the channel's Redis counter stays one higher.\<close>

theorem burst_increment_kept_on_throw:
  "let (res, db', r') = sample_engine_call (empty_quota_db\<lparr>linked_index := False\<rparr>)
   in res = Inl Unsupported_Schema
      \<and> redis_burst_count 100 ''u1'' db' sample_redis = 0 \<and> redis_burst_count 100 ''u1'' db' r' = 1"
  by code_simp

end
