(* ===== verification/Chat_Pipeline.thy ===== *)
theory Chat_Pipeline
  imports Quota_Core
begin

text \<open>
  The chat flush pipeline, \<open>packages/chat-pipeline/src/chat-pipeline.ts\<close>, over its ports, and
  the adapter \<open>packages/chat-agent/src/chat-pipeline-adapters.ts\<close> that plugs the quota engine
  of \<open>Quota_Core\<close> into it.

  \<open>flush\<close> is one \<open>try\<close> block with early returns, local variables and a \<open>catch\<close>. The
  locals and the two pieces of the world (\<open>'q\<close>, what the rate limiter port owns; \<open>'e\<close>,
  everything behind the other ports) form the record \<open>flow\<close>; the block is a list of stages,
  in the order of the comments in the source, each of which continues, returns or throws.
  A port call returns its result or an exception and the new state; a stage that throws keeps
  the locals and states reached so far, as the \<open>catch\<close> sees them. A hook that is not
  configured is one that does nothing.
\<close>

section \<open>Ports and data\<close>

datatype exn = Quota_Exn quota_error | Port_Exn string | Not_Confirmed_Exn

datatype reserve_result = Allow "date_str option" | Refuse "deny_reason option" int

record agent_reply =
  a_text :: string
  a_tool_summary :: "string option"
  a_skip_history :: bool
  a_delivery_key :: "string option"
  a_clarification :: bool
  a_skip_delivery :: bool

record send_result =
  s_delivered :: bool
  s_outcome :: "delivery_outcome option"
  s_partial :: bool

datatype failure_reason = Fr_Rate_Limited | Fr_Not_Confirmed

datatype flush_result =
    Fl_Delivered
  | Fl_Denied "deny_reason option" int
  | Fl_Duplicate
  | Fl_Failed failure_reason

definition is_terminal_flush :: "flush_result \<Rightarrow> bool" where
  "is_terminal_flush r \<longleftrightarrow> (case r of Fl_Failed why \<Rightarrow> why = Fr_Rate_Limited | _ \<Rightarrow> True)"

record pipe_input =
  pi_ext :: ext_id
  pi_user :: "user_id option"
  pi_texts :: "string list"
  pi_parts :: "string list option"
  pi_key :: "string option"

type_synonym chat_msg = "string \<times> string"

record agent_input =
  ai_ext :: ext_id
  ai_user :: "user_id option"
  ai_text :: string
  ai_parts :: "string list"
  ai_history :: "chat_msg list"
  ai_correlation :: "string option"

record pctx =
  c_merged :: string
  c_usage_date :: "date_str option"
  c_reply :: "agent_reply option"
  c_error :: "exn option"
  c_refund_error :: "exn option"
  c_final_error :: "exn option"
  c_partial :: bool
  c_ambiguous :: bool

datatype hook =
    On_Step string
  | On_Before_Send
  | On_After_Send
  | On_Error
  | On_Rate_Limited
  | On_Quota_Denied "deny_reason option" int

record ('q, 'e) ports =
  p_reserve :: "ext_id \<Rightarrow> string \<Rightarrow> user_id option \<Rightarrow> 'q \<Rightarrow> (exn + reserve_result) \<times> 'q"
  p_refund :: "ext_id \<Rightarrow> date_str \<Rightarrow> string \<Rightarrow> 'q \<Rightarrow> (exn + unit) \<times> 'q"
  p_mark_delivered :: "string \<Rightarrow> 'q \<Rightarrow> (exn + unit) \<times> 'q"
  p_mark_completed :: "string \<Rightarrow> 'q \<Rightarrow> (exn + unit) \<times> 'q"
  p_get_history :: "ext_id \<Rightarrow> 'e \<Rightarrow> (exn + chat_msg list) \<times> 'e"
  p_append_turn :: "ext_id \<Rightarrow> string \<Rightarrow> string \<Rightarrow> string option \<Rightarrow> 'e \<Rightarrow> (exn + unit) \<times> 'e"
  p_agent :: "agent_input \<Rightarrow> 'e \<Rightarrow> (exn + agent_reply) \<times> 'e"
  p_send :: "ext_id \<Rightarrow> string \<Rightarrow> user_id option \<times> string option \<times> bool \<Rightarrow> 'e \<Rightarrow> (exn + send_result) \<times> 'e"
  p_ambiguous :: "exn \<Rightarrow> bool"
  p_hook :: "hook \<Rightarrow> pctx \<Rightarrow> 'e \<Rightarrow> (exn + unit) \<times> 'e"

record ('q, 'e) flow =
  f_q :: 'q
  f_e :: 'e
  f_ctx :: pctx
  f_delivered :: bool
  f_usage :: "date_str option"
  f_refunded :: bool
  f_hooked :: bool
  f_limited :: bool
  f_history :: "chat_msg list"

datatype ctl = Go | Ret flush_result | Thr exn

type_synonym ('q, 'e) stage = "('q, 'e) flow \<Rightarrow> ctl \<times> ('q, 'e) flow"

section \<open>Text bounds\<close>

definition newline :: string where
  "newline = [CHR 0x0A]"

fun clip_parts :: "bool \<Rightarrow> int \<Rightarrow> string list \<Rightarrow> string list" where
  "clip_parts first remaining [] = []"
| "clip_parts first remaining (part # parts) =
     (let sep = (if first then 0 else 1); available = remaining - sep in
      if available < 0 then []
      else
        let clipped = take (nat available) part in
        if length clipped < length part then [clipped]
        else clipped # clip_parts False (remaining - (sep + int (length clipped))) parts)"

definition cap_user_text_parts :: "string list \<Rightarrow> nat \<Rightarrow> string list" where
  "cap_user_text_parts parts max_chars =
     (if length (js_join newline parts) \<le> max_chars then parts
      else clip_parts True (int max_chars) parts)"

definition merged_text :: "nat \<Rightarrow> pipe_input \<Rightarrow> string" where
  "merged_text max_chars inp = take max_chars (js_join newline (pi_texts inp))"

definition user_text_parts :: "nat \<Rightarrow> pipe_input \<Rightarrow> string list" where
  "user_text_parts max_chars inp =
     cap_user_text_parts (case pi_parts inp of Some ps \<Rightarrow> ps | None \<Rightarrow> pi_texts inp)
       (length (merged_text max_chars inp))"

section \<open>Stages\<close>

definition given :: "string option \<Rightarrow> bool" where
  "given s \<longleftrightarrow> (case s of Some x \<Rightarrow> x \<noteq> [] | None \<Rightarrow> False)"

definition call_hook :: "('q, 'e) ports \<Rightarrow> hook \<Rightarrow> ('q, 'e) stage" where
  "call_hook P h f =
     (case p_hook P h (f_ctx f) (f_e f) of
        (Inl x, e) \<Rightarrow> (Thr x, f\<lparr>f_e := e\<rparr>)
      | (Inr _, e) \<Rightarrow> (Go, f\<lparr>f_e := e\<rparr>))"

definition quiet_hook :: "('q, 'e) ports \<Rightarrow> hook \<Rightarrow> ('q, 'e) flow \<Rightarrow> ('q, 'e) flow" where
  "quiet_hook P h f = f\<lparr>f_e := snd (p_hook P h (f_ctx f) (f_e f))\<rparr>"

definition and_then :: "('q, 'e) stage \<Rightarrow> ('q, 'e) stage \<Rightarrow> ('q, 'e) stage" where
  "and_then s t f = (case s f of (Go, f') \<Rightarrow> t f' | (c, f') \<Rightarrow> (c, f'))"

definition attempt_refund :: "('q, 'e) ports \<Rightarrow> pipe_input \<Rightarrow> ('q, 'e) flow \<Rightarrow> ('q, 'e) flow" where
  "attempt_refund P inp f =
     (if given (pi_key inp) \<and> given (f_usage f) then
        (case p_refund P (pi_ext inp) (the (f_usage f)) (the (pi_key inp)) (f_q f) of
           (Inl x, q) \<Rightarrow> f\<lparr>f_q := q, f_refunded := True, f_ctx := (f_ctx f)\<lparr>c_refund_error := Some x\<rparr>\<rparr>
         | (Inr _, q) \<Rightarrow> f\<lparr>f_q := q, f_refunded := True\<rparr>)
      else f)"

definition reserve_stage :: "('q, 'e) ports \<Rightarrow> pipe_input \<Rightarrow> ('q, 'e) stage" where
  "reserve_stage P inp f =
     (if given (pi_key inp) then
        (case p_reserve P (pi_ext inp) (the (pi_key inp)) (pi_user inp) (f_q f) of
           (Inl x, q) \<Rightarrow> (Thr x, f\<lparr>f_q := q\<rparr>)
         | (Inr (Refuse reason lim), q) \<Rightarrow>
             if reason = Some Conflict then (Ret Fl_Duplicate, f\<lparr>f_q := q\<rparr>)
             else (Ret (Fl_Denied reason lim), quiet_hook P (On_Quota_Denied reason lim) (f\<lparr>f_q := q\<rparr>))
         | (Inr (Allow d), q) \<Rightarrow>
             (Go, f\<lparr>f_q := q, f_usage := d, f_ctx := (f_ctx f)\<lparr>c_usage_date := d\<rparr>\<rparr>))
      else (Go, f))"

definition history_stage :: "('q, 'e) ports \<Rightarrow> pipe_input \<Rightarrow> ('q, 'e) stage" where
  "history_stage P inp f =
     (case p_get_history P (pi_ext inp) (f_e f) of
        (Inl x, e) \<Rightarrow> (Thr x, f\<lparr>f_e := e\<rparr>)
      | (Inr h, e) \<Rightarrow> (Go, f\<lparr>f_e := e, f_history := h\<rparr>))"

definition agent_stage :: "('q, 'e) ports \<Rightarrow> nat \<Rightarrow> pipe_input \<Rightarrow> ('q, 'e) stage" where
  "agent_stage P max_chars inp f =
     (case p_agent P \<lparr>ai_ext = pi_ext inp, ai_user = pi_user inp, ai_text = merged_text max_chars inp,
                      ai_parts = user_text_parts max_chars inp, ai_history = f_history f,
                      ai_correlation = pi_key inp\<rparr> (f_e f) of
        (Inl x, e) \<Rightarrow> (Thr x, f\<lparr>f_e := e\<rparr>)
      | (Inr reply, e) \<Rightarrow> (Go, f\<lparr>f_e := e, f_ctx := (f_ctx f)\<lparr>c_reply := Some reply\<rparr>\<rparr>))"

definition reply_of :: "('q, 'e) flow \<Rightarrow> agent_reply" where
  "reply_of f = the (c_reply (f_ctx f))"

definition deliver :: "('q, 'e) ports \<Rightarrow> pipe_input \<Rightarrow> ('q, 'e) stage" where
  "deliver P inp f =
     (let reply = reply_of f in
      case p_send P (pi_ext inp) (a_text reply)
             (pi_user inp, if given (a_delivery_key reply) then a_delivery_key reply else None,
              a_clarification reply) (f_e f) of
        (Inl x, e) \<Rightarrow> (Thr x, f\<lparr>f_e := e\<rparr>)
      | (Inr s, e) \<Rightarrow>
          (Go, f\<lparr>f_e := e, f_delivered := s_delivered s, f_ctx := (f_ctx f)\<lparr>c_partial := s_partial s\<rparr>,
                 f_limited := (s_outcome s = Some Rate_Limited)\<rparr>))"

definition send_stage :: "('q, 'e) ports \<Rightarrow> pipe_input \<Rightarrow> ('q, 'e) stage" where
  "send_stage P inp f =
     (if a_skip_delivery (reply_of f) then (Go, f\<lparr>f_delivered := True\<rparr>)
      else if js_trim (a_text (reply_of f)) \<noteq> [] then
        and_then (call_hook P On_Before_Send)
          (and_then (call_hook P (On_Step ''before_send'')) (deliver P inp)) f
      else (Go, f))"

definition limited_stage :: "('q, 'e) ports \<Rightarrow> pipe_input \<Rightarrow> ('q, 'e) stage" where
  "limited_stage P inp f =
     (if f_limited f then
        (Ret (Fl_Failed Fr_Rate_Limited), quiet_hook P On_Rate_Limited (attempt_refund P inp f))
      else (Go, f))"

definition unconfirmed_stage :: "('q, 'e) ports \<Rightarrow> pipe_input \<Rightarrow> ('q, 'e) stage" where
  "unconfirmed_stage P inp f =
     (if \<not> f_delivered f \<and> \<not> c_partial (f_ctx f) then
        (let f1 = attempt_refund P inp f;
             f2 = f1\<lparr>f_ctx := (f_ctx f1)\<lparr>c_error := Some Not_Confirmed_Exn\<rparr>, f_hooked := True\<rparr>
         in (Ret (Fl_Failed Fr_Not_Confirmed), quiet_hook P On_Error f2))
      else (Go, f))"

definition clarification_stage :: "('q, 'e) ports \<Rightarrow> pipe_input \<Rightarrow> ('q, 'e) stage" where
  "clarification_stage P inp f =
     (if a_clarification (reply_of f) then
        (let f1 = (if \<not> f_refunded f then attempt_refund P inp f else f)
         in case call_hook P (On_Step ''after_send'') f1 of
              (Go, f2) \<Rightarrow> (Ret Fl_Delivered, f2)
            | (c, f2) \<Rightarrow> (c, f2))
      else (Go, f))"

definition mark_stage :: "('q, 'e) ports \<Rightarrow> pipe_input \<Rightarrow> ('q, 'e) stage" where
  "mark_stage P inp f =
     (if given (pi_key inp) then
        (case p_mark_delivered P (the (pi_key inp)) (f_q f) of
           (Inl x, q) \<Rightarrow> (Thr x, f\<lparr>f_q := q\<rparr>)
         | (Inr _, q) \<Rightarrow> (Go, f\<lparr>f_q := q\<rparr>))
      else (Go, f))"

definition append_stage :: "('q, 'e) ports \<Rightarrow> nat \<Rightarrow> pipe_input \<Rightarrow> ('q, 'e) stage" where
  "append_stage P max_chars inp f =
     (if \<not> a_skip_history (reply_of f) then
        (case p_append_turn P (pi_ext inp) (merged_text max_chars inp) (a_text (reply_of f))
                (a_tool_summary (reply_of f)) (f_e f) of
           (Inl x, e) \<Rightarrow> (Thr x, f\<lparr>f_e := e\<rparr>)
         | (Inr _, e) \<Rightarrow> (Go, f\<lparr>f_e := e\<rparr>))
      else (Go, f))"

definition complete_stage :: "('q, 'e) ports \<Rightarrow> pipe_input \<Rightarrow> ('q, 'e) stage" where
  "complete_stage P inp f =
     (if given (pi_key inp) then
        (case p_mark_completed P (the (pi_key inp)) (f_q f) of
           (Inl x, q) \<Rightarrow>
             (Go, quiet_hook P (On_Step ''quota_finalize_failed'')
                    (f\<lparr>f_q := q, f_ctx := (f_ctx f)\<lparr>c_final_error := Some x\<rparr>\<rparr>))
         | (Inr _, q) \<Rightarrow> (Go, f\<lparr>f_q := q\<rparr>))
      else (Go, f))"

definition after_stage :: "('q, 'e) ports \<Rightarrow> ('q, 'e) stage" where
  "after_stage P f =
     (if f_delivered f then
        and_then (call_hook P (On_Step ''after_send'')) (call_hook P On_After_Send) f
      else (Go, f))"

definition flush_body :: "('q, 'e) ports \<Rightarrow> nat \<Rightarrow> pipe_input \<Rightarrow> ('q, 'e) stage" where
  "flush_body P max_chars inp =
     foldr and_then
       [call_hook P (On_Step ''before_reserve''), reserve_stage P inp,
        call_hook P (On_Step ''before_history''), history_stage P inp,
        call_hook P (On_Step ''before_agent''), agent_stage P max_chars inp,
        send_stage P inp, limited_stage P inp, unconfirmed_stage P inp,
        clarification_stage P inp, mark_stage P inp, append_stage P max_chars inp,
        complete_stage P inp, after_stage P]
       (\<lambda>f. (Ret Fl_Delivered, f))"

definition start_flow :: "nat \<Rightarrow> pipe_input \<Rightarrow> 'q \<Rightarrow> 'e \<Rightarrow> ('q, 'e) flow" where
  "start_flow max_chars inp q e =
     \<lparr>f_q = q, f_e = e,
      f_ctx = \<lparr>c_merged = merged_text max_chars inp, c_usage_date = None, c_reply = None,
               c_error = None, c_refund_error = None, c_final_error = None, c_partial = False,
               c_ambiguous = False\<rparr>,
      f_delivered = False, f_usage = None, f_refunded = False, f_hooked = False,
      f_limited = False, f_history = []\<rparr>"

definition catch_error :: "('q, 'e) ports \<Rightarrow> pipe_input \<Rightarrow> exn \<Rightarrow> ('q, 'e) flow \<Rightarrow> ('q, 'e) flow" where
  "catch_error P inp x f =
     (let f1 = f\<lparr>f_ctx := (f_ctx f)\<lparr>c_ambiguous := p_ambiguous P x\<rparr>\<rparr>;
          f2 = (if \<not> f_delivered f1 \<and> \<not> f_refunded f1 then attempt_refund P inp f1 else f1);
          f3 = f2\<lparr>f_ctx := (f_ctx f2)\<lparr>c_error := Some x\<rparr>\<rparr>
      in if \<not> f_delivered f3 \<and> \<not> f_hooked f3 then quiet_hook P On_Error (f3\<lparr>f_hooked := True\<rparr>)
         else f3)"

definition flush ::
    "('q, 'e) ports \<Rightarrow> nat \<Rightarrow> pipe_input \<Rightarrow> 'q \<Rightarrow> 'e \<Rightarrow> (exn + flush_result) \<times> ('q, 'e) flow" where
  "flush P max_chars inp q e =
     (case flush_body P max_chars inp (start_flow max_chars inp q e) of
        (Ret r, f) \<Rightarrow> (Inr r, f)
      | (Go, f) \<Rightarrow> (Inr Fl_Delivered, f)
      | (Thr x, f) \<Rightarrow> (Inl x, catch_error P inp x f))"

section \<open>Text bounds are prefixes\<close>

definition sep_join :: "bool \<Rightarrow> string list \<Rightarrow> string" where
  "sep_join first parts =
     (if parts = [] then [] else (if first then [] else newline) @ js_join newline parts)"

lemma sep_join_Cons: "sep_join first (part # parts) = (if first then [] else newline) @ part @ sep_join False parts"
  by (cases parts) (simp_all add: sep_join_def)

lemma length_newline [simp]: "length newline = 1"
  by (simp add: newline_def)

lemma sep_join_clip:
  "0 \<le> r \<Longrightarrow> sep_join first (clip_parts first r parts) = take (nat r) (sep_join first parts)"
proof (induction parts arbitrary: first r)
  case Nil
  then show ?case by (simp add: sep_join_def)
next
  case (Cons part parts)
  define sepc where "sepc = (if first then [] else newline)"
  define a where "a = r - int (length sepc)"
  have clip: "clip_parts first r (part # parts) =
      (if a < 0 then [] else if nat a < length part then [take (nat a) part]
       else part # clip_parts False (a - int (length part)) parts)"
    by (auto simp: a_def sepc_def Let_def algebra_simps)
  have J: "sep_join first (x # xs) = sepc @ x @ sep_join False xs" for x xs
    by (simp add: sep_join_Cons sepc_def)
  consider "a < 0" | "0 \<le> a" "nat a < length part" | "0 \<le> a" "length part \<le> nat a" by linarith
  then show ?case
  proof cases
    case 1
    then have "r = 0" using Cons.prems by (auto simp: a_def sepc_def split: if_splits)
    then show ?thesis using 1 clip by (simp add: sep_join_def)
  next
    case 2
    then have "nat r = length sepc + nat a" by (simp add: a_def)
    then show ?thesis using 2 unfolding clip by (simp add: J) (simp add: sep_join_def)
  next
    case 3
    then have "nat r = length sepc + length part + nat (a - int (length part))" by (simp add: a_def)
    moreover have "sep_join False (clip_parts False (a - int (length part)) parts)
        = take (nat (a - int (length part))) (sep_join False parts)"
      using 3 by (intro Cons.IH) simp
    ultimately show ?thesis using 3 unfolding clip by (simp add: J)
  qed
qed

text \<open>C26: Clipping keeps the parts and the merged text in step: the bounded parts, joined with
  newlines, are exactly the first \<open>max\<close> characters of the joined parts, so when no separate
  parts are supplied the agent's parts spell out the merged text it is given.\<close>

theorem capped_parts_are_prefix:
  "js_join newline (cap_user_text_parts parts n) = take n (js_join newline parts)
   \<and> (pi_parts inp = None \<longrightarrow> js_join newline (user_text_parts max_chars inp) = merged_text max_chars inp)"
proof -
  have cap: "js_join newline (cap_user_text_parts ps k) = take k (js_join newline ps)" for ps k
  proof -
    have J: "sep_join True xs = js_join newline xs" for xs
      by (simp add: sep_join_def)
    show ?thesis
      using sep_join_clip [of "int k" True ps] by (simp add: cap_user_text_parts_def J)
  qed
  moreover have "take (min (length xs) k) xs = take k xs" for xs :: string and k
    by (simp add: min_def)
  ultimately show ?thesis by (auto simp: user_text_parts_def merged_text_def)
qed

theorem capped_parts_are_prefix_witness:
  "js_join newline (user_text_parts 5
      \<lparr>pi_ext = ''u'', pi_user = None, pi_texts = [''abc'', ''def''], pi_parts = None, pi_key = None\<rparr>)
   = ''abc'' @ newline @ ''d''"
  using capped_parts_are_prefix [of "[]" 0
      "\<lparr>pi_ext = ''u'', pi_user = None, pi_texts = [''abc'', ''def''], pi_parts = None, pi_key = None\<rparr>" 5]
  by (simp add: merged_text_def newline_def)

section \<open>The rate limiter contract\<close>

text \<open>What the pipeline relies on from its rate limiter: the slot of a key, an invariant of the
  store, and how the four operations move the slot. Every call may throw; a call that throws
  leaves the slot of the key where it was.\<close>

locale quota_ledger =
  fixes P :: "('q, 'e) ports"
    and slot :: "'q \<Rightarrow> string \<Rightarrow> idem_status option"
    and sane :: "'q \<Rightarrow> bool"
    and known :: "ext_id \<Rightarrow> bool"
  assumes reserve_sane: "sane q \<Longrightarrow> known u \<Longrightarrow> sane (snd (p_reserve P u k i q))"
    and reserve_allow: "sane q \<Longrightarrow> known u \<Longrightarrow> p_reserve P u k i q = (Inr (Allow (Some d)), q') \<Longrightarrow>
      slot q' k = Some Reserved \<and> d \<noteq> []"
    and refund_sane: "sane q \<Longrightarrow> sane (snd (p_refund P u d k q))"
    and refund_slot: "sane q \<Longrightarrow> p_refund P u d k q = (r, q') \<Longrightarrow>
      slot q' k = (if isl r \<or> slot q k \<noteq> Some Reserved then slot q k else Some Refunded)"
    and delivered_sane: "sane q \<Longrightarrow> sane (snd (p_mark_delivered P k q))"
    and delivered_slot: "sane q \<Longrightarrow> p_mark_delivered P k q = (r, q') \<Longrightarrow>
      slot q' k = (if isl r \<or> slot q k \<noteq> Some Reserved then slot q k else Some Delivered)"
    and completed_sane: "sane q \<Longrightarrow> sane (snd (p_mark_completed P k q))"
    and completed_slot: "sane q \<Longrightarrow> p_mark_completed P k q = (r, q') \<Longrightarrow>
      slot q' k = (if isl r \<or> slot q k \<notin> {Some Reserved, Some Delivered} then slot q k else Some Completed)"

definition outbound_ok :: "('q, 'e) ports \<Rightarrow> bool" where
  "outbound_ok P \<longleftrightarrow>
     (\<forall>u t o' e s e'. p_send P u t o' e = (Inr s, e') \<longrightarrow> s_outcome s = Some Rate_Limited \<longrightarrow>
        \<not> s_delivered s \<and> \<not> s_partial s)"

section \<open>Where a flush leaves the slot\<close>

definition sent :: "('q, 'e) flow \<Rightarrow> bool" where
  "sent f \<longleftrightarrow> f_delivered f \<or> c_partial (f_ctx f)"

definition clarified :: "('q, 'e) flow \<Rightarrow> bool" where
  "clarified f \<longleftrightarrow> (case c_reply (f_ctx f) of Some r \<Rightarrow> a_clarification r | None \<Rightarrow> False)"

text \<open>The four situations of a flow with respect to the slot \<open>s\<close> of its key: nothing was
  reserved; the slot is held; it was given back (or the refund failed); it is spent.\<close>

definition unreserved :: "('q, 'e) flow \<Rightarrow> bool" where
  "unreserved f \<longleftrightarrow> \<not> given (f_usage f)"

definition holding :: "pipe_input \<Rightarrow> idem_status option \<Rightarrow> ('q, 'e) flow \<Rightarrow> bool" where
  "holding inp s f \<longleftrightarrow> given (pi_key inp) \<and> given (f_usage f) \<and> s = Some Reserved \<and> \<not> f_refunded f"

definition given_back :: "idem_status option \<Rightarrow> ('q, 'e) flow \<Rightarrow> bool" where
  "given_back s f \<longleftrightarrow> given (f_usage f) \<and> f_refunded f \<and> (f_delivered f \<longrightarrow> clarified f)
     \<and> (s = Some Refunded \<or> (s = Some Reserved \<and> c_refund_error (f_ctx f) \<noteq> None))"

definition spent :: "idem_status option \<Rightarrow> ('q, 'e) flow \<Rightarrow> bool" where
  "spent s f \<longleftrightarrow> given (f_usage f) \<and> sent f \<and> s \<in> {Some Delivered, Some Completed}"

lemmas situation_defs = unreserved_def holding_def given_back_def spent_def sent_def clarified_def

text \<open>Triples for stages: a precondition, a postcondition for continuing, and one condition for
  the two ways of leaving the block.\<close>

definition triple ::
    "(('q, 'e) flow \<Rightarrow> bool) \<Rightarrow> ('q, 'e) stage \<Rightarrow> (('q, 'e) flow \<Rightarrow> bool) \<Rightarrow>
     (exn + flush_result \<Rightarrow> ('q, 'e) flow \<Rightarrow> bool) \<Rightarrow> bool" where
  "triple pre st post leave \<longleftrightarrow>
     (\<forall>f c f'. pre f \<longrightarrow> st f = (c, f') \<longrightarrow>
        (case c of Go \<Rightarrow> post f' | Ret r \<Rightarrow> leave (Inr r) f' | Thr x \<Rightarrow> leave (Inl x) f'))"

lemma tripleI:
  "(\<And>f c f'. pre f \<Longrightarrow> st f = (c, f') \<Longrightarrow>
     (case c of Go \<Rightarrow> post f' | Ret r \<Rightarrow> leave (Inr r) f' | Thr x \<Rightarrow> leave (Inl x) f')) \<Longrightarrow>
   triple pre st post leave"
  by (simp add: triple_def)

lemma triple_then:
  assumes "triple pre s mid leave" "triple mid t post leave"
  shows "triple pre (and_then s t) post leave"
proof (rule tripleI)
  fix f c f'
  assume pre: "pre f" and run: "and_then s t f = (c, f')"
  obtain c1 f1 where s: "s f = (c1, f1)" by (cases "s f")
  have "case c1 of Go \<Rightarrow> mid f1 | Ret r \<Rightarrow> leave (Inr r) f1 | Thr x \<Rightarrow> leave (Inl x) f1"
    using assms(1) pre s by (simp add: triple_def)
  then show "case c of Go \<Rightarrow> post f' | Ret r \<Rightarrow> leave (Inr r) f' | Thr x \<Rightarrow> leave (Inl x) f'"
    using assms(2) run s by (cases c1) (auto simp: and_then_def triple_def)
qed

lemma triple_pre: "triple pre s post leave \<Longrightarrow> (\<And>f. pre' f \<Longrightarrow> pre f) \<Longrightarrow> triple pre' s post leave"
  by (auto simp: triple_def)

lemma triple_hook:
  assumes "\<And>f e. pre f \<Longrightarrow> pre (f\<lparr>f_e := e\<rparr>)" "\<And>f x. pre f \<Longrightarrow> leave (Inl x) f"
  shows "triple pre (call_hook P h) pre leave"
  by (rule tripleI) (auto simp: call_hook_def assms split: prod.splits sum.splits)

text \<open>Assertions between the stages.\<close>

definition open_flow ::
    "('q \<Rightarrow> string \<Rightarrow> idem_status option) \<Rightarrow> ('q \<Rightarrow> bool) \<Rightarrow> pipe_input \<Rightarrow> ('q, 'e) flow \<Rightarrow> bool" where
  "open_flow sl sane inp f \<longleftrightarrow>
     sane (f_q f) \<and> (unreserved f \<or> holding inp (sl (f_q f) (the (pi_key inp))) f) \<and> \<not> f_refunded f"

definition before_send ::
    "('q \<Rightarrow> string \<Rightarrow> idem_status option) \<Rightarrow> ('q \<Rightarrow> bool) \<Rightarrow> pipe_input \<Rightarrow> ('q, 'e) flow \<Rightarrow> bool" where
  "before_send sl sane inp f \<longleftrightarrow>
     open_flow sl sane inp f \<and> \<not> f_delivered f \<and> \<not> c_partial (f_ctx f) \<and> \<not> f_limited f"

definition has_reply :: "('q, 'e) flow \<Rightarrow> bool" where
  "has_reply f \<longleftrightarrow> c_reply (f_ctx f) \<noteq> None"

definition after_send ::
    "('q \<Rightarrow> string \<Rightarrow> idem_status option) \<Rightarrow> ('q \<Rightarrow> bool) \<Rightarrow> pipe_input \<Rightarrow> ('q, 'e) flow \<Rightarrow> bool" where
  "after_send sl sane inp f \<longleftrightarrow> open_flow sl sane inp f \<and> has_reply f \<and> (f_limited f \<longrightarrow> \<not> sent f)"

definition confirmed ::
    "('q \<Rightarrow> string \<Rightarrow> idem_status option) \<Rightarrow> ('q \<Rightarrow> bool) \<Rightarrow> pipe_input \<Rightarrow> ('q, 'e) flow \<Rightarrow> bool" where
  "confirmed sl sane inp f \<longleftrightarrow> open_flow sl sane inp f \<and> has_reply f \<and> sent f"

definition recorded ::
    "('q \<Rightarrow> string \<Rightarrow> idem_status option) \<Rightarrow> ('q \<Rightarrow> bool) \<Rightarrow> pipe_input \<Rightarrow> ('q, 'e) flow \<Rightarrow> bool" where
  "recorded sl sane inp f \<longleftrightarrow>
     sane (f_q f) \<and> (unreserved f \<or> spent (sl (f_q f) (the (pi_key inp))) f) \<and> sent f"

definition leaving ::
    "('q \<Rightarrow> string \<Rightarrow> idem_status option) \<Rightarrow> ('q \<Rightarrow> bool) \<Rightarrow> pipe_input \<Rightarrow>
     exn + flush_result \<Rightarrow> ('q, 'e) flow \<Rightarrow> bool" where
  "leaving sl sane inp res f \<longleftrightarrow>
     sane (f_q f) \<and>
     (let s = sl (f_q f) (the (pi_key inp)) in
      case res of
        Inl x \<Rightarrow> unreserved f \<or> holding inp s f \<or> given_back s f \<or> spent s f
      | Inr r \<Rightarrow> (unreserved f \<or> given_back s f \<or> spent s f)
          \<and> (r = Fl_Delivered \<longrightarrow> sent f \<and> (clarified f \<or> unreserved f \<or> spent s f)))"

definition settled ::
    "('q \<Rightarrow> string \<Rightarrow> idem_status option) \<Rightarrow> pipe_input \<Rightarrow> exn + flush_result \<Rightarrow> ('q, 'e) flow \<Rightarrow> bool" where
  "settled sl inp res f \<longleftrightarrow>
     (let s = sl (f_q f) (the (pi_key inp)) in
      (unreserved f \<or> given_back s f \<or> spent s f \<or> (holding inp s f \<and> f_delivered f \<and> isl res))
      \<and> (res = Inr Fl_Delivered \<longrightarrow> sent f \<and> (clarified f \<or> unreserved f \<or> spent s f)))"

lemmas assertion_defs = open_flow_def before_send_def after_send_def confirmed_def recorded_def
  leaving_def has_reply_def

context quota_ledger
begin

text \<open>A refund attempt on a held slot gives it back or records the failure.\<close>

lemma attempt_refund_holding:
  assumes "sane (f_q f)" "holding inp (slot (f_q f) (the (pi_key inp))) f"
    and "f_delivered f \<longrightarrow> clarified f"
  shows "sane (f_q (attempt_refund P inp f))
    \<and> given_back (slot (f_q (attempt_refund P inp f)) (the (pi_key inp))) (attempt_refund P inp f)"
proof -
  obtain r q' where r: "p_refund P (pi_ext inp) (the (f_usage f)) (the (pi_key inp)) (f_q f) = (r, q')"
    by (cases "p_refund P (pi_ext inp) (the (f_usage f)) (the (pi_key inp)) (f_q f)")
  have sane': "sane q'" using refund_sane [OF assms(1)] r by (metis snd_conv)
  have "slot q' (the (pi_key inp)) = (if isl r then Some Reserved else Some Refunded)"
    using refund_slot [OF assms(1) r] assms(2) by (auto simp: holding_def)
  then show ?thesis
    using assms(2,3) r sane'
    by (cases r) (auto simp: attempt_refund_def situation_defs)
qed

lemma attempt_refund_unreserved: "unreserved f \<Longrightarrow> attempt_refund P inp f = f"
  by (simp add: unreserved_def attempt_refund_def)

text \<open>A refund attempt after the delivery was recorded does not take the slot back.\<close>

lemma attempt_refund_spent:
  assumes "sane (f_q f)" "spent (slot (f_q f) (the (pi_key inp))) f"
  shows "sane (f_q (attempt_refund P inp f))
    \<and> spent (slot (f_q (attempt_refund P inp f)) (the (pi_key inp))) (attempt_refund P inp f)"
proof -
  obtain r q' where r: "p_refund P (pi_ext inp) (the (f_usage f)) (the (pi_key inp)) (f_q f) = (r, q')"
    by (cases "p_refund P (pi_ext inp) (the (f_usage f)) (the (pi_key inp)) (f_q f)")
  have sane': "sane q'" using refund_sane [OF assms(1)] r by (metis snd_conv)
  have "slot q' (the (pi_key inp)) = slot (f_q f) (the (pi_key inp))"
    using refund_slot [OF assms(1) r] assms(2) by (auto simp: spent_def)
  then show ?thesis
    using assms r sane'
    by (cases r) (auto simp: attempt_refund_def spent_def sent_def)
qed

lemma reserve_triple:
  assumes "known (pi_ext inp)"
  shows "triple (\<lambda>f. before_send slot sane inp f \<and> f_usage f = None) (reserve_stage P inp)
    (before_send slot sane inp) (leaving slot sane inp)"
proof (rule tripleI)
  fix f c f'
  assume pre: "before_send slot sane inp f \<and> f_usage f = None" and run: "reserve_stage P inp f = (c, f')"
  show "case c of Go \<Rightarrow> before_send slot sane inp f' | Ret r \<Rightarrow> leaving slot sane inp (Inr r) f'
    | Thr x \<Rightarrow> leaving slot sane inp (Inl x) f'"
  proof (cases "given (pi_key inp)")
    case False
    then show ?thesis using pre run by (auto simp: reserve_stage_def)
  next
    case True
    have sane: "sane (f_q f)" using pre by (simp add: assertion_defs)
    obtain r q' where r: "p_reserve P (pi_ext inp) (the (pi_key inp)) (pi_user inp) (f_q f) = (r, q')"
      by (cases "p_reserve P (pi_ext inp) (the (pi_key inp)) (pi_user inp) (f_q f)")
    have sane': "sane q'" using reserve_sane [OF sane assms] r by (metis snd_conv)
    consider x where "r = Inl x" | why lim where "r = Inr (Refuse why lim)" | "r = Inr (Allow None)"
      | d where "r = Inr (Allow (Some d))"
      by (metis old.sum.exhaust option.exhaust reserve_result.exhaust)
    then show ?thesis
    proof cases
      case 4
      then have "slot q' (the (pi_key inp)) = Some Reserved \<and> d \<noteq> []"
        using reserve_allow [OF sane assms] r by blast
      then show ?thesis
        using 4 True pre run r sane'
        by (auto simp: reserve_stage_def assertion_defs situation_defs given_def)
    qed (use True pre run r sane' in \<open>auto simp: reserve_stage_def assertion_defs situation_defs
        quiet_hook_def given_def split: if_splits\<close>)
  qed
qed

lemma history_triple:
  "triple (before_send slot sane inp) (history_stage P inp) (before_send slot sane inp) (leaving slot sane inp)"
  by (rule tripleI)
    (auto simp: history_stage_def assertion_defs situation_defs split: prod.splits sum.splits)

lemma agent_triple:
  "triple (before_send slot sane inp) (agent_stage P n inp)
     (\<lambda>f. before_send slot sane inp f \<and> has_reply f) (leaving slot sane inp)"
  by (rule tripleI)
    (auto simp: agent_stage_def assertion_defs situation_defs split: prod.splits sum.splits)

lemma deliver_triple:
  assumes "outbound_ok P"
  shows "triple (\<lambda>f. before_send slot sane inp f \<and> has_reply f) (deliver P inp)
    (after_send slot sane inp) (leaving slot sane inp)"
proof (rule tripleI)
  fix f c f'
  assume pre: "before_send slot sane inp f \<and> has_reply f" and run: "deliver P inp f = (c, f')"
  define o' where "o' = (pi_user inp, if given (a_delivery_key (reply_of f)) then a_delivery_key (reply_of f)
     else None, a_clarification (reply_of f))"
  obtain r e where r: "p_send P (pi_ext inp) (a_text (reply_of f)) o' (f_e f) = (r, e)"
    by (cases "p_send P (pi_ext inp) (a_text (reply_of f)) o' (f_e f)")
  have lim: "\<not> s_delivered s \<and> \<not> s_partial s" if "r = Inr s" "s_outcome s = Some Rate_Limited" for s
    using assms r that unfolding outbound_ok_def by blast
  show "case c of Go \<Rightarrow> after_send slot sane inp f' | Ret r \<Rightarrow> leaving slot sane inp (Inr r) f'
    | Thr x \<Rightarrow> leaving slot sane inp (Inl x) f'"
    using pre run r lim
    by (cases r) (auto simp: deliver_def Let_def o'_def [symmetric] assertion_defs situation_defs)
qed

lemma send_triple:
  assumes "outbound_ok P"
  shows "triple (\<lambda>f. before_send slot sane inp f \<and> has_reply f) (send_stage P inp)
    (after_send slot sane inp) (leaving slot sane inp)"
proof -
  let ?pre = "\<lambda>f. before_send slot sane inp f \<and> has_reply f"
  have hook: "triple ?pre (call_hook P h) ?pre (leaving slot sane inp)" for h
    by (rule triple_hook) (auto simp: assertion_defs situation_defs)
  have "triple ?pre (and_then (call_hook P On_Before_Send)
      (and_then (call_hook P (On_Step ''before_send'')) (deliver P inp)))
      (after_send slot sane inp) (leaving slot sane inp)"
    by (intro triple_then [OF hook] deliver_triple assms)
  then show ?thesis
    unfolding triple_def
    by (fastforce simp: send_stage_def assertion_defs situation_defs split: if_splits)
qed

lemma refund_leaves:
  assumes "open_flow slot sane inp f" "f_delivered f \<longrightarrow> clarified f"
  shows "sane (f_q (attempt_refund P inp f)) \<and>
    (unreserved (attempt_refund P inp f)
     \<or> given_back (slot (f_q (attempt_refund P inp f)) (the (pi_key inp))) (attempt_refund P inp f))"
  using assms attempt_refund_holding [of f inp] attempt_refund_unreserved [of f inp]
  by (auto simp: open_flow_def)

lemma attempt_refund_frame [simp]:
  "c_reply (f_ctx (attempt_refund P inp f)) = c_reply (f_ctx f)"
  "f_delivered (attempt_refund P inp f) = f_delivered f"
  "c_partial (f_ctx (attempt_refund P inp f)) = c_partial (f_ctx f)"
  "f_usage (attempt_refund P inp f) = f_usage f"
  by (auto simp: attempt_refund_def split: prod.splits sum.splits)

lemma limited_triple:
  "triple (after_send slot sane inp) (limited_stage P inp)
     (\<lambda>f. after_send slot sane inp f \<and> \<not> f_limited f) (leaving slot sane inp)"
proof (rule tripleI)
  fix f c f'
  assume pre: "after_send slot sane inp f" and run: "limited_stage P inp f = (c, f')"
  show "case c of Go \<Rightarrow> after_send slot sane inp f' \<and> \<not> f_limited f'
    | Ret r \<Rightarrow> leaving slot sane inp (Inr r) f' | Thr x \<Rightarrow> leaving slot sane inp (Inl x) f'"
  proof (cases "f_limited f")
    case True
    then have "open_flow slot sane inp f" "\<not> f_delivered f"
      using pre by (simp_all add: after_send_def sent_def)
    then show ?thesis
      using refund_leaves [of inp f] run True
      by (auto simp: limited_stage_def leaving_def quiet_hook_def situation_defs)
  qed (use pre run in \<open>auto simp: limited_stage_def\<close>)
qed

lemma unconfirmed_triple:
  "triple (after_send slot sane inp) (unconfirmed_stage P inp) (confirmed slot sane inp) (leaving slot sane inp)"
proof (rule tripleI)
  fix f c f'
  assume pre: "after_send slot sane inp f" and run: "unconfirmed_stage P inp f = (c, f')"
  show "case c of Go \<Rightarrow> confirmed slot sane inp f' | Ret r \<Rightarrow> leaving slot sane inp (Inr r) f'
    | Thr x \<Rightarrow> leaving slot sane inp (Inl x) f'"
  proof (cases "sent f")
    case False
    then show ?thesis
      using refund_leaves [of inp f] run pre
      by (auto simp: unconfirmed_stage_def leaving_def quiet_hook_def situation_defs after_send_def Let_def)
  qed (use pre run in \<open>auto simp: unconfirmed_stage_def sent_def after_send_def confirmed_def\<close>)
qed

lemma clarification_triple:
  "triple (confirmed slot sane inp) (clarification_stage P inp)
     (\<lambda>f. confirmed slot sane inp f \<and> \<not> clarified f) (leaving slot sane inp)"
proof (rule tripleI)
  fix f c f'
  assume pre: "confirmed slot sane inp f" and run: "clarification_stage P inp f = (c, f')"
  have clar: "a_clarification (reply_of f) \<longleftrightarrow> clarified f"
    using pre by (auto simp: confirmed_def has_reply_def clarified_def reply_of_def)
  show "case c of Go \<Rightarrow> confirmed slot sane inp f' \<and> \<not> clarified f'
    | Ret r \<Rightarrow> leaving slot sane inp (Inr r) f' | Thr x \<Rightarrow> leaving slot sane inp (Inl x) f'"
  proof (cases "clarified f")
    case True
    let ?f1 = "attempt_refund P inp f"
    have f1: "sane (f_q ?f1)" "unreserved ?f1 \<or> given_back (slot (f_q ?f1) (the (pi_key inp))) ?f1"
      using refund_leaves [of inp f] pre True by (auto simp: confirmed_def)
    have "\<not> f_refunded f" using pre by (simp add: confirmed_def open_flow_def)
    then obtain e where "f' = ?f1\<lparr>f_e := e\<rparr>" "c = Ret Fl_Delivered \<or> (\<exists>x. c = Thr x)"
      using run True clar
      by (auto simp: clarification_stage_def call_hook_def Let_def split: prod.splits sum.splits)
    then show ?thesis
      using f1 pre True by (auto simp: leaving_def situation_defs confirmed_def)
  qed (use pre run clar in \<open>auto simp: clarification_stage_def\<close>)
qed

lemma mark_triple:
  "triple (confirmed slot sane inp) (mark_stage P inp) (recorded slot sane inp) (leaving slot sane inp)"
proof (rule tripleI)
  fix f c f'
  assume pre: "confirmed slot sane inp f" and run: "mark_stage P inp f = (c, f')"
  show "case c of Go \<Rightarrow> recorded slot sane inp f' | Ret r \<Rightarrow> leaving slot sane inp (Inr r) f'
    | Thr x \<Rightarrow> leaving slot sane inp (Inl x) f'"
  proof (cases "given (pi_key inp)")
    case True
    have sane: "sane (f_q f)" using pre by (simp add: assertion_defs)
    obtain r q' where r: "p_mark_delivered P (the (pi_key inp)) (f_q f) = (r, q')"
      by (cases "p_mark_delivered P (the (pi_key inp)) (f_q f)")
    have "sane q'" using delivered_sane [OF sane] r by (metis snd_conv)
    then show ?thesis
      using delivered_slot [OF sane r] pre run r True
      by (cases r) (auto simp: mark_stage_def assertion_defs situation_defs)
  qed (use pre run in \<open>auto simp: mark_stage_def assertion_defs situation_defs\<close>)
qed

lemma append_triple:
  "triple (recorded slot sane inp) (append_stage P n inp) (recorded slot sane inp) (leaving slot sane inp)"
  by (rule tripleI)
    (auto simp: append_stage_def recorded_def leaving_def situation_defs split: prod.splits sum.splits if_splits)

lemma complete_triple:
  "triple (recorded slot sane inp) (complete_stage P inp) (recorded slot sane inp) (leaving slot sane inp)"
proof (rule tripleI)
  fix f c f'
  assume pre: "recorded slot sane inp f" and run: "complete_stage P inp f = (c, f')"
  show "case c of Go \<Rightarrow> recorded slot sane inp f' | Ret r \<Rightarrow> leaving slot sane inp (Inr r) f'
    | Thr x \<Rightarrow> leaving slot sane inp (Inl x) f'"
  proof (cases "given (pi_key inp)")
    case True
    have sane: "sane (f_q f)" using pre by (simp add: recorded_def)
    obtain r q' where r: "p_mark_completed P (the (pi_key inp)) (f_q f) = (r, q')"
      by (cases "p_mark_completed P (the (pi_key inp)) (f_q f)")
    have "sane q'" using completed_sane [OF sane] r by (metis snd_conv)
    then show ?thesis
      using completed_slot [OF sane r] pre run r True
      by (cases r) (auto simp: complete_stage_def recorded_def quiet_hook_def situation_defs split: if_splits)
  qed (use pre run in \<open>auto simp: complete_stage_def\<close>)
qed

lemma after_triple:
  "triple (recorded slot sane inp) (after_stage P) (recorded slot sane inp) (leaving slot sane inp)"
proof -
  have hook: "triple (recorded slot sane inp) (call_hook P h) (recorded slot sane inp) (leaving slot sane inp)" for h
    by (rule triple_hook) (auto simp: recorded_def leaving_def situation_defs)
  have "triple (recorded slot sane inp)
      (and_then (call_hook P (On_Step ''after_send'')) (call_hook P On_After_Send))
      (recorded slot sane inp) (leaving slot sane inp)"
    by (rule triple_then [OF hook hook])
  then show ?thesis unfolding triple_def by (simp add: after_stage_def)
qed

lemma flush_body_triple:
  assumes "known (pi_ext inp)" "outbound_ok P"
  shows "triple (\<lambda>f. before_send slot sane inp f \<and> f_usage f = None) (flush_body P n inp) (\<lambda>_. False)
    (leaving slot sane inp)"
proof -
  let ?start = "\<lambda>f. before_send slot sane inp f \<and> f_usage f = None"
  have hook: "triple ?start (call_hook P h) ?start (leaving slot sane inp)"
    "triple (before_send slot sane inp) (call_hook P h) (before_send slot sane inp) (leaving slot sane inp)" for h
    by (rule triple_hook; auto simp: assertion_defs situation_defs)+
  have last: "triple (recorded slot sane inp) (\<lambda>f. (Ret Fl_Delivered, f)) (\<lambda>_. False) (leaving slot sane inp)"
    by (rule tripleI) (auto simp: recorded_def leaving_def Let_def)
  have limited: "triple (\<lambda>f. after_send slot sane inp f \<and> \<not> f_limited f) (unconfirmed_stage P inp)
      (confirmed slot sane inp) (leaving slot sane inp)"
    by (rule triple_pre [OF unconfirmed_triple]) simp
  have marked: "triple (\<lambda>f. confirmed slot sane inp f \<and> \<not> clarified f) (mark_stage P inp)
      (recorded slot sane inp) (leaving slot sane inp)"
    by (rule triple_pre [OF mark_triple]) simp
  show ?thesis
    unfolding flush_body_def foldr.simps o_apply id_apply
    by (rule triple_then [OF hook(1)] triple_then [OF reserve_triple [OF assms(1)]]
        triple_then [OF hook(2)] triple_then [OF history_triple] triple_then [OF agent_triple]
        triple_then [OF send_triple [OF assms(2)]] triple_then [OF limited_triple]
        triple_then [OF limited] triple_then [OF clarification_triple] triple_then [OF marked]
        triple_then [OF append_triple] triple_then [OF complete_triple] triple_then [OF after_triple]
        last)+
qed

text \<open>The handler gives a held, undelivered slot back and takes no spent slot.\<close>

lemma catch_settles:
  assumes "leaving slot sane inp (Inl x) f"
  shows "sane (f_q (catch_error P inp x f)) \<and> settled slot inp (Inl x) (catch_error P inp x f)"
proof -
  let ?k = "the (pi_key inp)"
  define f1 where "f1 = f\<lparr>f_ctx := (f_ctx f)\<lparr>c_ambiguous := p_ambiguous P x\<rparr>\<rparr>"
  define f2 where "f2 = (if \<not> f_delivered f1 \<and> \<not> f_refunded f1 then attempt_refund P inp f1 else f1)"
  have sane1: "sane (f_q f1)"
    and cases1: "unreserved f1 \<or> holding inp (slot (f_q f1) ?k) f1 \<or> given_back (slot (f_q f1) ?k) f1
      \<or> spent (slot (f_q f1) ?k) f1"
    using assms by (auto simp: leaving_def f1_def situation_defs Let_def)
  have f2: "sane (f_q f2)" "unreserved f2 \<or> given_back (slot (f_q f2) ?k) f2 \<or> spent (slot (f_q f2) ?k) f2
      \<or> (holding inp (slot (f_q f2) ?k) f2 \<and> f_delivered f2)"
    using cases1 sane1 attempt_refund_holding [OF sane1, of inp] attempt_refund_spent [OF sane1, of inp]
      attempt_refund_unreserved [of f1 inp]
    by (auto simp: f2_def holding_def given_back_def)
  obtain c e h where "catch_error P inp x f = f2\<lparr>f_ctx := (f_ctx f2)\<lparr>c_error := c\<rparr>, f_e := e, f_hooked := h\<rparr>"
    by (rule that [where c = "Some x" and e = "f_e (catch_error P inp x f)" and h = "f_hooked (catch_error P inp x f)"])
      (simp add: catch_error_def f1_def [symmetric] f2_def [symmetric] quiet_hook_def Let_def)
  then show ?thesis
    using f2 by (auto simp: settled_def situation_defs Let_def)
qed

lemma flush_settles:
  assumes "sane q" "known (pi_ext inp)" "outbound_ok P" "flush P n inp q e = (res, f)"
  shows "sane (f_q f) \<and> settled slot inp res f"
proof -
  obtain c f1 where body: "flush_body P n inp (start_flow n inp q e) = (c, f1)"
    by (cases "flush_body P n inp (start_flow n inp q e)")
  have "before_send slot sane inp (start_flow n inp q e) \<and> f_usage (start_flow n inp q e) = None"
    using assms(1) by (simp add: start_flow_def assertion_defs situation_defs given_def)
  then have leave: "case c of Go \<Rightarrow> False | Ret r \<Rightarrow> leaving slot sane inp (Inr r) f1
      | Thr x \<Rightarrow> leaving slot sane inp (Inl x) f1"
    using flush_body_triple [OF assms(2,3), of n] body by (simp add: triple_def)
  show ?thesis
  proof (cases c)
    case (Ret r)
    then show ?thesis
      using leave body assms(4) by (auto simp: flush_def leaving_def settled_def Let_def)
  next
    case (Thr x)
    then show ?thesis
      using leave body assms(4) catch_settles [of inp x f1] by (auto simp: flush_def)
  qed (use leave in simp)
qed

end

section \<open>The platform adapters\<close>

datatype quota_call = Call_Reserve | Call_Refund | Call_Delivered | Call_Completed

text \<open>\<open>down\<close> says which calls find the database unreachable: such a call throws before it
  changes anything.\<close>

definition adapter_reserve ::
    "(quota_call \<Rightarrow> bool) \<Rightarrow> (millis \<Rightarrow> ext_id \<Rightarrow> int \<Rightarrow> quota_db \<Rightarrow> 'b \<Rightarrow> (bool \<times> nat) \<times> 'b) \<Rightarrow>
     (millis \<Rightarrow> ext_id \<Rightarrow> 'b \<Rightarrow> 'b) \<Rightarrow> quota_repo \<Rightarrow> quota_settings \<Rightarrow> (millis \<Rightarrow> date_str) \<Rightarrow> ticks \<Rightarrow>
     ext_id \<Rightarrow> string \<Rightarrow> user_id option \<Rightarrow> quota_db \<times> 'b \<Rightarrow> (exn + reserve_result) \<times> quota_db \<times> 'b" where
  "adapter_reserve down tryb rel R S today T u k i st =
     (if down Call_Reserve then (Inl (Port_Exn ''db''), st)
      else
        (case reserve_free_form_slot tryb rel R S today T u i k st of
           (Inl e, st') \<Rightarrow> (Inl (Quota_Exn e), st')
         | (Inr res, st') \<Rightarrow>
             (Inr (if \<not> qc_allowed res then Refuse (qc_reason res) (qc_limit res)
                   else Allow (if qc_reserved res then Some (qc_date res) else None)), st')))"

definition adapter_refund ::
    "(quota_call \<Rightarrow> bool) \<Rightarrow> quota_repo \<Rightarrow> ext_id \<Rightarrow> date_str \<Rightarrow> string \<Rightarrow> quota_db \<times> 'b \<Rightarrow>
     (exn + unit) \<times> quota_db \<times> 'b" where
  "adapter_refund down R u d k st =
     (if down Call_Refund then (Inl (Port_Exn ''db''), st)
      else
        (case refund_free_form_slot R k (fst st) of
           (Inl e, db) \<Rightarrow> (Inl (Quota_Exn e), (db, snd st))
         | (Inr _, db) \<Rightarrow> (Inr (), (db, snd st))))"

definition adapter_mark ::
    "(quota_call \<Rightarrow> bool) \<Rightarrow> quota_call \<Rightarrow> (string \<Rightarrow> quota_db \<Rightarrow> quota_db) \<Rightarrow> string \<Rightarrow> quota_db \<times> 'b \<Rightarrow>
     (exn + unit) \<times> quota_db \<times> 'b" where
  "adapter_mark down call op k st =
     (if down call then (Inl (Port_Exn ''db''), st) else (Inr (), (op k (fst st), snd st)))"

definition adapter_send ::
    "(ext_id \<Rightarrow> string \<Rightarrow> user_id option \<times> string option \<times> bool \<Rightarrow> 'e \<Rightarrow> (exn + delivery_outcome option) \<times> 'e) \<Rightarrow>
     ext_id \<Rightarrow> string \<Rightarrow> user_id option \<times> string option \<times> bool \<Rightarrow> 'e \<Rightarrow> (exn + send_result) \<times> 'e" where
  "adapter_send send u t opts e =
     (case send u t opts e of
        (Inl x, e') \<Rightarrow> (Inl x, e')
      | (Inr outcome, e') \<Rightarrow>
          (Inr (if outcome \<in> {Some Rate_Limited, Some Ambiguous, Some Not_Sent}
                then \<lparr>s_delivered = False, s_outcome = outcome, s_partial = False\<rparr>
                else \<lparr>s_delivered = True, s_outcome = Some Sent, s_partial = False\<rparr>), e'))"

definition adapter_append ::
    "(ext_id \<Rightarrow> string \<Rightarrow> string \<Rightarrow> 'e \<Rightarrow> (exn + unit) \<times> 'e) \<Rightarrow> (ext_id \<Rightarrow> string \<Rightarrow> 'e \<Rightarrow> (exn + unit) \<times> 'e) \<Rightarrow>
     ext_id \<Rightarrow> string \<Rightarrow> string \<Rightarrow> string option \<Rightarrow> 'e \<Rightarrow> (exn + unit) \<times> 'e" where
  "adapter_append turn summary u t a s e =
     (case turn u t a e of
        (Inl x, e') \<Rightarrow> (Inl x, e')
      | (Inr _, e') \<Rightarrow> if given s then summary u (the s) e' else (Inr (), e'))"

text \<open>What a platform supplies besides the quota engine.\<close>

record 'e platform =
  pl_history :: "ext_id \<Rightarrow> 'e \<Rightarrow> (exn + chat_msg list) \<times> 'e"
  pl_turn :: "ext_id \<Rightarrow> string \<Rightarrow> string \<Rightarrow> 'e \<Rightarrow> (exn + unit) \<times> 'e"
  pl_summary :: "ext_id \<Rightarrow> string \<Rightarrow> 'e \<Rightarrow> (exn + unit) \<times> 'e"
  pl_agent :: "agent_input \<Rightarrow> 'e \<Rightarrow> (exn + agent_reply) \<times> 'e"
  pl_send :: "ext_id \<Rightarrow> string \<Rightarrow> user_id option \<times> string option \<times> bool \<Rightarrow> 'e \<Rightarrow> (exn + delivery_outcome option) \<times> 'e"
  pl_ambiguous :: "exn \<Rightarrow> bool"
  pl_hook :: "hook \<Rightarrow> pctx \<Rightarrow> 'e \<Rightarrow> (exn + unit) \<times> 'e"

definition chat_pipeline_adapters ::
    "(quota_call \<Rightarrow> bool) \<Rightarrow> (millis \<Rightarrow> ext_id \<Rightarrow> int \<Rightarrow> quota_db \<Rightarrow> 'b \<Rightarrow> (bool \<times> nat) \<times> 'b) \<Rightarrow>
     (millis \<Rightarrow> ext_id \<Rightarrow> 'b \<Rightarrow> 'b) \<Rightarrow> quota_repo \<Rightarrow> quota_settings \<Rightarrow> (millis \<Rightarrow> date_str) \<Rightarrow> ticks \<Rightarrow>
     'e platform \<Rightarrow> (quota_db \<times> 'b, 'e) ports" where
  "chat_pipeline_adapters down tryb rel R S today T pl =
     \<lparr>p_reserve = adapter_reserve down tryb rel R S today T,
      p_refund = adapter_refund down R,
      p_mark_delivered = adapter_mark down Call_Delivered (mark_delivered R),
      p_mark_completed = adapter_mark down Call_Completed (mark_completed R),
      p_get_history = pl_history pl, p_append_turn = adapter_append (pl_turn pl) (pl_summary pl),
      p_agent = pl_agent pl, p_send = adapter_send (pl_send pl), p_ambiguous = pl_ambiguous pl,
      p_hook = pl_hook pl\<rparr>"

lemma adapters_outbound_ok: "outbound_ok (chat_pipeline_adapters down tryb rel R S today T pl)"
  by (auto simp: outbound_ok_def chat_pipeline_adapters_def adapter_send_def
      split: prod.splits sum.splits if_splits)

definition quota_slot :: "quota_repo \<Rightarrow> quota_db \<times> 'b \<Rightarrow> string \<Rightarrow> idem_status option" where
  "quota_slot R st k = map_option i_status (find_idem R k (fst st))"

definition quota_sane :: "quota_db \<times> 'b \<Rightarrow> bool" where
  "quota_sane st \<longleftrightarrow> books (fst st)"

lemma core_reserve_date:
  assumes "reserve_free_form_slot tryb rel R S today T u i k st = (Inr res, st')" "qc_reserved res"
  shows "qc_date res = today (t_begin T)"
  using assms
  by (auto simp: reserve_free_form_slot_def reserve_and_rollback_burst_def core_reserve_input_def
      deny_def Let_def split: prod.splits sum.splits reserve_outcome.splits)

lemma adapter_reserve_law:
  assumes "repo_ok R" "quota_sane st" "plain_ids u (today (t_begin T))"
    and "adapter_reserve down tryb rel R S today T u k i st = (r, st')"
  shows "quota_sane st'" and "r = Inr (Allow (Some d)) \<Longrightarrow> quota_slot R st' k = Some Reserved \<and> d \<noteq> []"
proof -
  obtain db b where st: "st = (db, b)" by (cases st)
  have books: "books db" using assms(2) by (simp add: quota_sane_def st)
  obtain res db' b' where c: "reserve_free_form_slot tryb rel R S today T u i k st = (Inr res, db', b')"
    "books db'" "if qc_reserved res then granted_in R (core_reserve_input S today T u i k) db'
       else usage_mset (usage db') \<subseteq># usage_mset (usage db)"
    using core_reserve_outcome [OF assms(1) books, where today = today and T = T, OF assms(3),
        of tryb rel S i k b] st by auto
  show "quota_sane st'"
    using assms(2,4) c(1,2) by (auto simp: adapter_reserve_def quota_sane_def split: if_splits)
  show "quota_slot R st' k = Some Reserved \<and> d \<noteq> []" if "r = Inr (Allow (Some d))"
  proof -
    have st': "st' = (db', b')" "qc_reserved res" "qc_date res = d"
      using that assms(4) c(1) by (auto simp: adapter_reserve_def split: if_splits)
    have "has_status R k [Reserved] db'"
      using c(3) st'(2) granted_in_core by metis
    moreover have "keyed idem_key (idem db')" using c(2) by (simp add: books_def accounted_def)
    moreover have "d \<noteq> []"
      using core_reserve_date [OF c(1) st'(2)] st'(3) assms(3) by (auto simp: plain_ids_def)
    ultimately show ?thesis by (auto simp: has_status_find quota_slot_def st'(1))
  qed
qed

lemma adapter_refund_law:
  assumes "repo_ok R" "quota_sane st" "adapter_refund down R u d k st = (r, st')"
  shows "quota_sane st'"
    and "quota_slot R st' k = (if isl r \<or> quota_slot R st k \<noteq> Some Reserved then quota_slot R st k else Some Refunded)"
proof -
  have books: "books (fst st)" using assms(2) by (simp add: quota_sane_def)
  have "quota_sane st' \<and>
    quota_slot R st' k = (if isl r \<or> quota_slot R st k \<noteq> Some Reserved then quota_slot R st k else Some Refunded)"
  proof (cases "find_idem R k (fst st)")
    case None
    then show ?thesis
      using refund_outcome [OF assms(1) books, where key = k and reason = Send_Failed] assms(2,3)
      by (auto simp: adapter_refund_def refund_free_form_slot_def quota_slot_def quota_sane_def split: if_splits)
  next
    case (Some row)
    then show ?thesis
      using refund_outcome [OF assms(1) books, where key = k and reason = Send_Failed and reason' = Send_Failed]
        assms(2,3)
      by (auto simp: adapter_refund_def refund_free_form_slot_def quota_slot_def quota_sane_def split: if_splits)
  qed
  then show "quota_sane st'"
    and "quota_slot R st' k = (if isl r \<or> quota_slot R st k \<noteq> Some Reserved then quota_slot R st k else Some Refunded)"
    by auto
qed

lemma quota_slot_set_status:
  "quota_slot R (set_status R k froms to db, b) k
   = map_option (\<lambda>s. if s \<in> set froms then to else s) (quota_slot R (db, b) k)"
  by (cases "find_idem R k db") (simp_all add: quota_slot_def find_idem_set_status)

lemma adapter_mark_law:
  assumes "adapter_mark down call (\<lambda>k. set_status R k froms to) k st = (r, st')"
  shows "quota_slot R st' k = (if isl r \<or> quota_slot R st k \<notin> Some ` set froms then quota_slot R st k else Some to)"
  using assms
  by (cases st; cases "quota_slot R st k")
    (auto simp: adapter_mark_def quota_slot_set_status split: if_splits)

lemma adapter_mark_sane:
  "quota_sane st \<Longrightarrow> Refunded \<notin> set froms \<Longrightarrow> to \<noteq> Refunded \<Longrightarrow>
   quota_sane (snd (adapter_mark down call (\<lambda>k. set_status R k froms to) k st))"
  by (simp add: adapter_mark_def quota_sane_def set_status_books)

lemma mark_ops:
  "mark_delivered R = (\<lambda>k. set_status R k [Reserved] Delivered)"
  "mark_completed R = (\<lambda>k. set_status R k [Reserved, Delivered] Completed)"
  by (simp_all add: fun_eq_iff mark_delivered_def mark_completed_def mark_delivered_slot_def
      complete_reserved_slot_def)

interpretation ledger: quota_ledger
  "chat_pipeline_adapters down tryb rel (wired_repo p) S today T pl" "quota_slot (wired_repo p)" quota_sane
  "\<lambda>u. plain_ids u (today (t_begin T))"
proof
  let ?P = "chat_pipeline_adapters down tryb rel (wired_repo p) S today T pl"
  show "quota_sane (snd (p_reserve ?P u k i q))" if "quota_sane q" "plain_ids u (today (t_begin T))" for q u k i
    using adapter_reserve_law(1) [where today = today and T = T, OF repo_ok_wired that] by (simp add: chat_pipeline_adapters_def) (metis prod.collapse)
  show "quota_slot (wired_repo p) q' k = Some Reserved \<and> d \<noteq> []"
    if "quota_sane q" "plain_ids u (today (t_begin T))" "p_reserve ?P u k i q = (Inr (Allow (Some d)), q')" for q u k i d q'
    using adapter_reserve_law(2) [where today = today and T = T, OF repo_ok_wired that(1,2)] that(3) by (simp add: chat_pipeline_adapters_def)
  show "quota_sane (snd (p_refund ?P u d k q))" if "quota_sane q" for q u d k
    using adapter_refund_law(1) [OF repo_ok_wired that] by (simp add: chat_pipeline_adapters_def) (metis prod.collapse)
  show "quota_slot (wired_repo p) q' k = (if isl r \<or> quota_slot (wired_repo p) q k \<noteq> Some Reserved
      then quota_slot (wired_repo p) q k else Some Refunded)"
    if "quota_sane q" "p_refund ?P u d k q = (r, q')" for q u d k r q'
    using adapter_refund_law(2) [OF repo_ok_wired that(1)] that(2) by (simp add: chat_pipeline_adapters_def)
  show "quota_slot (wired_repo p) q' k = (if isl r \<or> quota_slot (wired_repo p) q k \<noteq> Some Reserved
      then quota_slot (wired_repo p) q k else Some Delivered)"
    if "quota_sane q" "p_mark_delivered ?P k q = (r, q')" for q k r q'
    using adapter_mark_law [of down Call_Delivered "wired_repo p" "[Reserved]" Delivered k q r q'] that(2)
    by (simp add: chat_pipeline_adapters_def mark_ops split: if_splits)
  show "quota_slot (wired_repo p) q' k = (if isl r \<or> quota_slot (wired_repo p) q k \<notin> {Some Reserved, Some Delivered}
      then quota_slot (wired_repo p) q k else Some Completed)"
    if "quota_sane q" "p_mark_completed ?P k q = (r, q')" for q k r q'
    using adapter_mark_law [of down Call_Completed "wired_repo p" "[Reserved, Delivered]" Completed k q r q'] that(2)
    by (simp add: chat_pipeline_adapters_def mark_ops split: if_splits)
qed (simp_all add: chat_pipeline_adapters_def mark_ops adapter_mark_sane)

section \<open>Properties of the pipeline\<close>


definition sample_platform :: "bool \<Rightarrow> unit platform" where
  "sample_platform works = \<lparr>pl_history = (\<lambda>u e. (Inr [], e)), pl_turn = (\<lambda>u t a e. (Inr (), e)),
     pl_summary = (\<lambda>u t e. (Inr (), e)),
     pl_agent = (\<lambda>i e. (Inr \<lparr>a_text = ''hello'', a_tool_summary = None, a_skip_history = False,
        a_delivery_key = None, a_clarification = False, a_skip_delivery = False\<rparr>, e)),
     pl_send = (\<lambda>u t opts e. (if works then Inr (Some Sent) else Inl (Port_Exn ''send''), e)),
     pl_ambiguous = (\<lambda>x. False), pl_hook = (\<lambda>h c e. (Inr (), e))\<rparr>"

definition sample_input :: pipe_input where
  "sample_input = \<lparr>pi_ext = ''u1'', pi_user = Some 7, pi_texts = [''hi''], pi_parts = None, pi_key = Some ''m1''\<rparr>"

definition sample_flush :: "bool \<Rightarrow> (exn + flush_result) \<times> (quota_db \<times> unit, unit) flow" where
  "sample_flush works = flush (chat_pipeline_adapters (\<lambda>_. False) (pg_try_burst zalo_repo False) pg_release_burst
     (wired_repo ''zalo'') sample_settings (\<lambda>_. ''2026-05-04'') sample_ticks (sample_platform works))
     4000 sample_input (empty_quota_db, ()) ()"

lemma sample_input_plain: "plain_ids (pi_ext sample_input) ''2026-05-04''"
  by (simp add: sample_input_def plain_ids_def)


text \<open>A flush that reports a delivered reply has used its slot: the row is delivered or
  completed, unless the reply was a canned clarification, which costs nothing.\<close>

theorem delivered_flush_spends_slot:
  assumes "books db" "plain_ids (pi_ext inp) (today (t_begin T))"
    and "flush (chat_pipeline_adapters down tryb rel (wired_repo p) S today T pl) n inp (db, b) e = (Inr Fl_Delivered, f)"
    and "given (f_usage f)" "\<not> clarified f"
  shows "sent f \<and> quota_slot (wired_repo p) (f_q f) (the (pi_key inp)) \<in> {Some Delivered, Some Completed}"
  using ledger.flush_settles [of "(db, b)" inp today T, OF _ assms(2) adapters_outbound_ok assms(3)] assms(1,4,5)
  by (auto simp: quota_sane_def settled_def situation_defs Let_def)

theorem delivered_flush_spends_slot_witness:
  "quota_slot (wired_repo ''zalo'') (f_q (snd (sample_flush True))) ''m1'' \<in> {Some Delivered, Some Completed}"
proof -
  have run: "fst (sample_flush True) = Inr Fl_Delivered"
    and usage: "given (f_usage (snd (sample_flush True)))"
    and clar: "\<not> clarified (snd (sample_flush True))"
    by code_simp+
  have "sample_flush True = (Inr Fl_Delivered, snd (sample_flush True))"
    using run by (metis prod.collapse)
  then show ?thesis
    using delivered_flush_spends_slot [OF books_empty, where today = "\<lambda>_. ''2026-05-04''" and T = sample_ticks,
        OF sample_input_plain _ usage clar, of "\<lambda>_. False" "pg_try_burst zalo_repo False" pg_release_burst
        "''zalo''" sample_settings "sample_platform True" 4000 "()" "()"]
    by (simp add: sample_flush_def sample_input_def)
qed

end
