(* ===== verification/Debounce_Queue.thy ===== *)
theory Debounce_Queue
  imports Bot_Prelude Js_Strings "HOL-Library.Multiset" "HOL-Library.Sublist"
begin

text \<open>
  The in-process debounce queue, \<open>packages/chat-queue-core/src/debounce-chat-queue.ts\<close>.

  JavaScript runs one callback at a time; a method runs up to its first \<open>await\<close> as one
  step. The events of the model are those pieces: an \<open>enqueue\<close>, a debounce timer firing, the
  start of a flush (the part of \<open>flush\<close> before the handler is awaited), its \<open>finally\<close> block
  (when the handler settles or the deadline passes), \<open>flushNow\<close>, \<open>clear\<close>, the cleanup
  interval, the idle check of \<open>drain\<close> and the two ends of \<open>destroy\<close>. Timers are numbered and
  the set of armed timers is part of the state; a cleared timer never fires.

  The last five fields of \<open>qsys\<close> record what the outside world sees: the texts accepted, the
  batches handed to the flush handler, the texts dropped over the cap, the texts discarded by
  \<open>clear\<close> and by \<open>destroy\<close>, and the texts rejected during shutdown.
\<close>

section \<open>State\<close>

type_synonym qcontext = "string \<Rightarrow> string option"

record uqueue =
  uq_texts :: "string list"
  uq_key :: "string option"
  uq_context :: "qcontext option"
  uq_timer :: "nat option"
  uq_processing :: bool
  uq_deadline :: "millis option"
  uq_pending :: "string list"
  uq_pending_key :: "string option"
  uq_activity :: millis

record qconfig =
  qf_debounce_ms :: int
  qf_stale_ms :: int
  qf_max_pending :: nat
  qf_drain_ms :: int

record batch =
  b_user :: ext_id
  b_texts :: "string list"
  b_context :: "qcontext option"
  b_key :: "string option"

record qsys =
  queues :: "ext_id \<Rightarrow> uqueue option"
  armed :: "nat \<Rightarrow> ext_id option"
  next_timer :: nat
  shutting_down :: bool
  accepted :: "(ext_id \<times> string) list"
  batches :: "batch list"
  dropped :: "(ext_id \<times> string) list"
  discarded :: "(ext_id \<times> string) list"
  rejected :: "(ext_id \<times> string) list"

record enqueue_input =
  en_user :: ext_id
  en_text :: string
  en_context :: "qcontext option"
  en_key :: "string option"

definition max_pending_size :: "int option \<Rightarrow> nat" where
  "max_pending_size configured = (case configured of Some n \<Rightarrow> if n > 0 then nat n else 20 | None \<Rightarrow> 20)"

definition new_uqueue :: "millis \<Rightarrow> uqueue" where
  "new_uqueue now = \<lparr>uq_texts = [], uq_key = None, uq_context = None, uq_timer = None,
     uq_processing = False, uq_deadline = None, uq_pending = [], uq_pending_key = None,
     uq_activity = now\<rparr>"

section \<open>Operations\<close>

definition disarm :: "nat option \<Rightarrow> (nat \<Rightarrow> ext_id option) \<Rightarrow> nat \<Rightarrow> ext_id option" where
  "disarm t ar = (case t of Some i \<Rightarrow> ar(i := None) | None \<Rightarrow> ar)"

definition schedule_flush :: "ext_id \<Rightarrow> uqueue \<Rightarrow> qsys \<Rightarrow> qsys" where
  "schedule_flush u st s =
     s\<lparr>armed := (disarm (uq_timer st) (armed s))(next_timer s := Some u),
       queues := (queues s)(u := Some (st\<lparr>uq_timer := Some (next_timer s)\<rparr>)),
       next_timer := Suc (next_timer s)\<rparr>"

definition merge_context :: "qcontext option \<Rightarrow> qcontext option \<Rightarrow> qcontext option" where
  "merge_context old new =
     (case new of
        None \<Rightarrow> old
      | Some n \<Rightarrow> Some (case old of Some c \<Rightarrow> c ++ n | None \<Rightarrow> n))"

definition take_last :: "nat \<Rightarrow> 'a list \<Rightarrow> 'a list" where
  "take_last n xs = drop (length xs - n) xs"

definition over_cap :: "nat \<Rightarrow> 'a list \<Rightarrow> 'a list" where
  "over_cap n xs = take (length xs - n) xs"

definition tag :: "ext_id \<Rightarrow> string list \<Rightarrow> (ext_id \<times> string) list" where
  "tag u ts = map (\<lambda>t. (u, t)) ts"

definition later_key :: "string option \<Rightarrow> string option \<Rightarrow> string option" where
  "later_key new old = (case new of Some k \<Rightarrow> if k \<noteq> [] then Some k else old | None \<Rightarrow> old)"

definition touched :: "millis \<Rightarrow> enqueue_input \<Rightarrow> qsys \<Rightarrow> uqueue" where
  "touched now inp s =
     (let st = (case queues s (en_user inp) of Some st \<Rightarrow> st | None \<Rightarrow> new_uqueue now)
      in st\<lparr>uq_activity := now, uq_context := merge_context (uq_context st) (en_context inp)\<rparr>)"

definition push_pending :: "qconfig \<Rightarrow> enqueue_input \<Rightarrow> string \<Rightarrow> uqueue \<Rightarrow> qsys \<Rightarrow> qsys" where
  "push_pending C inp text st s =
     (let u = en_user inp; p = uq_pending st @ [text] in
      s\<lparr>queues := (queues s)(u := Some (st\<lparr>uq_pending := take_last (qf_max_pending C) p,
           uq_pending_key := later_key (en_key inp) (uq_pending_key st)\<rparr>)),
        accepted := accepted s @ [(u, text)],
        dropped := dropped s @ tag u (over_cap (qf_max_pending C) p)\<rparr>)"

definition push_text :: "qconfig \<Rightarrow> enqueue_input \<Rightarrow> string \<Rightarrow> uqueue \<Rightarrow> qsys \<Rightarrow> qsys" where
  "push_text C inp text st s =
     (let u = en_user inp; ts = uq_texts st @ [text] in
      schedule_flush u
        (st\<lparr>uq_texts := take_last (qf_max_pending C) ts, uq_key := later_key (en_key inp) (uq_key st)\<rparr>)
        (s\<lparr>accepted := accepted s @ [(u, text)],
           dropped := dropped s @ tag u (over_cap (qf_max_pending C) ts)\<rparr>))"

definition enqueue :: "qconfig \<Rightarrow> millis \<Rightarrow> enqueue_input \<Rightarrow> qsys \<Rightarrow> qsys" where
  "enqueue C now inp s =
     (let text = js_trim (en_text inp) in
      if text = [] then s
      else if shutting_down s then s\<lparr>rejected := rejected s @ [(en_user inp, text)]\<rparr>
      else
        let st = touched now inp s
        in if uq_processing st then push_pending C inp text st s else push_text C inp text st s)"

definition flush_start :: "millis \<Rightarrow> ext_id \<Rightarrow> qsys \<Rightarrow> qsys" where
  "flush_start deadline u s =
     (case queues s u of
        None \<Rightarrow> s
      | Some st \<Rightarrow>
          if uq_processing st \<or> uq_texts st = [] then s
          else
            s\<lparr>armed := disarm (uq_timer st) (armed s),
              queues := (queues s)(u := Some (st\<lparr>uq_timer := None, uq_processing := True,
                 uq_deadline := Some deadline, uq_texts := [], uq_key := None\<rparr>)),
              batches := batches s @ [\<lparr>b_user = u, b_texts = uq_texts st, b_context = uq_context st,
                                       b_key = uq_key st\<rparr>]\<rparr>)"

definition flush_end :: "ext_id \<Rightarrow> qsys \<Rightarrow> qsys" where
  "flush_end u s =
     (case queues s u of
        None \<Rightarrow> s
      | Some st0 \<Rightarrow>
          if \<not> uq_processing st0 then s
          else
            let st1 = st0\<lparr>uq_processing := False, uq_deadline := None\<rparr>;
                st2 = (if uq_pending st1 \<noteq> [] then
                         st1\<lparr>uq_texts := uq_texts st1 @ uq_pending st1, uq_pending := [],
                             uq_key := uq_pending_key st1, uq_pending_key := None\<rparr>
                       else st1)
            in if uq_texts st2 \<noteq> [] then schedule_flush u st2 s
               else if uq_timer st2 = None \<and> uq_pending st2 = [] then s\<lparr>queues := (queues s)(u := None)\<rparr>
               else s\<lparr>queues := (queues s)(u := Some st2)\<rparr>)"

definition timer_fires :: "qconfig \<Rightarrow> millis \<Rightarrow> nat \<Rightarrow> qsys \<Rightarrow> qsys" where
  "timer_fires C now i s =
     (case armed s i of
        None \<Rightarrow> s
      | Some u \<Rightarrow>
          let s1 = s\<lparr>armed := (armed s)(i := None),
                     queues := (case queues s u of
                                  Some st \<Rightarrow> if uq_timer st = Some i
                                             then (queues s)(u := Some (st\<lparr>uq_timer := None\<rparr>))
                                             else queues s
                                | None \<Rightarrow> queues s)\<rparr>
          in flush_start (now + qf_drain_ms C) u s1)"

definition clear_timer :: "ext_id \<Rightarrow> qsys \<Rightarrow> qsys" where
  "clear_timer u s =
     (case queues s u of
        Some st \<Rightarrow> s\<lparr>armed := disarm (uq_timer st) (armed s),
                     queues := (queues s)(u := Some (st\<lparr>uq_timer := None\<rparr>))\<rparr>
      | None \<Rightarrow> s)"

text \<open>\<open>flushNow\<close> up to its first wait: when a flush is in progress it only waits, and the later
  flush is a separate \<open>flush_start\<close>.\<close>

definition flush_now :: "qconfig \<Rightarrow> millis \<Rightarrow> ext_id \<Rightarrow> qsys \<Rightarrow> qsys" where
  "flush_now C now u s = flush_start (now + qf_drain_ms C) u (clear_timer u s)"

definition clear_queue :: "ext_id \<Rightarrow> qsys \<Rightarrow> qsys" where
  "clear_queue u s =
     (case queues s u of
        None \<Rightarrow> s
      | Some st \<Rightarrow>
          let s1 = clear_timer u s;
              st1 = st\<lparr>uq_timer := None, uq_texts := [], uq_pending := [], uq_key := None,
                       uq_pending_key := None\<rparr>
          in s1\<lparr>queues := (queues s1)(u := (if uq_processing st then Some st1 else None)),
                discarded := discarded s1 @ tag u (uq_texts st @ uq_pending st)\<rparr>)"

definition stale :: "qconfig \<Rightarrow> millis \<Rightarrow> uqueue \<Rightarrow> bool" where
  "stale C now st \<longleftrightarrow> \<not> uq_processing st \<and> uq_texts st = [] \<and> uq_pending st = [] \<and> uq_timer st = None
     \<and> uq_activity st < now - qf_stale_ms C"

definition evict_stale :: "qconfig \<Rightarrow> millis \<Rightarrow> qsys \<Rightarrow> qsys" where
  "evict_stale C now s =
     s\<lparr>queues := (\<lambda>u. case queues s u of
                       Some st \<Rightarrow> if stale C now st then None else Some st
                     | None \<Rightarrow> None)\<rparr>"

definition has_work :: "uqueue \<Rightarrow> bool" where
  "has_work st \<longleftrightarrow> uq_processing st \<or> uq_texts st \<noteq> [] \<or> uq_pending st \<noteq> []"

text \<open>The idle check of one \<open>drain\<close> round, on one entry of the map.\<close>

definition drain_check :: "ext_id \<Rightarrow> qsys \<Rightarrow> qsys" where
  "drain_check u s =
     (case queues s u of
        Some st \<Rightarrow> if has_work st then s else clear_timer u s
      | None \<Rightarrow> s)"

definition destroy_begin :: "qsys \<Rightarrow> qsys" where
  "destroy_begin s = s\<lparr>shutting_down := True\<rparr>"

definition drop_user :: "ext_id \<Rightarrow> qsys \<Rightarrow> qsys" where
  "drop_user u s =
     (case queues s u of
        None \<Rightarrow> s
      | Some st \<Rightarrow>
          let s1 = clear_timer u s in
          s1\<lparr>queues := (queues s1)(u := None),
             discarded := discarded s1 @ tag u (uq_texts st @ uq_pending st)\<rparr>)"

text \<open>The end of \<open>destroy\<close>, after \<open>drain\<close> returned: every timer is cleared and the map is
  emptied; \<open>us\<close> lists its keys.\<close>

definition destroy_end :: "ext_id list \<Rightarrow> qsys \<Rightarrow> qsys" where
  "destroy_end us s = fold drop_user us s"

section \<open>Runs\<close>

inductive q_step :: "qconfig \<Rightarrow> qsys \<Rightarrow> qsys \<Rightarrow> bool" for C where
  step_enqueue: "q_step C s (enqueue C now inp s)"
| step_timer: "q_step C s (timer_fires C now i s)"
| step_flush_now: "q_step C s (flush_now C now u s)"
| step_flush: "q_step C s (flush_start deadline u s)"
| step_settle: "q_step C s (flush_end u s)"
| step_clear: "q_step C s (clear_queue u s)"
| step_evict: "q_step C s (evict_stale C now s)"
| step_drain: "q_step C s (drain_check u s)"
| step_destroy: "q_step C s (destroy_begin s)"
| step_destroyed: "q_step C s (destroy_end us s)"

definition init_qsys :: qsys where
  "init_qsys = \<lparr>queues = (\<lambda>_. None), armed = (\<lambda>_. None), next_timer = 0, shutting_down = False,
     accepted = [], batches = [], dropped = [], discarded = [], rejected = []\<rparr>"

inductive q_reach :: "qconfig \<Rightarrow> qsys \<Rightarrow> bool" for C where
  reach_init: "q_reach C init_qsys"
| reach_step: "q_reach C s \<Longrightarrow> q_step C s s' \<Longrightarrow> q_reach C s'"

inductive_cases q_stepE: "q_step C s s'"

section \<open>Invariants\<close>

definition user_ok :: "qconfig \<Rightarrow> uqueue \<Rightarrow> bool" where
  "user_ok C st \<longleftrightarrow>
     (if uq_processing st then uq_texts st = [] \<and> uq_timer st = None
      else uq_pending st = [] \<and> (uq_texts st \<noteq> [] \<longrightarrow> uq_timer st \<noteq> None))
     \<and> length (uq_texts st) \<le> qf_max_pending C \<and> length (uq_pending st) \<le> qf_max_pending C"

text \<open>The timer handles of the entries and the armed timers are inverse to each other.\<close>

definition timer_of :: "(ext_id \<Rightarrow> uqueue option) \<Rightarrow> ext_id \<Rightarrow> nat option" where
  "timer_of q u = (case q u of None \<Rightarrow> None | Some st \<Rightarrow> uq_timer st)"

definition handles_match :: "(ext_id \<Rightarrow> nat option) \<Rightarrow> (nat \<Rightarrow> ext_id option) \<Rightarrow> nat \<Rightarrow> bool" where
  "handles_match tm ar n \<longleftrightarrow> (\<forall>u i. tm u = Some i \<longleftrightarrow> ar i = Some u) \<and> (\<forall>i u. ar i = Some u \<longrightarrow> i < n)"

definition timers_ok :: "qsys \<Rightarrow> bool" where
  "timers_ok s \<longleftrightarrow> handles_match (timer_of (queues s)) (armed s) (next_timer s)"

definition qinv :: "qconfig \<Rightarrow> qsys \<Rightarrow> bool" where
  "qinv C s \<longleftrightarrow> (\<forall>u st. queues s u = Some st \<longrightarrow> user_ok C st) \<and> timers_ok s"

definition buffered :: "(ext_id \<Rightarrow> uqueue option) \<Rightarrow> ext_id \<Rightarrow> string list" where
  "buffered q u = (case q u of None \<Rightarrow> [] | Some st \<Rightarrow> uq_texts st @ uq_pending st)"

definition texts_of :: "ext_id \<Rightarrow> (ext_id \<times> string) list \<Rightarrow> string list" where
  "texts_of u lg = map snd (filter (\<lambda>x. fst x = u) lg)"

definition flushed :: "ext_id \<Rightarrow> batch list \<Rightarrow> string list" where
  "flushed u bs = concat (map b_texts (filter (\<lambda>b. b_user b = u) bs))"

text \<open>The accepted texts of a user split into flushed, buffered, dropped and discarded ones, and
  the flushed and buffered ones keep the order of arrival.\<close>

definition split_of :: "string list \<Rightarrow> string list \<Rightarrow> string list \<Rightarrow> string list \<Rightarrow> string list \<Rightarrow> bool" where
  "split_of acc fl buf dr di \<longleftrightarrow>
     mset acc = mset fl + mset buf + mset dr + mset di \<and> subseq (fl @ buf) acc"

definition conserved :: "qsys \<Rightarrow> ext_id \<Rightarrow> bool" where
  "conserved s u \<longleftrightarrow>
     split_of (texts_of u (accepted s)) (flushed u (batches s)) (buffered (queues s) u)
       (texts_of u (dropped s)) (texts_of u (discarded s))"

definition good :: "qconfig \<Rightarrow> qsys \<Rightarrow> bool" where
  "good C s \<longleftrightarrow> qinv C s \<and> (\<forall>u. conserved s u)"

lemma texts_of_simps [simp]:
  "texts_of u [] = []" "texts_of u (xs @ ys) = texts_of u xs @ texts_of u ys"
  "texts_of u [(v, t)] = (if v = u then [t] else [])"
  "texts_of u (tag v ts) = (if v = u then ts else [])"
  by (auto simp: texts_of_def tag_def filter_map comp_def)

lemma flushed_simps [simp]:
  "flushed u [] = []" "flushed u (bs @ cs) = flushed u bs @ flushed u cs"
  "flushed u [b] = (if b_user b = u then b_texts b else [])"
  by (simp_all add: flushed_def)

lemma cap_split: "over_cap n xs @ take_last n xs = xs"
  by (simp add: over_cap_def take_last_def)

lemma length_take_last [simp]: "length (take_last n xs) = min (length xs) n"
  by (simp add: take_last_def)

lemma mset_cap: "mset (over_cap n xs) + mset (take_last n xs) = mset xs"
  by (metis cap_split mset_append)

lemma subseq_take_last: "subseq (take_last n xs) xs"
  by (metis cap_split list_emb_append2 subseq_order.refl)

lemma buffered_upd [simp]:
  "buffered (q(u := x)) v
   = (if v = u then (case x of None \<Rightarrow> [] | Some st \<Rightarrow> uq_texts st @ uq_pending st) else buffered q v)"
  by (simp add: buffered_def)

lemma timer_of_upd [simp]:
  "timer_of (q(u := x)) = (timer_of q)(u := (case x of None \<Rightarrow> None | Some st \<Rightarrow> uq_timer st))"
  by (auto simp: timer_of_def)

subsection \<open>Timers\<close>

lemma handles_matchD:
  assumes "handles_match tm ar n"
  shows "tm u = Some i \<longleftrightarrow> ar i = Some u" and "ar i = Some u \<Longrightarrow> i < n"
  using assms unfolding handles_match_def by blast+

lemma handles_clear:
  assumes "handles_match tm ar n"
  shows "handles_match (tm(u := None)) (disarm (tm u) ar) n"
  unfolding handles_match_def
proof (intro conjI allI impI)
  note m = handles_matchD [OF assms]
  show "(tm(u := None)) v = Some i \<longleftrightarrow> disarm (tm u) ar i = Some v" for v i
  proof (cases "tm u")
    case None
    then show ?thesis using m(1) [of v i] m(1) [of u i] by (auto simp: disarm_def)
  next
    case (Some k)
    then show ?thesis using m(1) [of v i] m(1) [of u i] m(1) [of u k] by (auto simp: disarm_def)
  qed
  show "i < n" if "disarm (tm u) ar i = Some v" for i v
    using that m(2) [of i v] by (auto simp: disarm_def split: option.splits if_splits)
qed

lemma handles_schedule:
  assumes "handles_match tm ar n"
  shows "handles_match (tm(u := Some n)) ((disarm (tm u) ar)(n := Some u)) (Suc n)"
  unfolding handles_match_def
proof (intro conjI allI impI)
  note m = handles_matchD [OF handles_clear [OF assms, of u]]
  show "(tm(u := Some n)) v = Some i \<longleftrightarrow> ((disarm (tm u) ar)(n := Some u)) i = Some v" for v i
    using m(1) [of v i] m(2) [of i v] by auto
  show "i < Suc n" if "((disarm (tm u) ar)(n := Some u)) i = Some v" for i v
    using that m(2) [of i v] by (auto split: if_splits)
qed

lemma split_of_enqueue:
  assumes "split_of acc fl buf dr di"
  shows "split_of (acc @ [t]) fl (take_last n (buf @ [t])) (dr @ over_cap n (buf @ [t])) di"
proof -
  have "mset (buf @ [t]) = mset (over_cap n (buf @ [t])) + mset (take_last n (buf @ [t]))"
    by (simp only: mset_cap)
  then have "mset (acc @ [t]) = mset fl + mset (take_last n (buf @ [t]))
      + mset (dr @ over_cap n (buf @ [t])) + mset di"
    using assms by (simp add: split_of_def ac_simps)
  moreover have "subseq (fl @ take_last n (buf @ [t])) (fl @ buf @ [t])"
    by (intro list_emb_append_mono subseq_take_last) simp
  then have "subseq (fl @ take_last n (buf @ [t])) (acc @ [t])"
    using assms list_emb_append_mono [of "(=)" "fl @ buf" acc "[t]" "[t]"] subseq_order.trans
    by (fastforce simp: split_of_def)
  ultimately show ?thesis by (simp add: split_of_def)
qed

lemma split_of_flush: "split_of acc fl buf dr di \<Longrightarrow> split_of acc (fl @ buf) [] dr di"
  by (simp add: split_of_def)

lemma split_of_discard:
  assumes "split_of acc fl buf dr di"
  shows "split_of acc fl [] dr (di @ buf)"
proof -
  have "subseq fl (fl @ buf)" by (simp add: prefix_imp_subseq)
  then show ?thesis
    using assms subseq_order.trans by (auto simp: split_of_def ac_simps)
qed

lemma goodD:
  assumes "good C s"
  shows "qinv C s" "conserved s u" "queues s u = Some st \<Longrightarrow> user_ok C st"
    "handles_match (timer_of (queues s)) (armed s) (next_timer s)"
  using assms by (auto simp: good_def qinv_def timers_ok_def)

text \<open>An entry that agrees with the map on what the invariants see.\<close>

definition current :: "qconfig \<Rightarrow> ext_id \<Rightarrow> uqueue \<Rightarrow> qsys \<Rightarrow> bool" where
  "current C u st s \<longleftrightarrow> user_ok C st \<and> buffered (queues s) u = uq_texts st @ uq_pending st
     \<and> timer_of (queues s) u = uq_timer st"

lemma current_entry: "good C s \<Longrightarrow> queues s u = Some st \<Longrightarrow> current C u st s"
  by (auto simp: current_def good_def qinv_def buffered_def timer_of_def)

lemma current_touched:
  assumes "good C s"
  shows "current C (en_user inp) (touched now inp s) s"
proof (cases "queues s (en_user inp)")
  case None
  then show ?thesis
    by (simp add: touched_def current_def buffered_def timer_of_def user_ok_def new_uqueue_def)
next
  case (Some st)
  then show ?thesis
    using current_entry [OF assms Some] by (simp add: touched_def current_def user_ok_def)
qed

lemma current_split:
  assumes "good C s" "current C u st s"
  shows "split_of (texts_of u (accepted s)) (flushed u (batches s)) (uq_texts st @ uq_pending st)
      (texts_of u (dropped s)) (texts_of u (discarded s))"
  using goodD(2) [OF assms(1), of u] assms(2) by (simp add: conserved_def current_def)

text \<open>Replacing the entry of one user.\<close>

lemma replace_good:
  assumes "good C s" and "queues s' = (queues s)(u := x)" and "\<And>st. x = Some st \<Longrightarrow> user_ok C st"
    and "handles_match ((timer_of (queues s))(u := (case x of None \<Rightarrow> None | Some st \<Rightarrow> uq_timer st)))
           (armed s') (next_timer s')"
    and "split_of (texts_of u (accepted s')) (flushed u (batches s'))
           (case x of None \<Rightarrow> [] | Some st \<Rightarrow> uq_texts st @ uq_pending st)
           (texts_of u (dropped s')) (texts_of u (discarded s'))"
    and "\<And>v. v \<noteq> u \<Longrightarrow> texts_of v (accepted s') = texts_of v (accepted s)
           \<and> flushed v (batches s') = flushed v (batches s)
           \<and> texts_of v (dropped s') = texts_of v (dropped s)
           \<and> texts_of v (discarded s') = texts_of v (discarded s)"
  shows "good C s'"
proof -
  have "user_ok C st" if "queues s' v = Some st" for v st
    using that assms(1-3) goodD(3) by (auto simp: assms(2) split: if_splits)
  moreover have "conserved s' v" for v
    using assms(5,6) goodD(2) [OF assms(1), of v] by (cases "v = u") (auto simp: conserved_def assms(2))
  ultimately show ?thesis
    using assms(4) by (simp add: good_def qinv_def timers_ok_def assms(2))
qed

lemma push_pending_good:
  assumes "good C s" "current C (en_user inp) st s" "uq_processing st"
  shows "good C (push_pending C inp t st s)"
proof (rule replace_good [OF assms(1), where u = "en_user inp"])
  have st: "uq_texts st = []" "uq_timer st = None" "length (uq_pending st) \<le> qf_max_pending C"
    and tm: "timer_of (queues s) (en_user inp) = None"
    using assms(2,3) by (auto simp: current_def user_ok_def)
  let ?x = "st\<lparr>uq_pending := take_last (qf_max_pending C) (uq_pending st @ [t]),
       uq_pending_key := later_key (en_key inp) (uq_pending_key st)\<rparr>"
  show "queues (push_pending C inp t st s) = (queues s)(en_user inp := Some ?x)"
    by (simp add: push_pending_def Let_def)
  show "\<And>y. Some ?x = Some y \<Longrightarrow> user_ok C y"
    using st assms(3) by (auto simp: user_ok_def)
  show "handles_match ((timer_of (queues s))(en_user inp := (case Some ?x of None \<Rightarrow> None | Some y \<Rightarrow> uq_timer y)))
      (armed (push_pending C inp t st s)) (next_timer (push_pending C inp t st s))"
    using goodD(4) [OF assms(1)] st(2) tm by (simp add: push_pending_def Let_def fun_upd_idem)
  show "split_of (texts_of (en_user inp) (accepted (push_pending C inp t st s)))
      (flushed (en_user inp) (batches (push_pending C inp t st s)))
      (case Some ?x of None \<Rightarrow> [] | Some y \<Rightarrow> uq_texts y @ uq_pending y)
      (texts_of (en_user inp) (dropped (push_pending C inp t st s)))
      (texts_of (en_user inp) (discarded (push_pending C inp t st s)))"
    using split_of_enqueue [OF current_split [OF assms(1,2)], of t "qf_max_pending C"] st(1)
    by (simp add: push_pending_def Let_def)
qed (simp add: push_pending_def Let_def)

lemma push_text_good:
  assumes "good C s" "current C (en_user inp) st s" "\<not> uq_processing st" "0 < qf_max_pending C"
  shows "good C (push_text C inp t st s)"
proof (rule replace_good [OF assms(1), where u = "en_user inp"])
  have st: "uq_pending st = []" "length (uq_texts st) \<le> qf_max_pending C"
    and tm: "timer_of (queues s) (en_user inp) = uq_timer st"
    using assms(2,3) by (auto simp: current_def user_ok_def)
  let ?x = "st\<lparr>uq_texts := take_last (qf_max_pending C) (uq_texts st @ [t]),
       uq_key := later_key (en_key inp) (uq_key st), uq_timer := Some (next_timer s)\<rparr>"
  show "queues (push_text C inp t st s) = (queues s)(en_user inp := Some ?x)"
    by (simp add: push_text_def schedule_flush_def Let_def)
  show "\<And>y. Some ?x = Some y \<Longrightarrow> user_ok C y"
    using st assms(3,4) by (auto simp: user_ok_def)
  show "handles_match ((timer_of (queues s))(en_user inp := (case Some ?x of None \<Rightarrow> None | Some y \<Rightarrow> uq_timer y)))
      (armed (push_text C inp t st s)) (next_timer (push_text C inp t st s))"
    using handles_schedule [OF goodD(4) [OF assms(1)], of "en_user inp"] tm
    by (simp add: push_text_def schedule_flush_def Let_def)
  show "split_of (texts_of (en_user inp) (accepted (push_text C inp t st s)))
      (flushed (en_user inp) (batches (push_text C inp t st s)))
      (case Some ?x of None \<Rightarrow> [] | Some y \<Rightarrow> uq_texts y @ uq_pending y)
      (texts_of (en_user inp) (dropped (push_text C inp t st s)))
      (texts_of (en_user inp) (discarded (push_text C inp t st s)))"
    using split_of_enqueue [OF current_split [OF assms(1,2)], of t "qf_max_pending C"] st(1)
    by (simp add: push_text_def schedule_flush_def Let_def)
qed (simp add: push_text_def schedule_flush_def Let_def)

lemma enqueue_good:
  assumes "good C s" "0 < qf_max_pending C"
  shows "good C (enqueue C now inp s)"
  using assms push_pending_good [OF assms(1) current_touched [OF assms(1)]]
    push_text_good [OF assms(1) current_touched [OF assms(1)] _ assms(2)]
  by (auto simp: enqueue_def Let_def good_def qinv_def timers_ok_def conserved_def)

lemma flush_start_good:
  assumes "good C s"
  shows "good C (flush_start d u s)"
proof (cases "\<exists>st. queues s u = Some st \<and> \<not> uq_processing st \<and> uq_texts st \<noteq> []")
  case False
  then have "flush_start d u s = s" by (auto simp: flush_start_def split: option.splits)
  then show ?thesis using assms by simp
next
  case True
  then obtain st where st: "queues s u = Some st" "\<not> uq_processing st" "uq_texts st \<noteq> []" by blast
  note cur = current_entry [OF assms st(1)]
  have p: "uq_pending st = []" and tm: "timer_of (queues s) u = uq_timer st"
    using cur st(2) by (auto simp: current_def user_ok_def)
  let ?x = "st\<lparr>uq_timer := None, uq_processing := True, uq_deadline := Some d, uq_texts := [], uq_key := None\<rparr>"
  have s': "flush_start d u s = s\<lparr>armed := disarm (uq_timer st) (armed s), queues := (queues s)(u := Some ?x),
      batches := batches s @ [\<lparr>b_user = u, b_texts = uq_texts st, b_context = uq_context st, b_key = uq_key st\<rparr>]\<rparr>"
    using st by (simp add: flush_start_def)
  show ?thesis
    unfolding s'
  proof (rule replace_good [OF assms, where u = u and x = "Some ?x"])
    show "handles_match ((timer_of (queues s))(u := (case Some ?x of None \<Rightarrow> None | Some y \<Rightarrow> uq_timer y)))
        (armed (s\<lparr>armed := disarm (uq_timer st) (armed s), queues := (queues s)(u := Some ?x),
          batches := batches s @ [\<lparr>b_user = u, b_texts = uq_texts st, b_context = uq_context st, b_key = uq_key st\<rparr>]\<rparr>))
        (next_timer (s\<lparr>armed := disarm (uq_timer st) (armed s), queues := (queues s)(u := Some ?x),
          batches := batches s @ [\<lparr>b_user = u, b_texts = uq_texts st, b_context = uq_context st, b_key = uq_key st\<rparr>]\<rparr>))"
      using handles_clear [OF goodD(4) [OF assms], of u] tm by simp
  qed (use split_of_flush [OF current_split [OF assms cur]] p in \<open>auto simp: user_ok_def\<close>)
qed

lemma clear_timer_good:
  assumes "good C s" and "\<And>st. queues s u = Some st \<Longrightarrow> \<not> uq_processing st \<Longrightarrow> uq_texts st = []"
  shows "good C (clear_timer u s)"
proof (cases "queues s u")
  case None
  then show ?thesis using assms(1) by (simp add: clear_timer_def)
next
  case (Some st)
  note cur = current_entry [OF assms(1) Some]
  have tm: "timer_of (queues s) u = uq_timer st" using cur by (simp add: current_def)
  have "good C (s\<lparr>armed := disarm (uq_timer st) (armed s), queues := (queues s)(u := Some (st\<lparr>uq_timer := None\<rparr>))\<rparr>)"
    by (rule replace_good [OF assms(1), where u = u and x = "Some (st\<lparr>uq_timer := None\<rparr>)"])
      (use handles_clear [OF goodD(4) [OF assms(1)], of u] tm current_split [OF assms(1) cur]
        cur assms(2) [OF Some] in \<open>auto simp: user_ok_def current_def\<close>)
  then show ?thesis using Some by (simp add: clear_timer_def)
qed

text \<open>Removing an entry, or emptying it, discards what it buffers.\<close>

lemma discard_good:
  assumes "good C s" "queues s u = Some st" "x = None \<or> (\<exists>y. x = Some y \<and> uq_processing y \<and> uq_timer y = None
      \<and> uq_texts y = [] \<and> uq_pending y = [])"
  shows "good C (s\<lparr>armed := disarm (uq_timer st) (armed s), queues := (queues s)(u := x),
      discarded := discarded s @ tag u (uq_texts st @ uq_pending st)\<rparr>)"
proof -
  note cur = current_entry [OF assms(1,2)]
  have tm: "timer_of (queues s) u = uq_timer st" using cur by (simp add: current_def)
  show ?thesis
    by (rule replace_good [OF assms(1), where u = u and x = x])
      (use handles_clear [OF goodD(4) [OF assms(1)], of u] tm assms(3)
        split_of_discard [OF current_split [OF assms(1) cur]] in \<open>auto simp: user_ok_def\<close>)
qed

lemma clear_queue_good:
  assumes "good C s"
  shows "good C (clear_queue u s)"
proof (cases "queues s u")
  case (Some st)
  then show ?thesis
    using discard_good [OF assms Some, of "if uq_processing st then Some (st\<lparr>uq_timer := None, uq_texts := [],
        uq_pending := [], uq_key := None, uq_pending_key := None\<rparr>) else None"]
    by (auto simp: clear_queue_def clear_timer_def Let_def)
qed (simp add: clear_queue_def assms)

lemma drop_user_good: "good C s \<Longrightarrow> good C (drop_user u s)"
proof (cases "queues s u")
  case (Some st)
  assume "good C s"
  then show ?thesis
    using discard_good [OF _ Some, of C None] Some by (simp add: drop_user_def clear_timer_def Let_def)
qed (simp add: drop_user_def)

lemma destroy_end_good: "good C s \<Longrightarrow> good C (destroy_end us s)"
  unfolding destroy_end_def by (induction us arbitrary: s) (auto simp: drop_user_good)

lemma flush_after_clear_good:
  assumes "good C s"
  shows "good C (flush_start d u (clear_timer u s))"
proof (cases "\<exists>st. queues s u = Some st \<and> \<not> uq_processing st \<and> uq_texts st \<noteq> []")
  case True
  then have "flush_start d u (clear_timer u s) = flush_start d u s"
    by (auto simp: flush_start_def clear_timer_def disarm_def)
  then show ?thesis using flush_start_good [OF assms] by simp
next
  case False
  then show ?thesis by (intro flush_start_good clear_timer_good assms) auto
qed

lemma flush_now_good: "good C s \<Longrightarrow> good C (flush_now C' now u s)"
  by (simp add: flush_now_def flush_after_clear_good)

lemma timer_fires_good:
  assumes "good C s"
  shows "good C (timer_fires C' now i s)"
proof (cases "armed s i")
  case None
  then show ?thesis using assms by (simp add: timer_fires_def)
next
  case (Some u)
  then have "timer_of (queues s) u = Some i"
    using handles_matchD(1) [OF goodD(4) [OF assms]] by blast
  then obtain st where "queues s u = Some st" "uq_timer st = Some i"
    by (auto simp: timer_of_def split: option.splits)
  then have "timer_fires C' now i s = flush_start (now + qf_drain_ms C') u (clear_timer u s)"
    using Some by (simp add: timer_fires_def clear_timer_def disarm_def Let_def)
  then show ?thesis using flush_after_clear_good [OF assms] by simp
qed

lemma flush_end_good:
  assumes "good C s"
  shows "good C (flush_end u s)"
proof (cases "\<exists>st. queues s u = Some st \<and> uq_processing st")
  case False
  then have "flush_end u s = s" by (auto simp: flush_end_def split: option.splits)
  then show ?thesis using assms by simp
next
  case True
  then obtain st where st: "queues s u = Some st" "uq_processing st" by blast
  note cur = current_entry [OF assms st(1)]
  have ts: "uq_texts st = []" "uq_timer st = None" "length (uq_pending st) \<le> qf_max_pending C"
    and tm: "timer_of (queues s) u = None"
    using cur st(2) by (auto simp: current_def user_ok_def)
  note split = current_split [OF assms cur]
  note handles = goodD(4) [OF assms]
  show ?thesis
  proof (cases "uq_pending st = []")
    case True
    then have "flush_end u s = s\<lparr>queues := (queues s)(u := None)\<rparr>"
      using st ts by (simp add: flush_end_def Let_def)
    moreover have "good C (s\<lparr>queues := (queues s)(u := None)\<rparr>)"
      by (rule replace_good [OF assms, where u = u and x = None])
        (use handles tm split True ts in \<open>auto simp: fun_upd_idem\<close>)
    ultimately show ?thesis by simp
  next
    case False
    let ?x = "st\<lparr>uq_processing := False, uq_deadline := None, uq_texts := uq_pending st, uq_pending := [],
        uq_key := uq_pending_key st, uq_pending_key := None, uq_timer := Some (next_timer s)\<rparr>"
    have "flush_end u s = s\<lparr>armed := (disarm None (armed s))(next_timer s := Some u),
        queues := (queues s)(u := Some ?x), next_timer := Suc (next_timer s)\<rparr>"
      using st ts False by (simp add: flush_end_def schedule_flush_def Let_def)
    moreover have "good C (s\<lparr>armed := (disarm None (armed s))(next_timer s := Some u),
        queues := (queues s)(u := Some ?x), next_timer := Suc (next_timer s)\<rparr>)"
      by (rule replace_good [OF assms, where u = u and x = "Some ?x"])
        (use handles_schedule [OF handles, of u] tm split ts in \<open>auto simp: user_ok_def\<close>)
    ultimately show ?thesis by simp
  qed
qed

lemma evict_good:
  assumes "good C s"
  shows "good C (evict_stale C' now s)"
proof -
  define s' where "s' = evict_stale C' now s"
  have entry: "queues s u = Some st" if "queues s' u = Some st" for u st
    using that by (auto simp: s'_def evict_stale_def split: option.splits if_splits)
  have tm: "timer_of (queues s') = timer_of (queues s)"
    by (rule ext) (auto simp: s'_def evict_stale_def timer_of_def stale_def split: option.splits)
  have buf: "buffered (queues s') u = buffered (queues s) u" for u
    by (auto simp: s'_def evict_stale_def buffered_def stale_def split: option.splits)
  have rest: "armed s' = armed s" "next_timer s' = next_timer s" "accepted s' = accepted s"
    "batches s' = batches s" "dropped s' = dropped s" "discarded s' = discarded s"
    by (simp_all add: s'_def evict_stale_def)
  have "user_ok C st" if "queues s' u = Some st" for u st
    using entry [OF that] goodD(3) [OF assms] by blast
  moreover have "conserved s' u" for u
    using goodD(2) [OF assms, of u] by (simp add: conserved_def buf rest)
  ultimately have "good C s'"
    using goodD(4) [OF assms] by (simp add: good_def qinv_def timers_ok_def tm rest)
  then show ?thesis by (simp add: s'_def)
qed

lemma drain_check_good:
  assumes "good C s"
  shows "good C (drain_check u s)"
proof (cases "\<exists>st. queues s u = Some st \<and> \<not> has_work st")
  case True
  then have "drain_check u s = clear_timer u s" by (auto simp: drain_check_def)
  then show ?thesis using True clear_timer_good [OF assms, of u] by (auto simp: has_work_def)
next
  case False
  then have "drain_check u s = s" by (auto simp: drain_check_def split: option.splits)
  then show ?thesis using assms by simp
qed

lemma step_good:
  assumes "q_step C s s'" "good C s" "0 < qf_max_pending C"
  shows "good C s'"
  using assms(1)
proof cases
  case step_destroy
  then show ?thesis
    using assms(2) by (simp add: destroy_begin_def good_def qinv_def timers_ok_def conserved_def)
qed (use assms(2,3) in \<open>auto intro: enqueue_good timer_fires_good flush_now_good flush_start_good
    flush_end_good clear_queue_good evict_good drain_check_good destroy_end_good\<close>)

lemma reach_good: "q_reach C s \<Longrightarrow> 0 < qf_max_pending C \<Longrightarrow> good C s"
proof (induction rule: q_reach.induct)
  case reach_init
  then show ?case
    by (simp add: good_def qinv_def timers_ok_def handles_match_def timer_of_def conserved_def
        split_of_def buffered_def init_qsys_def)
qed (rule step_good)

section \<open>Properties of the queue\<close>

definition sample_qconfig :: qconfig where
  "sample_qconfig = \<lparr>qf_debounce_ms = 1500, qf_stale_ms = 60000, qf_max_pending = 2, qf_drain_ms = 25000\<rparr>"

definition sample_enqueue :: "string \<Rightarrow> enqueue_input" where
  "sample_enqueue t = \<lparr>en_user = ''u1'', en_text = t, en_context = None, en_key = Some t\<rparr>"

text \<open>A run with a merge, an overflow and a message that arrives during processing.\<close>

definition sample_qrun :: qsys where
  "sample_qrun =
     flush_end ''u1''
       (enqueue sample_qconfig 5 (sample_enqueue ''d'')
         (timer_fires sample_qconfig 4 2
           (enqueue sample_qconfig 3 (sample_enqueue ''c'')
             (enqueue sample_qconfig 2 (sample_enqueue ''b'')
               (enqueue sample_qconfig 1 (sample_enqueue ''a'') init_qsys)))))"

lemmas sample_qrun_eval = sample_qrun_def timer_fires_def flush_end_def flush_start_def enqueue_def
  push_text_def push_pending_def schedule_flush_def touched_def new_uqueue_def sample_enqueue_def
  sample_qconfig_def init_qsys_def disarm_def take_last_def js_trim_def js_space_def Let_def

lemma sample_qrun_reach: "q_reach sample_qconfig sample_qrun"
  unfolding sample_qrun_def
  by (intro reach_step [OF _ step_timer] reach_step [OF _ step_settle] reach_step [OF _ step_enqueue] reach_init)

text \<open>C8: No accepted message is lost or delivered twice. In every run, each user's accepted
  messages are exactly the messages handed to the flush handler, still buffered, reported as
  dropped over the cap, or discarded by \<open>clear\<close> and \<open>destroy\<close>; and the handed and buffered
  ones appear in their order of arrival.\<close>

theorem queue_conserves_messages:
  assumes "q_reach C s" "0 < qf_max_pending C"
  shows "mset (texts_of u (accepted s)) = mset (flushed u (batches s)) + mset (buffered (queues s) u)
      + mset (texts_of u (dropped s)) + mset (texts_of u (discarded s))
    \<and> subseq (flushed u (batches s) @ buffered (queues s) u) (texts_of u (accepted s))"
  using reach_good [OF assms] by (auto simp: good_def conserved_def split_of_def)

theorem queue_conserves_messages_witness:
  "mset (texts_of ''u1'' (accepted sample_qrun))
     = mset (flushed ''u1'' (batches sample_qrun)) + mset (buffered (queues sample_qrun) ''u1'')
       + mset (texts_of ''u1'' (dropped sample_qrun)) + mset (texts_of ''u1'' (discarded sample_qrun))
   \<and> map b_texts (batches sample_qrun) = [[''b'', ''c'']]"
proof -
  have "map b_texts (batches sample_qrun) = [[''b'', ''c'']]"
    by (simp add: sample_qrun_eval)
  then show ?thesis
    using queue_conserves_messages [OF sample_qrun_reach, of "''u1''"] by (simp add: sample_qconfig_def)
qed



text \<open>A configured cap of zero does not lift the cap: the queue then uses the default of
  twenty, so a twenty-first text waiting behind a flush is dropped.\<close>

theorem zero_cap_is_default: "max_pending_size (Some 0) = 20 \<and> max_pending_size None = 20"
  by (simp add: max_pending_size_def)

end
