(* ===== verification/Leases.thy ===== *)
theory Leases
  imports Bot_Prelude
begin

text \<open>
  The lease discipline shared by the durable work tables (webhook inbox, report send jobs,
  study reminder jobs): a worker \<^emph>\<open>claims\<close> a row under a fresh token, and every later
  transition of that worker is an \<open>UPDATE .. WHERE id = .. AND lease_token = ..\<close>; a stale row
  may be taken away by a recovery step. The interface is the locale \<open>leased_table\<close>; each
  table proves the laws for its own statements, and what the discipline gives the workers is
  proved here once: a transition succeeds only for the current owner, a token is good for at
  most one successful transition, and a worker whose lease was taken away changes nothing.
\<close>

datatype ('c, 'a, 'x, 'i, 't) lease_op = Claim 'c 'i 't | Finish 'a 'i 't | Expire 'x 'i

definition owner_at :: "('r \<Rightarrow> 'i) \<Rightarrow> ('r \<Rightarrow> 't option) \<Rightarrow> 'r list \<Rightarrow> 'i \<Rightarrow> 't option" where
  "owner_at key owner rows i =
     (case find (\<lambda>r. key r = i) rows of None \<Rightarrow> None | Some r \<Rightarrow> owner r)"

lemma owner_at_update:
  assumes "\<And>r. key r = i \<Longrightarrow> P r \<Longrightarrow> key (f r) = key r"
  shows "owner_at key owner (sql_update (\<lambda>r. key r = i \<and> P r) f rows) j =
    (if j = i then (case find (\<lambda>r. key r = i) rows of None \<Rightarrow> None
                    | Some r \<Rightarrow> if P r then owner (f r) else owner r)
     else owner_at key owner rows j)"
  unfolding owner_at_def using assms by (induction rows) auto

definition matches :: "('r \<Rightarrow> 'i) \<Rightarrow> ('r \<Rightarrow> bool) \<Rightarrow> 'i \<Rightarrow> 'r list \<Rightarrow> bool" where
  "matches key P i rows \<longleftrightarrow> list_ex (\<lambda>r. key r = i \<and> P r) rows"

lemma matches_keyed:
  "keyed key rows \<Longrightarrow> matches key P i rows \<longleftrightarrow> (\<exists>r. find (\<lambda>r. key r = i) rows = Some r \<and> P r)"
  by (auto simp: matches_def list_ex_iff find_keyed)

text \<open>\<open>UPDATE .. WHERE id = i AND P\<close>, with whether a row was affected.\<close>

definition update_where :: "('r \<Rightarrow> 'i) \<Rightarrow> ('r \<Rightarrow> bool) \<Rightarrow> ('r \<Rightarrow> 'r) \<Rightarrow> 'i \<Rightarrow> 'r list \<Rightarrow> bool \<times> 'r list" where
  "update_where key P f i rows =
     (matches key P i rows, sql_update (\<lambda>r. key r = i \<and> P r) f rows)"

lemma update_where_pair: "update_where key P f i rows = (matches key P i rows, snd (update_where key P f i rows))"
  by (simp add: update_where_def)

lemma update_where_miss: "update_where key P f i rows = (False, rows') \<Longrightarrow> rows' = rows"
  by (auto simp: update_where_def matches_def list_ex_iff intro: sql_update_id)

lemma update_where_keyed:
  "keyed key rows \<Longrightarrow> (\<And>r. key (f r) = key r) \<Longrightarrow> keyed key (snd (update_where key P f i rows))"
  by (simp add: update_where_def keyed_update)

lemma update_where_hit:
  assumes "keyed key rows" "\<And>r. key (f r) = key r" "update_where key P f i rows = (True, rows')"
  obtains r where "find (\<lambda>r. key r = i) rows = Some r" "P r"
    "owner_at key owner rows' = (owner_at key owner rows)(i := owner (f r))"
proof -
  obtain r where r: "find (\<lambda>r. key r = i) rows = Some r" "P r"
    using assms by (auto simp: update_where_def matches_keyed)
  have own: "owner_at key owner rows' j = (if j = i then owner (f r) else owner_at key owner rows j)" for j
    using assms(2,3) r by (auto simp: update_where_def owner_at_update)
  have "owner_at key owner rows' = (owner_at key owner rows)(i := owner (f r))"
    by (rule ext) (simp add: own)
  with r show ?thesis by (rule that)
qed

text \<open>The row with a given key, after each statement form.\<close>

lemma find_update_where:
  assumes "\<And>r. key (f r) = key r"
  shows "find (\<lambda>r. key r = j) (snd (update_where key P f i rows)) =
    (if j = i then map_option (\<lambda>r. if P r then f r else r) (find (\<lambda>r. key r = i) rows)
     else find (\<lambda>r. key r = j) rows)"
  unfolding update_where_def snd_conv by (induction rows) (auto simp: assms)

lemma find_sql_update:
  "(\<And>r. key (f r) = key r) \<Longrightarrow> find (\<lambda>r. key r = k) (sql_update (\<lambda>r. key r = k) f rows) = map_option f (find (\<lambda>r. key r = k) rows)"
  by (induction rows) auto

lemma find_snoc: "find P (xs @ [x]) = (case find P xs of None \<Rightarrow> if P x then Some x else None | Some r \<Rightarrow> Some r)"
  by (induction xs) auto

lemma find_upsert:
  assumes "\<And>r. key (upd r) = key r"
  shows "find (\<lambda>r. key r = key new) (fst (sql_upsert key new upd guard rows)) =
    Some (case find (\<lambda>r. key r = key new) rows of None \<Rightarrow> new | Some old \<Rightarrow> if guard old then upd old else old)"
  by (cases "find (\<lambda>r. key r = key new) rows") (simp_all add: sql_upsert_def find_snoc find_sql_update assms)

lemma find_sql_delete:
  assumes "keyed key rows"
  shows "find (\<lambda>r. key r = j) (sql_delete P rows) =
    (case find (\<lambda>r. key r = j) rows of Some r \<Rightarrow> if P r then None else Some r | None \<Rightarrow> None)"
  using assms by (induction rows) (auto simp: keyed_Cons find_None_iff split: option.splits dest: find_SomeD)

locale leased_table =
  fixes key :: "'r \<Rightarrow> 'i"
    and owner :: "'r \<Rightarrow> 't option"
    and claim :: "'c \<Rightarrow> 'i \<Rightarrow> 't \<Rightarrow> 'r list \<Rightarrow> bool \<times> 'r list"
    and finish :: "'a \<Rightarrow> 'i \<Rightarrow> 't \<Rightarrow> 'r list \<Rightarrow> bool \<times> 'r list"
    and expire :: "'x \<Rightarrow> 'i \<Rightarrow> 'r list \<Rightarrow> bool \<times> 'r list"
  assumes claim_keyed: "keyed key rows \<Longrightarrow> keyed key (snd (claim c i t rows))"
    and finish_keyed: "keyed key rows \<Longrightarrow> keyed key (snd (finish a i t rows))"
    and expire_keyed: "keyed key rows \<Longrightarrow> keyed key (snd (expire x i rows))"
    and claim_hit: "keyed key rows \<Longrightarrow> claim c i t rows = (True, rows') \<Longrightarrow>
      owner_at key owner rows' = (owner_at key owner rows)(i := Some t)"
    and claim_miss: "claim c i t rows = (False, rows') \<Longrightarrow> rows' = rows"
    and finish_hit: "keyed key rows \<Longrightarrow> finish a i t rows = (True, rows') \<Longrightarrow>
      owner_at key owner rows i = Some t \<and> owner_at key owner rows' = (owner_at key owner rows)(i := None)"
    and finish_miss: "finish a i t rows = (False, rows') \<Longrightarrow> rows' = rows"
    and expire_hit: "keyed key rows \<Longrightarrow> expire x i rows = (True, rows') \<Longrightarrow>
      owner_at key owner rows' = (owner_at key owner rows)(i := None)"
    and expire_miss: "expire x i rows = (False, rows') \<Longrightarrow> rows' = rows"
begin

text \<open>A worker that does not own the row changes nothing.\<close>

lemma stale_finish_noop:
  assumes "keyed key rows" "owner_at key owner rows i \<noteq> Some t"
  shows "finish a i t rows = (False, rows)"
proof -
  obtain ok rows' where r: "finish a i t rows = (ok, rows')" by (cases "finish a i t rows")
  have "\<not> ok" using finish_hit [OF assms(1), of a i t rows'] r assms(2) by (cases ok) simp_all
  then have "rows' = rows" using finish_miss [of a i t rows rows'] r by simp
  with r \<open>\<not> ok\<close> show ?thesis by simp
qed

text \<open>After a takeover by another token, or a recovery, the first token is dead.\<close>

lemma displaced_finish_noop:
  assumes "keyed key rows" "claim c i t' rows = (True, rows')" "t' \<noteq> t"
  shows "finish a i t rows' = (False, rows')"
proof (rule stale_finish_noop)
  show "keyed key rows'" using claim_keyed [OF assms(1), of c i t'] assms(2) by simp
  show "owner_at key owner rows' i \<noteq> Some t" using claim_hit [OF assms(1,2)] assms(3) by simp
qed

lemma expired_finish_noop:
  assumes "keyed key rows" "expire x i rows = (True, rows')"
  shows "finish a i t rows' = (False, rows')"
proof (rule stale_finish_noop)
  show "keyed key rows'" using expire_keyed [OF assms(1), of x i] assms(2) by simp
  show "owner_at key owner rows' i \<noteq> Some t" using expire_hit [OF assms] by simp
qed

fun exec_lease :: "('c, 'a, 'x, 'i, 't) lease_op \<Rightarrow> 'r list \<Rightarrow> bool \<times> 'r list" where
  "exec_lease (Claim c i t) rows = claim c i t rows"
| "exec_lease (Finish a i t) rows = finish a i t rows"
| "exec_lease (Expire x i) rows = expire x i rows"

text \<open>The successful transitions of a sequence of operations, by token.\<close>

fun finishes :: "('c, 'a, 'x, 'i, 't) lease_op list \<Rightarrow> 'r list \<Rightarrow> 't list" where
  "finishes [] rows = []"
| "finishes (opn # ops) rows =
     (let (ok, rows') = exec_lease opn rows in
      (case opn of Finish a i t \<Rightarrow> if ok then t # finishes ops rows' else finishes ops rows'
       | _ \<Rightarrow> finishes ops rows'))"

definition claims_of :: "('c, 'a, 'x, 'i, 't) lease_op list \<Rightarrow> 't list" where
  "claims_of ops = concat (map (\<lambda>opn. case opn of Claim c i t \<Rightarrow> [t] | _ \<Rightarrow> []) ops)"

definition live_tokens :: "'r list \<Rightarrow> 't set" where
  "live_tokens rows = {t. \<exists>i. owner_at key owner rows i = Some t}"

lemma exec_lease_keyed: "keyed key rows \<Longrightarrow> keyed key (snd (exec_lease opn rows))"
  by (cases opn) (simp_all add: claim_keyed finish_keyed expire_keyed)

lemma exec_lease_miss: "exec_lease opn rows = (False, rows') \<Longrightarrow> rows' = rows"
  by (cases opn) (auto dest: claim_miss finish_miss expire_miss)

definition one_each :: "'r list \<Rightarrow> bool" where
  "one_each rows \<longleftrightarrow> (\<forall>i j t. owner_at key owner rows i = Some t \<longrightarrow> owner_at key owner rows j = Some t \<longrightarrow> i = j)"

text \<open>When every claim draws a new token, a token finishes at most once, and only a token that
  was live or claimed later.\<close>

lemma finishes_distinct:
  assumes "keyed key rows" "one_each rows" "distinct (claims_of ops)"
    and "set (claims_of ops) \<inter> live_tokens rows = {}"
  shows "distinct (finishes ops rows) \<and> set (finishes ops rows) \<subseteq> live_tokens rows \<union> set (claims_of ops)"
  using assms
proof (induction ops arbitrary: rows)
  case (Cons opn ops)
  obtain ok rows' where ex: "exec_lease opn rows = (ok, rows')" by (cases "exec_lease opn rows")
  have keyed': "keyed key rows'" using exec_lease_keyed [OF Cons.prems(1), of opn] ex by simp
  have tail: "distinct (claims_of ops)" "set (claims_of ops) \<subseteq> set (claims_of (opn # ops))"
    using Cons.prems(3) by (auto simp: claims_of_def)
  show ?case
  proof (cases ok)
    case False
    then have "rows' = rows"
      using ex exec_lease_miss [of opn rows rows'] by simp
    then have "finishes (opn # ops) rows = finishes ops rows"
      using ex False by (cases opn) simp_all
    moreover from Cons.prems(4) tail(2) have "set (claims_of ops) \<inter> live_tokens rows = {}" by blast
    then have "distinct (finishes ops rows) \<and> set (finishes ops rows) \<subseteq> live_tokens rows \<union> set (claims_of ops)"
      by (rule Cons.IH [OF Cons.prems(1,2) tail(1)])
    ultimately show ?thesis using tail(2) by auto
  next
    case True
    show ?thesis
    proof (cases opn)
      case (Claim c i t)
      then have own: "owner_at key owner rows' = (owner_at key owner rows)(i := Some t)"
        using claim_hit [OF Cons.prems(1)] ex True by simp
      have fresh: "t \<notin> live_tokens rows" "t \<notin> set (claims_of ops)"
        using Cons.prems(3,4) Claim by (auto simp: claims_of_def)
      have one: "one_each rows'"
        using Cons.prems(2) fresh(1) unfolding one_each_def live_tokens_def own by auto
      have live: "live_tokens rows' \<subseteq> insert t (live_tokens rows)"
        unfolding live_tokens_def own by auto
      have cl: "claims_of (opn # ops) = t # claims_of ops" using Claim by (simp add: claims_of_def)
      have "set (claims_of ops) \<inter> live_tokens rows' = {}"
        using live fresh(2) Cons.prems(4) cl by auto
      then have "distinct (finishes ops rows') \<and> set (finishes ops rows') \<subseteq> live_tokens rows' \<union> set (claims_of ops)"
        by (rule Cons.IH [OF keyed' one tail(1)])
      moreover have "finishes (opn # ops) rows = finishes ops rows'" using ex Claim by simp
      moreover have "live_tokens rows' \<union> set (claims_of ops) \<subseteq> live_tokens rows \<union> set (claims_of (opn # ops))"
        unfolding cl list.set using live by blast
      ultimately show ?thesis by (simp only:) blast
    next
      case (Finish a i t)
      then have own: "owner_at key owner rows i = Some t"
        "owner_at key owner rows' = (owner_at key owner rows)(i := None)"
        using finish_hit [OF Cons.prems(1)] ex True by simp_all
      have one: "one_each rows'" using Cons.prems(2) unfolding one_each_def own(2) by auto
      have "t \<in> live_tokens rows" using own(1) by (auto simp: live_tokens_def)
      moreover have "live_tokens rows' \<subseteq> live_tokens rows - {t}"
      proof
        fix u assume "u \<in> live_tokens rows'"
        then obtain j where j: "j \<noteq> i" "owner_at key owner rows j = Some u"
          unfolding live_tokens_def own(2) by (auto split: if_splits)
        then show "u \<in> live_tokens rows - {t}"
          using Cons.prems(2) own(1) unfolding one_each_def live_tokens_def by blast
      qed
      ultimately have live: "live_tokens rows' \<subseteq> live_tokens rows - {t}" "t \<in> live_tokens rows"
        by simp_all
      have cl: "claims_of (opn # ops) = claims_of ops" using Finish by (simp add: claims_of_def)
      have disj: "set (claims_of ops) \<inter> live_tokens rows = {}" using Cons.prems(4) cl by simp
      then have "set (claims_of ops) \<inter> live_tokens rows' = {}" using live(1) by blast
      then have rest: "distinct (finishes ops rows')"
        "set (finishes ops rows') \<subseteq> live_tokens rows' \<union> set (claims_of ops)"
        using Cons.IH [OF keyed' one tail(1)] by simp_all
      have "t \<notin> set (finishes ops rows')" using rest(2) live disj by blast
      moreover have "finishes (opn # ops) rows = t # finishes ops rows'" using ex Finish True by simp
      moreover have "set (t # finishes ops rows') \<subseteq> live_tokens rows \<union> set (claims_of (opn # ops))"
        unfolding cl list.set using rest(2) live by blast
      ultimately show ?thesis using rest(1) by (metis distinct.simps(2))
    next
      case (Expire x i)
      then have own: "owner_at key owner rows' = (owner_at key owner rows)(i := None)"
        using expire_hit [OF Cons.prems(1)] ex True by simp
      have one: "one_each rows'" using Cons.prems(2) unfolding one_each_def own by auto
      have live: "live_tokens rows' \<subseteq> live_tokens rows"
        unfolding live_tokens_def own by (auto split: if_splits)
      have cl: "claims_of (opn # ops) = claims_of ops" using Expire by (simp add: claims_of_def)
      have "set (claims_of ops) \<inter> live_tokens rows' = {}" using live Cons.prems(4) cl by auto
      then have "distinct (finishes ops rows') \<and> set (finishes ops rows') \<subseteq> live_tokens rows' \<union> set (claims_of ops)"
        by (rule Cons.IH [OF keyed' one tail(1)])
      moreover have "finishes (opn # ops) rows = finishes ops rows'" using ex Expire by simp
      moreover have "live_tokens rows' \<union> set (claims_of ops) \<subseteq> live_tokens rows \<union> set (claims_of (opn # ops))"
        unfolding cl list.set using live by blast
      ultimately show ?thesis by (simp only:) blast
    qed
  qed
qed simp

end

end
