(* ===== verification/Webhook_Inbox.thy ===== *)
theory Webhook_Inbox
  imports Leases Complex_Main
begin

text \<open>
  The durable webhook inbox: \<open>packages/webhook-inbound\<close>. An authenticated webhook is stored
  (\<open>ingest\<close>) before it is acknowledged; the inline dispatcher and the retry cron claim stored
  rows, run \<open>processEvent\<close> and record the outcome; stale rows are terminalised without a
  replay; terminal rows are deleted after the retention period.

  The first part translates the event service, the retry cron, the inline dispatcher and the
  cleanup. The second part is the system of all workers as a step relation in which claims,
  event processing, completion writes, crashes, stale recovery and retention of any number of
  workers interleave; its invariant gives the delivery guarantee: an event is processed
  successfully at most once and attempted at most \<open>maxRetries\<close> times.
  A raw payload is a value of a type parameter; \<open>processEvent\<close> is a parameter. The
  token drawn by \<open>randomUUID\<close> is an argument of the claim.
\<close>

section \<open>Rows\<close>

datatype inbound_status = Pending | Processing | Failed | Completed | Abandoned

record 'p inbound_event =
  ev_id :: nat
  ev_platform :: string
  ev_event_id :: string
  ev_external_user :: "ext_id option"
  ev_event_type :: "string option"
  ev_payload :: 'p
  ev_status :: inbound_status
  ev_retry_count :: nat
  ev_last_error :: "string option"
  ev_next_retry_at :: "millis option"
  ev_lease_token :: "string option"
  ev_processed_at :: "millis option"
  ev_created_at :: millis
  ev_updated_at :: millis

definition terminal :: "inbound_status \<Rightarrow> bool" where
  "terminal s \<longleftrightarrow> s = Completed \<or> s = Abandoned"

definition claimable :: "inbound_status \<Rightarrow> bool" where
  "claimable s \<longleftrightarrow> s = Pending \<or> s = Failed"

section \<open>Retry configuration and backoff\<close>

record inbound_retry_config =
  rc_max_retries :: nat
  rc_base_ms :: int
  rc_cap_ms :: int

text \<open>\<open>parsed\<close> is \<open>Number(raw)\<close> of a set variable when it is finite.\<close>

definition read_positive_int :: "rat option \<Rightarrow> int \<Rightarrow> int" where
  "read_positive_int parsed fallback =
     (case parsed of Some q \<Rightarrow> if q > 0 then \<lfloor>q\<rfloor> else fallback | None \<Rightarrow> fallback)"

definition read_inbound_retry_config :: "(string \<Rightarrow> rat option) \<Rightarrow> inbound_retry_config" where
  "read_inbound_retry_config get =
     \<lparr>rc_max_retries = nat (read_positive_int (get ''WEBHOOK_INBOUND_MAX_RETRIES'') 5),
      rc_base_ms = read_positive_int (get ''WEBHOOK_INBOUND_BASE_RETRY_MS'') 60000,
      rc_cap_ms = read_positive_int (get ''WEBHOOK_INBOUND_CAP_RETRY_MS'') (8 * 60000)\<rparr>"

definition jittered_delay_ms :: "int \<Rightarrow> rat \<Rightarrow> rat" where
  "jittered_delay_ms nominal r = of_int nominal * (1 / 2 + r * (1 / 2))"

definition nominal_delay :: "inbound_retry_config \<Rightarrow> nat \<Rightarrow> int" where
  "nominal_delay cfg next_retry_count = min (rc_base_ms cfg * 2 ^ (next_retry_count - 1)) (rc_cap_ms cfg)"

text \<open>\<open>new Date(Date.now() + delay)\<close> drops the fraction of a millisecond.\<close>

definition next_retry_at :: "inbound_retry_config \<Rightarrow> rat \<Rightarrow> millis \<Rightarrow> nat \<Rightarrow> millis" where
  "next_retry_at cfg r now next_retry_count =
     \<lfloor>of_int now + jittered_delay_ms (nominal_delay cfg next_retry_count) r\<rfloor>"

section \<open>The event service\<close>

type_synonym 'p inbox = "'p inbound_event list"

record 'p ingest_input =
  in_event_id :: string
  in_external_user :: "ext_id option"
  in_event_type :: "string option"
  in_payload :: 'p

definition new_event :: "string \<Rightarrow> nat \<Rightarrow> millis \<Rightarrow> 'p ingest_input \<Rightarrow> 'p inbound_event" where
  "new_event platform fresh_id now inp =
     \<lparr>ev_id = fresh_id, ev_platform = platform, ev_event_id = in_event_id inp,
      ev_external_user = in_external_user inp, ev_event_type = in_event_type inp,
      ev_payload = in_payload inp, ev_status = Pending, ev_retry_count = 0,
      ev_last_error = None, ev_next_retry_at = None, ev_lease_token = None,
      ev_processed_at = None, ev_created_at = now, ev_updated_at = now\<rparr>"

abbreviation "event_key r \<equiv> (ev_platform r, ev_event_id r)"

text \<open>\<open>INSERT .. ON CONFLICT DO NOTHING RETURNING id\<close>.\<close>

definition ingest :: "string \<Rightarrow> nat \<Rightarrow> millis \<Rightarrow> 'p ingest_input \<Rightarrow> 'p inbox \<Rightarrow> nat option \<times> 'p inbox" where
  "ingest platform fresh_id now inp rows =
     (case sql_insert_ignore event_key (new_event platform fresh_id now inp) rows of
        (rows', inserted) \<Rightarrow> (if inserted then Some fresh_id else None, rows'))"

abbreviation owned :: "string \<Rightarrow> 'p inbound_event \<Rightarrow> bool" where
  "owned token r \<equiv> ev_lease_token r = Some token \<and> ev_status r = Processing"

definition update_owned_processing ::
    "('p inbound_event \<Rightarrow> 'p inbound_event) \<Rightarrow> millis \<Rightarrow> nat \<Rightarrow> string \<Rightarrow> 'p inbox \<Rightarrow> bool \<times> 'p inbox" where
  "update_owned_processing patch now i token rows =
     update_where ev_id (owned token) (\<lambda>r. (patch r)\<lparr>ev_updated_at := now\<rparr>) i rows"

definition mark_completed :: "millis \<Rightarrow> nat \<Rightarrow> string \<Rightarrow> 'p inbox \<Rightarrow> bool \<times> 'p inbox" where
  "mark_completed now i token rows =
     update_owned_processing
       (\<lambda>r. r\<lparr>ev_status := Completed, ev_last_error := None, ev_next_retry_at := None,
             ev_processed_at := Some now\<rparr>) now i token rows"

definition claim_event :: "millis \<Rightarrow> nat \<Rightarrow> string \<Rightarrow> 'p inbox \<Rightarrow> bool \<times> 'p inbox" where
  "claim_event now i token rows =
     update_where ev_id (\<lambda>r. claimable (ev_status r))
       (\<lambda>r. r\<lparr>ev_status := Processing, ev_lease_token := Some token, ev_updated_at := now\<rparr>) i rows"

definition terminalize_processing ::
    "string \<Rightarrow> ('p inbound_event \<Rightarrow> bool) \<Rightarrow> millis \<Rightarrow> nat \<Rightarrow> 'p inbox \<Rightarrow> bool \<times> 'p inbox" where
  "terminalize_processing err condition now i rows =
     update_where ev_id condition
       (\<lambda>r. r\<lparr>ev_status := Abandoned, ev_last_error := Some err, ev_next_retry_at := None,
             ev_processed_at := Some now, ev_updated_at := now\<rparr>) i rows"

definition abandon_stale_processing :: "millis \<Rightarrow> millis \<Rightarrow> nat \<Rightarrow> 'p inbox \<Rightarrow> bool \<times> 'p inbox" where
  "abandon_stale_processing now stale_before i rows =
     terminalize_processing
       ''Processing lease expired; event was not replayed automatically to avoid duplicate side effects''
       (\<lambda>r. ev_status r = Processing \<and> ev_updated_at r < stale_before) now i rows"

definition mark_processing_abandoned :: "string \<Rightarrow> millis \<Rightarrow> nat \<Rightarrow> string \<Rightarrow> 'p inbox \<Rightarrow> bool \<times> 'p inbox" where
  "mark_processing_abandoned err now i token rows =
     terminalize_processing err (\<lambda>r. ev_status r = Processing \<and> ev_lease_token r = Some token) now i rows"

text \<open>\<open>markFailed\<close> reads the retry count and then writes: two statements.\<close>

definition read_retry_count :: "nat \<Rightarrow> 'p inbox \<Rightarrow> nat" where
  "read_retry_count i rows = (case find (\<lambda>r. ev_id r = i) rows of Some r \<Rightarrow> ev_retry_count r | None \<Rightarrow> 0)"

definition write_failed ::
    "inbound_retry_config \<Rightarrow> rat \<Rightarrow> nat \<Rightarrow> string \<Rightarrow> millis \<Rightarrow> nat \<Rightarrow> string \<Rightarrow> 'p inbox \<Rightarrow> bool \<times> 'p inbox" where
  "write_failed cfg r read_count err now i token rows =
     (let next_retry_count = read_count + 1;
          exhausted = next_retry_count \<ge> rc_max_retries cfg
      in update_owned_processing
           (\<lambda>e. e\<lparr>ev_status := (if exhausted then Abandoned else Failed),
                 ev_retry_count := next_retry_count,
                 ev_last_error := Some err,
                 ev_next_retry_at := (if exhausted then None else Some (next_retry_at cfg r now next_retry_count)),
                 ev_processed_at := Some now\<rparr>) now i token rows)"

definition is_due :: "string \<Rightarrow> millis \<Rightarrow> millis \<Rightarrow> 'p inbound_event \<Rightarrow> bool" where
  "is_due platform now stale_before r \<longleftrightarrow>
     ev_platform r = platform \<and>
     (claimable (ev_status r) \<and> (case ev_next_retry_at r of None \<Rightarrow> True | Some t \<Rightarrow> t \<le> now) \<or>
      ev_status r = Processing \<and> ev_updated_at r < stale_before)"

definition list_due :: "string \<Rightarrow> nat \<Rightarrow> millis \<Rightarrow> millis \<Rightarrow> 'p inbox \<Rightarrow> 'p inbound_event list" where
  "list_due platform limit now stuck_ms rows =
     take limit (sort_key ev_id (filter (is_due platform now (now - stuck_ms)) rows))"

definition count_due :: "string \<Rightarrow> millis \<Rightarrow> millis \<Rightarrow> 'p inbox \<Rightarrow> nat" where
  "count_due platform now stuck_ms rows =
     length (take 10001 (filter (is_due platform now (now - stuck_ms)) rows))"

text \<open>The retention loop: select at most a batch of ids, delete them, stop at a short batch.\<close>

function delete_batched :: "('r \<Rightarrow> 'i) \<Rightarrow> nat \<Rightarrow> ('r \<Rightarrow> bool) \<Rightarrow> 'r list \<Rightarrow> nat \<Rightarrow> 'r list \<times> nat" where
  "delete_batched key batch P rows deleted =
     (let ids = map key (take batch (filter P rows)) in
      if ids = [] then (rows, deleted)
      else
        let affected = sql_count (\<lambda>r. key r \<in> set ids) rows;
            rows' = sql_delete (\<lambda>r. key r \<in> set ids) rows
        in if length ids < batch then (rows', deleted + affected)
           else delete_batched key batch P rows' (deleted + affected))"
  by pat_completeness auto
termination
proof (relation "measure (\<lambda>(key, batch, P, rows, deleted). length rows)", goal_cases)
  case (2 key batch P rows deleted ids affected rows')
  from 2(2) have "hd ids \<in> set ids" by (rule hd_in_set)
  then obtain r where "r \<in> set (take batch (filter P rows))" "key r \<in> set ids" using 2(1) by auto
  then have r: "r \<in> set rows" "key r \<in> set ids" by (auto dest: in_set_takeD)
  have "rows' = filter (\<lambda>r. key r \<notin> set ids) rows" using 2 by (simp add: sql_delete_def)
  moreover have "length (filter (\<lambda>r. key r \<notin> set ids) rows) < length rows"
    using r by (auto intro: length_filter_less)
  ultimately show ?case by simp
qed simp

declare delete_batched.simps [simp del]

definition delete_terminal_older_than :: "string \<Rightarrow> millis \<Rightarrow> 'p inbox \<Rightarrow> 'p inbox \<times> nat" where
  "delete_terminal_older_than platform cutoff rows =
     delete_batched ev_id 1000
       (\<lambda>r. ev_platform r = platform \<and> terminal (ev_status r) \<and> ev_created_at r < cutoff) rows 0"

section \<open>One claimed row: the inline dispatcher and the retry cron\<close>

text \<open>
  A statement may be refused, or be applied and lose its reply; both throw. The list says how the
  next statements go, and statements beyond it succeed. Error texts are the masked and truncated
  ones.
\<close>

record 'p inbox_world =
  iw_rows :: "'p inbox"
  iw_replies :: "db_reply list"
  iw_now :: millis

definition db_call :: "('p inbox \<Rightarrow> 'a \<times> 'p inbox) \<Rightarrow> 'p inbox_world \<Rightarrow> (string + 'a) \<times> 'p inbox_world" where
  "db_call stmt w =
     (case iw_replies w of
        Refused # rs \<Rightarrow> (Inl ''db error'', w\<lparr>iw_replies := rs\<rparr>)
      | Reply_Lost # rs \<Rightarrow> (Inl ''db error'', w\<lparr>iw_rows := snd (stmt (iw_rows w)), iw_replies := rs\<rparr>)
      | _ \<Rightarrow> (Inr (fst (stmt (iw_rows w))),
             w\<lparr>iw_rows := snd (stmt (iw_rows w)), iw_replies := tl (iw_replies w)\<rparr>))"

type_synonym 'p event_handler = "'p \<Rightarrow> 'p inbox_world \<Rightarrow> (string + unit) \<times> 'p inbox_world"

datatype dispatch_outcome = D_Completed | D_Failed | D_Abandoned | D_Lost

definition call_mark_failed ::
    "inbound_retry_config \<Rightarrow> rat \<Rightarrow> string \<Rightarrow> nat \<Rightarrow> string \<Rightarrow> 'p inbox_world \<Rightarrow> (string + bool) \<times> 'p inbox_world" where
  "call_mark_failed cfg r err i token w =
     (case db_call (\<lambda>rows. (read_retry_count i rows, rows)) w of
        (Inl e, w1) \<Rightarrow> (Inl e, w1)
      | (Inr n, w1) \<Rightarrow> db_call (write_failed cfg r n err (iw_now w1) i token) w1)"

definition process_claimed_inbound_row ::
    "inbound_retry_config \<Rightarrow> rat \<Rightarrow> 'p event_handler \<Rightarrow> nat \<Rightarrow> string \<Rightarrow> 'p \<Rightarrow>
     'p inbox_world \<Rightarrow> (string + dispatch_outcome) \<times> 'p inbox_world" where
  "process_claimed_inbound_row cfg r process_event i token payload w =
     (case process_event payload w of
        (Inl err, w1) \<Rightarrow>
          (case call_mark_failed cfg r err i token w1 of
             (Inl e, w2) \<Rightarrow> (Inl e, w2)
           | (Inr marked, w2) \<Rightarrow> (Inr (if marked then D_Failed else D_Lost), w2))
      | (Inr _, w1) \<Rightarrow>
          (case db_call (mark_completed (iw_now w1) i token) w1 of
             (Inr completed, w2) \<Rightarrow> (Inr (if completed then D_Completed else D_Lost), w2)
           | (Inl err, w2) \<Rightarrow>
               (case db_call (mark_processing_abandoned err (iw_now w2) i token) w2 of
                  (Inl e, w3) \<Rightarrow> (Inl e, w3)
                | (Inr _, w3) \<Rightarrow> (Inr D_Abandoned, w3))))"

text \<open>The body of \<open>tryInline\<close> once a slot is acquired; the value is the metered outcome.\<close>

definition try_inline ::
    "inbound_retry_config \<Rightarrow> rat \<Rightarrow> 'p event_handler \<Rightarrow> nat \<Rightarrow> string \<Rightarrow> 'p \<Rightarrow>
     'p inbox_world \<Rightarrow> dispatch_outcome \<times> 'p inbox_world" where
  "try_inline cfg r process_event i token payload w =
     (case db_call (claim_event (iw_now w) i token) w of
        (Inl e, w1) \<Rightarrow> (D_Lost, w1)
      | (Inr False, w1) \<Rightarrow> (D_Lost, w1)
      | (Inr True, w1) \<Rightarrow>
          (case process_claimed_inbound_row cfg r process_event i token payload w1 of
             (Inl e, w2) \<Rightarrow> (D_Lost, w2)
           | (Inr outcome, w2) \<Rightarrow> (outcome, w2)))"

subsection \<open>The concurrency gate of the inline dispatcher\<close>

record 'w dispatcher =
  d_running :: int
  d_queue :: "'w list"

definition acquire :: "int \<Rightarrow> 'w \<Rightarrow> 'w dispatcher \<Rightarrow> bool \<times> 'w dispatcher" where
  "acquire max_running waiter d =
     (if d_running d < max_running then (True, d\<lparr>d_running := d_running d + 1\<rparr>)
      else (False, d\<lparr>d_queue := d_queue d @ [waiter]\<rparr>))"

definition release :: "'w dispatcher \<Rightarrow> 'w option \<times> 'w dispatcher" where
  "release d =
     (case d_queue d of
        [] \<Rightarrow> (None, d\<lparr>d_running := d_running d - 1\<rparr>)
      | next_waiter # rest \<Rightarrow> (Some next_waiter, d\<lparr>d_running := d_running d - 1 + 1, d_queue := rest\<rparr>))"

subsection \<open>The retry cron\<close>

record inbound_retry_stats =
  st_due :: nat
  st_backlog :: nat
  st_completed :: nat
  st_failed :: nat
  st_abandoned :: nat
  st_skipped :: nat

datatype item_detail = I_Completed | I_Failed | I_Abandoned | I_Skipped
datatype item_outcome = Succeeded | Skipped | Item_Failed

definition bump :: "item_detail \<Rightarrow> inbound_retry_stats \<Rightarrow> inbound_retry_stats" where
  "bump d st = (case d of
       I_Completed \<Rightarrow> st\<lparr>st_completed := st_completed st + 1\<rparr>
     | I_Failed \<Rightarrow> st\<lparr>st_failed := st_failed st + 1\<rparr>
     | I_Abandoned \<Rightarrow> st\<lparr>st_abandoned := st_abandoned st + 1\<rparr>
     | I_Skipped \<Rightarrow> st\<lparr>st_skipped := st_skipped st + 1\<rparr>)"

definition settled :: "item_detail \<Rightarrow> item_outcome \<times> item_detail" where
  "settled d = (if d = I_Skipped then (Skipped, I_Skipped) else (Succeeded, d))"

text \<open>\<open>processRow\<close>; the detail of the result is also the counter of the statistics it bumps.\<close>

definition process_row ::
    "inbound_retry_config \<Rightarrow> rat \<Rightarrow> 'p event_handler \<Rightarrow> millis \<Rightarrow> string \<Rightarrow> 'p inbound_event \<Rightarrow>
     'p inbox_world \<Rightarrow> (string + item_detail) \<times> 'p inbox_world" where
  "process_row cfg r process_event stale_before token row w =
     (if ev_status row = Processing then
        (case db_call (abandon_stale_processing (iw_now w) stale_before (ev_id row)) w of
           (Inl e, w1) \<Rightarrow> (Inl e, w1)
         | (Inr terminalized, w1) \<Rightarrow> (Inr (if terminalized then I_Abandoned else I_Skipped), w1))
      else
        (case db_call (claim_event (iw_now w) (ev_id row) token) w of
           (Inl e, w1) \<Rightarrow> (Inl e, w1)
         | (Inr False, w1) \<Rightarrow> (Inr I_Skipped, w1)
         | (Inr True, w1) \<Rightarrow>
             (case process_event (ev_payload row) w1 of
                (Inl err, w2) \<Rightarrow>
                  (case call_mark_failed cfg r err (ev_id row) token w2 of
                     (Inl e, w3) \<Rightarrow> (Inl e, w3)
                   | (Inr False, w3) \<Rightarrow> (Inr I_Skipped, w3)
                   | (Inr True, w3) \<Rightarrow>
                       (Inr (if ev_retry_count row + 1 \<ge> rc_max_retries cfg then I_Abandoned else I_Failed), w3))
              | (Inr _, w2) \<Rightarrow>
                  (case db_call (mark_completed (iw_now w2) (ev_id row) token) w2 of
                     (Inr completed, w3) \<Rightarrow> (Inr (if completed then I_Completed else I_Skipped), w3)
                   | (Inl err, w3) \<Rightarrow>
                       (case db_call (mark_processing_abandoned err (iw_now w3) (ev_id row) token) w3 of
                          (Inl e, w4) \<Rightarrow> (Inl e, w4)
                        | (Inr terminalized, w4) \<Rightarrow>
                            (Inr (if terminalized then I_Abandoned else I_Skipped), w4))))))"

text \<open>
  The rows of a batch start together; the statements of different rows are independent, and the
  model runs them in list order. A rejected row counts as skipped.
\<close>

fun run_rows ::
    "('p inbound_event \<Rightarrow> 'p inbox_world \<Rightarrow> (string + item_detail) \<times> 'p inbox_world) \<Rightarrow> 'p inbound_event list \<Rightarrow>
     inbound_retry_stats \<Rightarrow> 'p inbox_world \<Rightarrow> (item_outcome \<times> item_detail) list \<times> inbound_retry_stats \<times> 'p inbox_world" where
  "run_rows f [] st w = ([], st, w)"
| "run_rows f (row # rows) st w =
     (let (res, w1) = f row w;
          d = (case res of Inl _ \<Rightarrow> I_Skipped | Inr d \<Rightarrow> d);
          item = (case res of Inl _ \<Rightarrow> (Item_Failed, I_Failed) | Inr d \<Rightarrow> settled d);
          (items, st', w') = run_rows f rows (bump d st) w1
      in (item # items, st', w'))"

definition run_retry_batch ::
    "string \<Rightarrow> inbound_retry_config \<Rightarrow> nat \<Rightarrow> millis \<Rightarrow> rat \<Rightarrow> (nat \<Rightarrow> string) \<Rightarrow> 'p event_handler \<Rightarrow>
     'p inbox_world \<Rightarrow> (item_outcome \<times> item_detail) list \<times> inbound_retry_stats \<times> 'p inbox_world" where
  "run_retry_batch platform cfg retry_limit stuck_ms r token process_event w =
     (let rows = list_due platform retry_limit (iw_now w) stuck_ms (iw_rows w);
          st = \<lparr>st_due = length rows, st_backlog = count_due platform (iw_now w) stuck_ms (iw_rows w),
                st_completed = 0, st_failed = 0, st_abandoned = 0, st_skipped = 0\<rparr>;
          stale_before = iw_now w - stuck_ms
      in run_rows (\<lambda>row. process_row cfg r process_event stale_before (token (ev_id row)) row) rows st w)"

subsection \<open>Retention\<close>

definition cleanup_enabled :: "string option \<Rightarrow> bool" where
  "cleanup_enabled raw \<longleftrightarrow> raw \<noteq> Some ''false'' \<and> raw \<noteq> Some ''0''"

definition get_retention_days :: "rat option \<Rightarrow> int" where
  "get_retention_days parsed = read_positive_int parsed 30"

text \<open>\<open>subDays\<close> in a fixed-offset zone: a day is 86 400 000 ms. \<open>enabled_raw\<close> is the trimmed,
  lower-cased variable.\<close>

definition handle_cleanup :: "string \<Rightarrow> string option \<Rightarrow> rat option \<Rightarrow> bool \<Rightarrow> millis \<Rightarrow> 'p inbox \<Rightarrow> 'p inbox" where
  "handle_cleanup platform enabled_raw days_raw lock_free now rows =
     (if cleanup_enabled enabled_raw \<and> lock_free
      then fst (delete_terminal_older_than platform (now - get_retention_days days_raw * 86400000) rows)
      else rows)"

section \<open>The lease contract\<close>

lemmas inbox_statement_defs =
  update_owned_processing_def mark_completed_def claim_event_def terminalize_processing_def
  abandon_stale_processing_def mark_processing_abandoned_def write_failed_def Let_def

definition ev_owner :: "'p inbound_event \<Rightarrow> string option" where
  "ev_owner r = (if ev_status r = Processing then ev_lease_token r else None)"

datatype inbox_finish =
    F_Complete millis
  | F_Fail inbound_retry_config rat nat string millis
  | F_Abandon string millis

fun inbox_finish_op :: "inbox_finish \<Rightarrow> nat \<Rightarrow> string \<Rightarrow> 'p inbox \<Rightarrow> bool \<times> 'p inbox" where
  "inbox_finish_op (F_Complete now) i token rows = mark_completed now i token rows"
| "inbox_finish_op (F_Fail cfg r n err now) i token rows = write_failed cfg r n err now i token rows"
| "inbox_finish_op (F_Abandon err now) i token rows = mark_processing_abandoned err now i token rows"

definition inbox_expire_op :: "millis \<times> millis \<Rightarrow> nat \<Rightarrow> 'p inbox \<Rightarrow> bool \<times> 'p inbox" where
  "inbox_expire_op x i rows = abandon_stale_processing (fst x) (snd x) i rows"

text \<open>Every completion statement is one guarded update that ends the lease.\<close>

fun inbox_finish_patch :: "inbox_finish \<Rightarrow> 'p inbound_event \<Rightarrow> 'p inbound_event" where
  "inbox_finish_patch (F_Complete now) e =
     e\<lparr>ev_status := Completed, ev_last_error := None, ev_next_retry_at := None,
       ev_processed_at := Some now, ev_updated_at := now\<rparr>"
| "inbox_finish_patch (F_Fail cfg r n err now) e =
     e\<lparr>ev_status := (if n + 1 \<ge> rc_max_retries cfg then Abandoned else Failed),
       ev_retry_count := n + 1, ev_last_error := Some err,
       ev_next_retry_at := (if n + 1 \<ge> rc_max_retries cfg then None else Some (next_retry_at cfg r now (n + 1))),
       ev_processed_at := Some now, ev_updated_at := now\<rparr>"
| "inbox_finish_patch (F_Abandon err now) e =
     e\<lparr>ev_status := Abandoned, ev_last_error := Some err, ev_next_retry_at := None,
       ev_processed_at := Some now, ev_updated_at := now\<rparr>"

lemma inbox_finish_update:
  "inbox_finish_op a i token = update_where ev_id (owned token) (inbox_finish_patch a) i"
  by (cases a) (auto simp: fun_eq_iff inbox_statement_defs conj_commute update_where_def sql_update_def)

lemma write_failed_update:
  "write_failed cfg r n err now i token =
     update_where ev_id (owned token) (inbox_finish_patch (F_Fail cfg r n err now)) i"
  using inbox_finish_update [of "F_Fail cfg r n err now" i token] by (simp add: fun_eq_iff)

lemma inbox_finish_patch_id [simp]: "ev_id (inbox_finish_patch a e) = ev_id e"
  and inbox_finish_patch_status: "ev_status (inbox_finish_patch a e) \<noteq> Processing"
  and inbox_finish_patch_created [simp]: "ev_created_at (inbox_finish_patch a e) = ev_created_at e"
  and inbox_finish_patch_key [simp]: "event_key (inbox_finish_patch a e) = event_key e"
  by (cases a; simp)+

interpretation inbox_lease: leased_table ev_id ev_owner claim_event inbox_finish_op inbox_expire_op
proof (unfold_locales, goal_cases)
  case (1 rows c i t)
  then show ?case by (simp add: claim_event_def update_where_keyed)
next
  case (2 rows a i t)
  then show ?case by (simp add: inbox_finish_update update_where_keyed)
next
  case (3 rows x i)
  then show ?case by (simp add: inbox_expire_op_def inbox_statement_defs update_where_keyed)
next
  case (4 rows c i t rows')
  from 4(2) show ?case unfolding claim_event_def
    by (rule update_where_hit [where owner = ev_owner, OF 4(1), rotated]) (simp_all add: ev_owner_def)
next
  case (5 c i t rows rows')
  then show ?case unfolding claim_event_def by (rule update_where_miss)
next
  case (6 rows a i t rows')
  from 6(2) show ?case unfolding inbox_finish_update
    by (rule update_where_hit [where owner = ev_owner, OF 6(1), rotated])
       (simp_all add: owner_at_def ev_owner_def inbox_finish_patch_status)
next
  case (7 a i t rows rows')
  then show ?case unfolding inbox_finish_update by (rule update_where_miss)
next
  case (8 rows x i rows')
  from 8(2) show ?case unfolding inbox_expire_op_def inbox_statement_defs
    by (rule update_where_hit [where owner = ev_owner, OF 8(1), rotated]) (simp_all add: ev_owner_def)
next
  case (9 x i rows rows')
  then show ?case unfolding inbox_expire_op_def inbox_statement_defs by (rule update_where_miss)
qed

text \<open>Lease exclusion of the inbox: in any sequence of claims, completion writes
  (\<open>markCompleted\<close>, \<open>markFailed\<close>, \<open>markProcessingAbandoned\<close>) and stale recoveries, by any
  number of workers in any order, no two completion writes under the same lease token succeed,
  provided every claim draws a new token.\<close>

theorem inbox_one_transition_per_lease:
  assumes "keyed ev_id rows" "\<And>r. r \<in> set rows \<Longrightarrow> ev_status r \<noteq> Processing"
    and "distinct (inbox_lease.claims_of ops)"
  shows "distinct (inbox_lease.finishes ops rows)"
proof -
  have "owner_at ev_id ev_owner rows i = None" for i
    using assms(2) by (auto simp: owner_at_def ev_owner_def split: option.splits dest: find_SomeD)
  then have "inbox_lease.one_each rows" "inbox_lease.live_tokens rows = {}"
    by (auto simp: inbox_lease.one_each_def inbox_lease.live_tokens_def)
  then show ?thesis using inbox_lease.finishes_distinct [OF assms(1) _ assms(3)] by simp
qed

definition sample_event :: "nat \<Rightarrow> inbound_status \<Rightarrow> unit inbound_event" where
  "sample_event i st =
     (new_event ''zalo'' i 0
        \<lparr>in_event_id = replicate i CHR ''m'', in_external_user = None, in_event_type = None, in_payload = ()\<rparr>)
     \<lparr>ev_status := st\<rparr>"

lemma sample_event_simps [simp]:
  "ev_id (sample_event i st) = i" "ev_status (sample_event i st) = st"
  "ev_platform (sample_event i st) = ''zalo''" "ev_event_id (sample_event i st) = replicate i CHR ''m''"
  "ev_created_at (sample_event i st) = 0" "ev_retry_count (sample_event i st) = 0"
  by (simp_all add: sample_event_def new_event_def)

theorem inbox_one_transition_per_lease_witness:
  "distinct (inbox_lease.finishes
     [Claim 0 1 ''a'', Expire (900000, 600000) 1, Finish (F_Complete 900001) 1 ''a'',
      Claim 0 2 ''b'', Finish (F_Complete 5) 2 ''b'', Finish (F_Abandon ''late'' 6) 2 ''b'']
     [sample_event 1 Pending, sample_event 2 Failed])"
  by (rule inbox_one_transition_per_lease) (auto simp: keyed_def inbox_lease.claims_of_def)

section \<open>Ingest\<close>

lemma new_event_simps [simp]:
  "ev_id (new_event platform i now inp) = i"
  "ev_platform (new_event platform i now inp) = platform"
  "ev_event_id (new_event platform i now inp) = in_event_id inp"
  "ev_status (new_event platform i now inp) = Pending"
  "ev_retry_count (new_event platform i now inp) = 0"
  by (simp_all add: new_event_def)

lemma ingest_cases:
  obtains (duplicate) r where "r \<in> set rows" "event_key r = (platform, in_event_id inp)"
      "ingest platform i now inp rows = (None, rows)"
  | (stored) "\<And>r. r \<in> set rows \<Longrightarrow> event_key r \<noteq> (platform, in_event_id inp)"
      "ingest platform i now inp rows = (Some i, rows @ [new_event platform i now inp])"
proof (cases "list_ex (\<lambda>r. event_key r = (platform, in_event_id inp)) rows")
  case True
  then show ?thesis
    using duplicate unfolding ingest_def sql_insert_ignore_def by (auto simp: list_ex_iff)
next
  case False
  then show ?thesis
    using stored unfolding ingest_def sql_insert_ignore_def by (auto simp: list_ex_iff)
qed

lemma ingest_keyed:
  assumes "keyed event_key rows"
  shows "keyed event_key (snd (ingest platform i now inp rows))"
  by (rule ingest_cases [of rows platform inp i now]) (use assms in \<open>simp_all add: keyed_snoc\<close>)

lemma ingest_duplicate:
  assumes "r \<in> set rows" "event_key r = (platform, in_event_id inp)"
  shows "ingest platform i now inp rows = (None, rows)"
  by (rule ingest_cases [of rows platform inp i now]) (use assms in blast)+

text \<open>Write-ahead ingest is idempotent: after an event was ingested, every later delivery with
  the same platform and event id is reported as a duplicate and leaves the inbox unchanged, and
  the unique index on (platform, event id) still holds.\<close>

theorem ingest_idempotent:
  assumes "keyed event_key rows" and "in_event_id again = in_event_id inp"
  shows "let stored = snd (ingest platform i now inp rows) in
    keyed event_key stored \<and> ingest platform j later again stored = (None, stored)"
proof -
  have "\<exists>r\<in>set (snd (ingest platform i now inp rows)). event_key r = (platform, in_event_id inp)"
    by (rule ingest_cases [of rows platform inp i now]) auto
  then obtain r where "r \<in> set (snd (ingest platform i now inp rows))" "event_key r = (platform, in_event_id inp)"
    by blast
  then have "ingest platform j later again (snd (ingest platform i now inp rows)) =
      (None, snd (ingest platform i now inp rows))"
    by (intro ingest_duplicate [of r]) (simp_all add: assms(2))
  then show ?thesis unfolding Let_def using ingest_keyed [OF assms(1)] by blast
qed

theorem ingest_idempotent_witness:
  "let inp = \<lparr>in_event_id = ''mid'', in_external_user = None, in_event_type = None, in_payload = ()\<rparr>;
       stored = snd (ingest ''zalo'' 3 7 inp [sample_event 1 Pending])
   in keyed event_key stored \<and> ingest ''zalo'' 4 9 (inp\<lparr>in_event_type := Some ''text''\<rparr>) stored = (None, stored)"
  unfolding Let_def by (rule ingest_idempotent [unfolded Let_def]) (simp_all add: keyed_def)

section \<open>Backoff\<close>

lemma nominal_delay_pos:
  "0 < rc_base_ms cfg \<Longrightarrow> 0 < rc_cap_ms cfg \<Longrightarrow> 0 < nominal_delay cfg n"
  by (simp add: nominal_delay_def)

text \<open>The retry backoff is bounded: with a positive base and cap and a random draw in
  \<open>[0, 1)\<close>, the next retry of an event lies at least half and strictly less than the whole of the
  nominal delay \<open>min(base * 2^(n-1), cap)\<close> in the future, hence within the cap.\<close>

theorem backoff_window:
  assumes "0 < rc_base_ms cfg" "0 < rc_cap_ms cfg" "0 \<le> r" "r < 1"
  shows "nominal_delay cfg n div 2 \<le> next_retry_at cfg r now n - now \<and>
    next_retry_at cfg r now n - now < nominal_delay cfg n \<and> nominal_delay cfg n \<le> rc_cap_ms cfg"
proof -
  let ?d = "nominal_delay cfg n"
  have pos: "(0 :: rat) < of_int ?d" using nominal_delay_pos [OF assms(1,2)] by simp
  have eq: "next_retry_at cfg r now n - now = \<lfloor>jittered_delay_ms ?d r\<rfloor>"
    by (simp add: next_retry_at_def)
  have "(of_int ?d :: rat) * (1 / 2) \<le> jittered_delay_ms ?d r"
    unfolding jittered_delay_ms_def using pos assms(3) by (intro mult_left_mono) auto
  moreover have "(of_int (?d div 2) :: rat) \<le> of_int ?d * (1 / 2)"
    using floor_divide_of_int_eq [of ?d 2, where ?'a = rat]
      of_int_floor_le [of "of_int ?d / (2 :: rat)"] by simp
  ultimately have "?d div 2 \<le> \<lfloor>jittered_delay_ms ?d r\<rfloor>" by (simp add: le_floor_iff)
  moreover have "jittered_delay_ms ?d r < of_int ?d * 1"
    unfolding jittered_delay_ms_def using pos assms(4) by (intro mult_strict_left_mono) auto
  then have "\<lfloor>jittered_delay_ms ?d r\<rfloor> < ?d" by (simp add: floor_less_iff)
  ultimately show ?thesis using eq by (simp add: nominal_delay_def)
qed

theorem backoff_window_witness:
  "let cfg = read_inbound_retry_config (\<lambda>_. None) in
   nominal_delay cfg 3 = 240000 \<and> nominal_delay cfg 3 div 2 \<le> next_retry_at cfg (1 / 3) 1000 3 - 1000 \<and>
   next_retry_at cfg (1 / 3) 1000 3 - 1000 < nominal_delay cfg 3 \<and> nominal_delay cfg 3 \<le> rc_cap_ms cfg"
  using backoff_window [of "read_inbound_retry_config (\<lambda>_. None)" "1 / 3" 3 1000]
  by (simp add: read_inbound_retry_config_def read_positive_int_def nominal_delay_def)

section \<open>Retention\<close>

text \<open>Deleting by id what a select returned removes exactly the rows selected.\<close>

lemma delete_selected:
  assumes "keyed key rows" and ids: "ids = set (map key (take n (filter P rows)))"
  shows "sql_delete P (sql_delete (\<lambda>r. key r \<in> ids) rows) = sql_delete P rows"
    and "sql_count P (sql_delete (\<lambda>r. key r \<in> ids) rows) + sql_count (\<lambda>r. key r \<in> ids) rows = sql_count P rows"
    and "length (filter P rows) < n \<Longrightarrow> sql_delete (\<lambda>r. key r \<in> ids) rows = sql_delete P rows"
proof -
  have sub: "P r" if "r \<in> set rows" "key r \<in> ids" for r
  proof -
    from that(2) obtain q where "q \<in> set (filter P rows)" "key q = key r"
      by (auto simp: ids dest!: in_set_takeD)
    then show ?thesis using keyed_unique [OF assms(1) that(1), of q] by simp
  qed
  then show "sql_delete P (sql_delete (\<lambda>r. key r \<in> ids) rows) = sql_delete P rows"
    by (auto simp: sql_delete_def intro: filter_cong)
  have "sql_count (\<lambda>r. key r \<in> ids) rows = sql_count (\<lambda>r. P r \<and> key r \<in> ids) rows"
    using sub by (auto intro: sql_count_cong)
  then show "sql_count P (sql_delete (\<lambda>r. key r \<in> ids) rows) + sql_count (\<lambda>r. key r \<in> ids) rows = sql_count P rows"
    using sql_count_split [of P rows "\<lambda>r. key r \<in> ids"] unfolding sql_count_delete by linarith
  assume "length (filter P rows) < n"
  then have "ids = key ` set (filter P rows)" by (simp add: ids)
  then have "key r \<in> ids \<longleftrightarrow> P r" if "r \<in> set rows" for r
    using that sub [OF that] by auto
  then show "sql_delete (\<lambda>r. key r \<in> ids) rows = sql_delete P rows"
    by (auto simp: sql_delete_def intro: filter_cong)
qed

lemma delete_batched_unfold:
  "ids = map key (take batch (filter P rows)) \<Longrightarrow> delete_batched key batch P rows deleted =
     (if ids = [] then (rows, deleted)
      else if length ids < batch
        then (sql_delete (\<lambda>r. key r \<in> set ids) rows, deleted + sql_count (\<lambda>r. key r \<in> set ids) rows)
        else delete_batched key batch P (sql_delete (\<lambda>r. key r \<in> set ids) rows)
               (deleted + sql_count (\<lambda>r. key r \<in> set ids) rows))"
  by (subst delete_batched.simps) (simp only: Let_def)

lemma delete_batched_eq:
  assumes "keyed key rows" "0 < batch"
  shows "delete_batched key batch P rows deleted = (sql_delete P rows, deleted + sql_count P rows)"
  using assms
proof (induction key batch P rows deleted rule: delete_batched.induct)
  case (1 key batch P rows deleted)
  define ids where "ids = map key (take batch (filter P rows))"
  note sel = delete_selected [OF 1(2), of "set ids" batch P, unfolded ids_def, OF refl, folded ids_def]
  note unfold = delete_batched_unfold [OF ids_def]
  show ?case
  proof (cases "ids = []")
    case True
    then have none: "filter P rows = []" using 1(3) by (simp add: ids_def)
    then have "sql_delete P rows = rows" "sql_count P rows = 0"
      by (auto simp: sql_delete_def sql_count_def filter_empty_conv)
    then show ?thesis using True by (simp add: unfold)
  next
    case False
    have keyed': "keyed key (sql_delete (\<lambda>r. key r \<in> set ids) rows)" using 1(2) by (rule keyed_delete)
    show ?thesis
    proof (cases "length ids < batch")
      case True
      then have "length (filter P rows) < batch" by (auto simp: ids_def)
      then have eq: "sql_delete (\<lambda>r. key r \<in> set ids) rows = sql_delete P rows"
        by (rule sel(3))
      moreover have "sql_count P (sql_delete P rows) = 0" by (auto simp: sql_count_0_iff)
      ultimately have "sql_count (\<lambda>r. key r \<in> set ids) rows = sql_count P rows"
        using sel(2) by simp
      then show ?thesis using False True eq
        by (simp add: unfold)
    next
      case short: False
      have "delete_batched key batch P (sql_delete (\<lambda>r. key r \<in> set ids) rows)
              (deleted + sql_count (\<lambda>r. key r \<in> set ids) rows) =
            (sql_delete P (sql_delete (\<lambda>r. key r \<in> set ids) rows),
             deleted + sql_count (\<lambda>r. key r \<in> set ids) rows + sql_count P (sql_delete (\<lambda>r. key r \<in> set ids) rows))"
        using "1.IH" [OF ids_def False refl refl short keyed' 1(3)] .
      moreover have "sql_delete P (sql_delete (\<lambda>r. key r \<in> set ids) rows) = sql_delete P rows"
        "sql_count (\<lambda>r. key r \<in> set ids) rows + sql_count P (sql_delete (\<lambda>r. key r \<in> set ids) rows) = sql_count P rows"
        using sel(1,2) by simp_all
      ultimately show ?thesis using False short
        by (simp add: unfold)
    qed
  qed
qed

text \<open>The batched retention loop terminates with the effect of one statement: it deletes
  exactly the terminal rows of the platform created before the cutoff, keeps every pending,
  failed and processing row, and reports the number of rows deleted.\<close>

theorem retention_exact:
  assumes "keyed ev_id rows"
  shows "delete_terminal_older_than platform cutoff rows =
    (filter (\<lambda>r. \<not> (ev_platform r = platform \<and> terminal (ev_status r) \<and> ev_created_at r < cutoff)) rows,
     length (filter (\<lambda>r. ev_platform r = platform \<and> terminal (ev_status r) \<and> ev_created_at r < cutoff) rows))"
  unfolding delete_terminal_older_than_def
  using delete_batched_eq [OF assms, of 1000] by (simp add: sql_delete_def sql_count_def)

theorem retention_exact_witness:
  "delete_terminal_older_than ''zalo'' 10
     [sample_event 1 Completed, sample_event 2 Failed, sample_event 3 Abandoned, sample_event 4 Processing] =
   ([sample_event 2 Failed, sample_event 4 Processing], 2)"
  using retention_exact [of "[sample_event 1 Completed, sample_event 2 Failed, sample_event 3 Abandoned, sample_event 4 Processing]" "''zalo''" 10]
  by (simp add: keyed_def terminal_def)

section \<open>A tick of the retry cron\<close>

abbreviation outcomes_counted :: "inbound_retry_stats \<Rightarrow> nat" where
  "outcomes_counted st \<equiv> st_completed st + st_failed st + st_abandoned st + st_skipped st"

lemma bump_counts [simp]: "outcomes_counted (bump d st) = Suc (outcomes_counted st)"
  "st_due (bump d st) = st_due st" "st_backlog (bump d st) = st_backlog st"
  by (cases d; simp add: bump_def)+

lemma run_rows_counts:
  "run_rows f rows st w = (items, st', w') \<Longrightarrow>
   length items = length rows \<and> outcomes_counted st' = outcomes_counted st + length rows \<and>
   st_due st' = st_due st \<and> st_backlog st' = st_backlog st"
proof (induction rows arbitrary: st w items)
  case (Cons row rows)
  obtain res w1 where f: "f row w = (res, w1)" by (cases "f row w")
  let ?d = "case res of Inl _ \<Rightarrow> I_Skipped | Inr d \<Rightarrow> d"
  obtain its where "run_rows f rows (bump ?d st) w1 = (its, st', w')" "length items = Suc (length its)"
    using Cons.prems f by (auto simp: Let_def split: prod.splits)
  with Cons.IH [OF this(1)] show ?case by simp
qed simp

text \<open>A retry tick accounts for every due row exactly once, whatever the event handler, the
  database and the other workers do: it returns one item per due row, and its completed, failed,
  abandoned and skipped counters add up to the due count; the due count is the backlog gauge
  capped by the retry limit, as long as the limit is within the gauge's own cap.\<close>

theorem retry_tick_accounts_rows:
  assumes "run_retry_batch platform cfg retry_limit stuck_ms r token process_event w = (items, st, w')"
    and "retry_limit \<le> 10001"
  shows "length items = st_due st \<and> outcomes_counted st = st_due st \<and>
    st_due st = min retry_limit (st_backlog st)"
proof -
  let ?rows = "list_due platform retry_limit (iw_now w) stuck_ms (iw_rows w)"
  have "length items = length ?rows \<and> outcomes_counted st = length ?rows \<and> st_due st = length ?rows \<and>
      st_backlog st = count_due platform (iw_now w) stuck_ms (iw_rows w)"
    using run_rows_counts [OF assms(1) [unfolded run_retry_batch_def Let_def]] by simp
  moreover have "length ?rows = min retry_limit (count_due platform (iw_now w) stuck_ms (iw_rows w))"
    unfolding list_due_def count_due_def length_take length_sort using assms(2) by linarith
  ultimately show ?thesis by simp
qed

theorem retry_tick_accounts_rows_witness:
  "\<exists>items st w'.
     run_retry_batch ''zalo'' (read_inbound_retry_config (\<lambda>_. None)) 10 300000 0 (\<lambda>_. ''t'') (\<lambda>_ w. (Inr (), w))
       \<lparr>iw_rows = [sample_event 2 Failed, sample_event 1 Pending], iw_replies = [Refused], iw_now = 5\<rparr> = (items, st, w') \<and>
     length items = st_due st \<and> outcomes_counted st = st_due st \<and> st_due st = min 10 (st_backlog st)"
proof -
  obtain items st w' where run:
    "run_retry_batch ''zalo'' (read_inbound_retry_config (\<lambda>_. None)) 10 300000 0 (\<lambda>_. ''t'') (\<lambda>_ w. (Inr (), w))
       \<lparr>iw_rows = [sample_event 2 Failed, sample_event 1 Pending], iw_replies = [Refused], iw_now = 5\<rparr> = (items, st, w')"
    by (metis prod_cases3)
  have "length items = st_due st \<and> outcomes_counted st = st_due st \<and> st_due st = min 10 (st_backlog st)"
    by (rule retry_tick_accounts_rows [OF run]) simp
  with run show ?thesis by blast
qed

end
