(* ===== verification/Inbox_Workers.thy ===== *)
theory Inbox_Workers
  imports Webhook_Inbox
begin

text \<open>
  Any number of inbox workers (inline dispatchers and retry crons of several processes) over one
  table. Every statement of the event service is one step; between two statements of a worker
  the other workers, the stale recovery and the retention job may run, and a worker may crash.
  The state records, beside the table, which phase each lease token's worker is in and, as a
  history variable, the outcome of every \<open>processEvent\<close> call.

  The invariant \<open>ok_entry\<close> relates, for one event, the row, the workers that hold or once
  held it and the calls made so far. It gives the delivery guarantee of the inbox. The code of
  \<open>processRow\<close> and \<open>tryInline\<close> is then shown to run only steps of this system.
\<close>

section \<open>The system\<close>

datatype worker_phase = Running | Processed | Errored | Failing nat

record 'p inbox_sys =
  ix_rows :: "'p inbox"
  ix_next :: nat
  ix_phase :: "string \<Rightarrow> (nat \<times> worker_phase) option"
  ix_used :: "string set"
  ix_log :: "(nat \<times> bool) list"

definition init_inbox :: "'p inbox_sys" where
  "init_inbox = \<lparr>ix_rows = [], ix_next = 0, ix_phase = (\<lambda>_. None), ix_used = {}, ix_log = []\<rparr>"

definition calls :: "(nat \<times> bool) list \<Rightarrow> nat \<Rightarrow> nat" where
  "calls l i = length (filter (\<lambda>e. fst e = i) l)"

definition successes :: "(nat \<times> bool) list \<Rightarrow> nat \<Rightarrow> nat" where
  "successes l i = length (filter (\<lambda>e. e = (i, True)) l)"

lemma calls_Cons [simp]: "calls (e # l) i = (if fst e = i then Suc (calls l i) else calls l i)"
  and successes_Cons [simp]: "successes (e # l) i = (if e = (i, True) then Suc (successes l i) else successes l i)"
  and calls_Nil [simp]: "calls [] i = 0" and successes_Nil [simp]: "successes [] i = 0"
  by (simp_all add: calls_def successes_def)

inductive inbox_step :: "inbound_retry_config \<Rightarrow> 'p inbox_sys \<Rightarrow> 'p inbox_sys \<Rightarrow> bool" for cfg where
  s_ingest: "inbox_step cfg s (s\<lparr>ix_rows := snd (ingest platform (ix_next s) now inp (ix_rows s)), ix_next := Suc (ix_next s)\<rparr>)"
| s_claim: "t \<notin> ix_used s \<Longrightarrow> claim_event now i t (ix_rows s) = (True, rows') \<Longrightarrow>
    inbox_step cfg s (s\<lparr>ix_rows := rows', ix_phase := (ix_phase s)(t \<mapsto> (i, Running)), ix_used := insert t (ix_used s)\<rparr>)"
| s_process: "ix_phase s t = Some (i, Running) \<Longrightarrow>
    inbox_step cfg s (s\<lparr>ix_phase := (ix_phase s)(t \<mapsto> (i, if ok then Processed else Errored)), ix_log := (i, ok) # ix_log s\<rparr>)"
| s_read: "ix_phase s t = Some (i, Errored) \<Longrightarrow>
    inbox_step cfg s (s\<lparr>ix_phase := (ix_phase s)(t \<mapsto> (i, Failing (read_retry_count i (ix_rows s))))\<rparr>)"
| s_fail: "ix_phase s t = Some (i, Failing n) \<Longrightarrow>
    inbox_step cfg s (s\<lparr>ix_rows := snd (write_failed cfg r n err now i t (ix_rows s)), ix_phase := (ix_phase s)(t := None)\<rparr>)"
| s_complete: "ix_phase s t = Some (i, Processed) \<Longrightarrow>
    inbox_step cfg s (s\<lparr>ix_rows := snd (mark_completed now i t (ix_rows s))\<rparr>)"
| s_abandon: "ix_phase s t = Some (i, Processed) \<Longrightarrow>
    inbox_step cfg s (s\<lparr>ix_rows := snd (mark_processing_abandoned err now i t (ix_rows s))\<rparr>)"
| s_stop: "inbox_step cfg s (s\<lparr>ix_phase := (ix_phase s)(t := None)\<rparr>)"
| s_stale: "inbox_step cfg s (s\<lparr>ix_rows := snd (abandon_stale_processing now stale_before i (ix_rows s))\<rparr>)"
| s_retention: "inbox_step cfg s (s\<lparr>ix_rows := fst (delete_terminal_older_than platform cutoff (ix_rows s))\<rparr>)"

inductive inbox_path :: "inbound_retry_config \<Rightarrow> 'p inbox_sys \<Rightarrow> 'p inbox_sys \<Rightarrow> bool" for cfg where
  path_refl: "inbox_path cfg s s"
| path_step: "inbox_path cfg s s' \<Longrightarrow> inbox_step cfg s' s'' \<Longrightarrow> inbox_path cfg s s''"

section \<open>The invariant\<close>

definition workers_on :: "(string \<Rightarrow> (nat \<times> worker_phase) option) \<Rightarrow> nat \<Rightarrow> (string \<times> worker_phase) set" where
  "workers_on phase i = {(t, ph). phase t = Some (i, ph)}"

abbreviation row_at :: "'p inbox \<Rightarrow> nat \<Rightarrow> 'p inbound_event option" where
  "row_at rows i \<equiv> find (\<lambda>r. ev_id r = i) rows"

definition phase_ok :: "nat \<Rightarrow> nat \<Rightarrow> nat \<Rightarrow> worker_phase \<Rightarrow> bool" where
  "phase_ok retry a b ph = (case ph of
      Running \<Rightarrow> a = retry
    | Processed \<Rightarrow> True
    | Errored \<Rightarrow> a = Suc retry \<and> b = 0
    | Failing n \<Rightarrow> n = retry \<and> a = Suc retry \<and> b = 0)"

definition solo :: "'a set \<Rightarrow> bool" where
  "solo W \<longleftrightarrow> (\<forall>w\<in>W. \<forall>w'\<in>W. w = w')"

lemma solo_simps [simp]: "solo {}" "solo {w}"
  and solo_mono: "solo W \<Longrightarrow> W' \<subseteq> W \<Longrightarrow> solo W'"
  and solo_only: "solo W \<Longrightarrow> w \<in> W \<Longrightarrow> W = {w}"
  unfolding solo_def by blast+

definition ok_entry :: "nat \<Rightarrow> 'p inbound_event option \<Rightarrow> (string \<times> worker_phase) set \<Rightarrow> nat \<Rightarrow> nat \<Rightarrow> bool" where
  "ok_entry M ro W a b \<longleftrightarrow>
     a \<le> M \<and> b \<le> 1 \<and> solo W \<and> (\<forall>t. (t, Running) \<in> W \<longrightarrow> a < M \<and> b = 0) \<and>
     (\<forall>r. ro = Some r \<longrightarrow>
        (claimable (ev_status r) \<longrightarrow> W = {} \<and> a = ev_retry_count r \<and> a < M \<and> b = 0) \<and>
        (ev_status r = Processing \<longrightarrow>
           (\<forall>(t, ph)\<in>W. ev_lease_token r = Some t \<and> phase_ok (ev_retry_count r) a b ph)))"

definition inbox_inv :: "nat \<Rightarrow> 'p inbox_sys \<Rightarrow> bool" where
  "inbox_inv M s \<longleftrightarrow>
     keyed ev_id (ix_rows s) \<and>
     (\<forall>r\<in>set (ix_rows s). ev_id r < ix_next s) \<and>
     (\<forall>t i ph. ix_phase s t = Some (i, ph) \<longrightarrow> i < ix_next s \<and> t \<in> ix_used s) \<and>
     (\<forall>e\<in>set (ix_log s). fst e < ix_next s) \<and>
     (\<forall>i. ok_entry M (row_at (ix_rows s) i) (workers_on (ix_phase s) i) (calls (ix_log s) i) (successes (ix_log s) i))"

lemma inbox_invD:
  assumes "inbox_inv M s"
  shows "keyed ev_id (ix_rows s)" "r \<in> set (ix_rows s) \<Longrightarrow> ev_id r < ix_next s"
    "ix_phase s t = Some (i, ph) \<Longrightarrow> i < ix_next s" "ix_phase s t = Some (i, ph) \<Longrightarrow> t \<in> ix_used s"
    "e \<in> set (ix_log s) \<Longrightarrow> fst e < ix_next s"
    "ok_entry M (row_at (ix_rows s) i) (workers_on (ix_phase s) i) (calls (ix_log s) i) (successes (ix_log s) i)"
  using assms unfolding inbox_inv_def by blast+

lemma workers_on_upd:
  "workers_on (phase(t \<mapsto> (i, ph))) j =
     (if j = i then insert (t, ph) (workers_on phase i - {t} \<times> UNIV) else workers_on phase j - {t} \<times> UNIV)"
  "workers_on (phase(t := None)) j = workers_on phase j - {t} \<times> UNIV"
  by (auto simp: workers_on_def split: if_splits)

text \<open>Steps that change only the row of one event.\<close>

lemma inbox_inv_row:
  assumes "inbox_inv M s" and f: "\<And>r. ev_id (f r) = ev_id r"
    and ok: "\<And>r. row_at (ix_rows s) i = Some r \<Longrightarrow> P r \<Longrightarrow>
      ok_entry M (Some (f r)) (workers_on (ix_phase s) i) (calls (ix_log s) i) (successes (ix_log s) i)"
  shows "inbox_inv M (s\<lparr>ix_rows := snd (update_where ev_id P f i (ix_rows s))\<rparr>)"
proof -
  let ?rows = "snd (update_where ev_id P f i (ix_rows s))"
  have "ev_id r < ix_next s" if "r \<in> set ?rows" for r
    using that inbox_invD(2) [OF assms(1)] by (auto simp: update_where_def set_sql_update f)
  moreover have "ok_entry M (row_at ?rows j) (workers_on (ix_phase s) j) (calls (ix_log s) j) (successes (ix_log s) j)" for j
    using inbox_invD(6) [OF assms(1), of j] ok
    by (cases "row_at (ix_rows s) i") (auto simp: find_update_where f)
  ultimately show ?thesis
    using assms(1) update_where_keyed [OF inbox_invD(1) [OF assms(1)] f, of P i]
    unfolding inbox_inv_def by simp
qed

text \<open>Steps that change only the phase of one worker and the history of its event.\<close>

lemma inbox_inv_phase:
  assumes "inbox_inv M s" and "ix_phase s t = Some (i, ph)" and "log' = ix_log s \<or> log' = (i, ok) # ix_log s"
    and "phase' = (ix_phase s)(t \<mapsto> (i, ph'))"
    and "ok_entry M (row_at (ix_rows s) i) {(t, ph')} (calls log' i) (successes log' i)"
  shows "inbox_inv M (s\<lparr>ix_phase := phase', ix_log := log'\<rparr>)"
proof -
  have only: "workers_on (ix_phase s) i = {(t, ph)}"
    using inbox_invD(6) [OF assms(1), of i] assms(2) by (intro solo_only) (simp_all add: ok_entry_def workers_on_def)
  have off: "(t, x) \<notin> workers_on (ix_phase s) j" if "j \<noteq> i" for j x
    using assms(2) that by (simp add: workers_on_def)
  have "workers_on phase' j = (if j = i then {(t, ph')} else workers_on (ix_phase s) j)" for j
    using off [of j] by (auto simp: assms(4) workers_on_upd only)
  moreover have "calls log' j = calls (ix_log s) j" "successes log' j = successes (ix_log s) j" if "j \<noteq> i" for j
    using assms(3) that by auto
  ultimately have "ok_entry M (row_at (ix_rows s) j) (workers_on phase' j) (calls log' j) (successes log' j)" for j
    using inbox_invD(6) [OF assms(1), of j] assms(5) by (cases "j = i") auto
  moreover have "\<forall>e\<in>set log'. fst e < ix_next s"
    using assms(3) inbox_invD(5) [OF assms(1)] inbox_invD(3) [OF assms(1,2)] by auto
  moreover have "\<forall>u j p. phase' u = Some (j, p) \<longrightarrow> j < ix_next s \<and> u \<in> ix_used s"
    using inbox_invD(3,4) [OF assms(1)] assms(2,4) by (auto split: if_splits)
  ultimately show ?thesis using assms(1) unfolding inbox_inv_def by simp
qed

text \<open>What a row may become without touching the workers or the history.\<close>

lemma ok_entry_final:
  "ok_entry M ro W a b \<Longrightarrow> terminal (ev_status r) \<Longrightarrow> ok_entry M (Some r) W a b"
  "ok_entry M ro W a b \<Longrightarrow> ok_entry M None W a b"
  by (auto simp: ok_entry_def terminal_def claimable_def)

lemma ok_entry_mono: "ok_entry M ro W a b \<Longrightarrow> W' \<subseteq> W \<Longrightarrow> ok_entry M ro W' a b"
  unfolding ok_entry_def using solo_mono by blast

lemma inbox_inv_stop:
  assumes "inbox_inv M s"
  shows "inbox_inv M (s\<lparr>ix_phase := (ix_phase s)(t := None)\<rparr>)"
proof -
  have "ok_entry M (row_at (ix_rows s) j) (workers_on ((ix_phase s)(t := None)) j)
      (calls (ix_log s) j) (successes (ix_log s) j)" for j
    using inbox_invD(6) [OF assms, of j] by (rule ok_entry_mono) (auto simp: workers_on_upd)
  then show ?thesis using assms unfolding inbox_inv_def by simp
qed

lemma inbox_inv_ingest:
  assumes "inbox_inv M s" "0 < M"
  shows "inbox_inv M (s\<lparr>ix_rows := snd (ingest platform (ix_next s) now inp (ix_rows s)), ix_next := Suc (ix_next s)\<rparr>)"
proof -
  let ?n = "ix_next s" and ?e = "new_event platform (ix_next s) now inp"
  note inv = inbox_invD [OF assms(1)]
  have base: "inbox_inv M (s\<lparr>ix_next := Suc ?n\<rparr>)"
    using inv unfolding inbox_inv_def by (simp add: less_Suc_eq)
  have grown: "inbox_inv M (s\<lparr>ix_rows := ix_rows s @ [?e], ix_next := Suc ?n\<rparr>)"
  proof -
    have ids: "ev_id r \<noteq> ?n" if "r \<in> set (ix_rows s)" for r using inv(2) [OF that] by simp
    have idle: "workers_on (ix_phase s) ?n = {}" using inv(3) by (auto simp: workers_on_def)
    have quiet: "calls (ix_log s) ?n = 0" "successes (ix_log s) ?n = 0"
      using inv(5) by (fastforce simp: calls_def successes_def filter_empty_conv)+
    have "ok_entry M (row_at (ix_rows s @ [?e]) j) (workers_on (ix_phase s) j) (calls (ix_log s) j) (successes (ix_log s) j)" for j
    proof (cases "j = ?n")
      case True
      moreover have "row_at (ix_rows s) ?n = None" using ids by (auto simp: find_None_iff)
      then have "row_at (ix_rows s @ [?e]) ?n = Some ?e" by (simp add: find_snoc)
      ultimately show ?thesis
        using idle quiet assms(2) by (simp add: ok_entry_def)
    next
      case False
      then have "row_at (ix_rows s @ [?e]) j = row_at (ix_rows s) j" by (simp add: find_snoc split: option.splits)
      then show ?thesis using inv(6) by simp
    qed
    moreover have "keyed ev_id (ix_rows s @ [?e])" using inv(1) ids by (intro keyed_snoc) auto
    ultimately show ?thesis using base unfolding inbox_inv_def by simp
  qed
  show ?thesis
    by (rule ingest_cases [of "ix_rows s" platform inp ?n now]) (use base grown in simp_all)
qed

lemma inbox_inv_claim:
  assumes "inbox_inv M s" "t \<notin> ix_used s" "claim_event now i t (ix_rows s) = (True, rows')"
  shows "inbox_inv M (s\<lparr>ix_rows := rows', ix_phase := (ix_phase s)(t \<mapsto> (i, Running)), ix_used := insert t (ix_used s)\<rparr>)"
proof -
  note inv = inbox_invD [OF assms(1)]
  let ?f = "\<lambda>r. r\<lparr>ev_status := Processing, ev_lease_token := Some t, ev_updated_at := now\<rparr>"
  have rows': "rows' = snd (update_where ev_id (\<lambda>r. claimable (ev_status r)) ?f i (ix_rows s))"
    using assms(3) by (simp add: claim_event_def)
  from assms(3) [unfolded claim_event_def] obtain r
    where r: "row_at (ix_rows s) i = Some r" "claimable (ev_status r)"
    by (rule update_where_hit [OF inv(1), rotated]) auto
  have free: "workers_on (ix_phase s) i = {}" "calls (ix_log s) i = ev_retry_count r"
    "calls (ix_log s) i < M" "successes (ix_log s) i = 0"
    using inv(6) [of i] r by (auto simp: ok_entry_def)
  have taken: "inbox_inv M (s\<lparr>ix_rows := rows'\<rparr>)" unfolding rows'
    by (rule inbox_inv_row [OF assms(1)]) (use r free in \<open>auto simp: ok_entry_def claimable_def\<close>)
  have unused: "ix_phase s t = None" using inv(4) [of t] assms(2) by (cases "ix_phase s t") auto
  have at: "row_at rows' i = Some (?f r)" using r unfolding rows' by (simp add: find_update_where)
  have W: "workers_on ((ix_phase s)(t \<mapsto> (i, Running))) j = (if j = i then {(t, Running)} else workers_on (ix_phase s) j)" for j
    using free(1) unused by (auto simp: workers_on_def split: if_splits)
  have "ok_entry M (row_at rows' j) (workers_on ((ix_phase s)(t \<mapsto> (i, Running))) j) (calls (ix_log s) j) (successes (ix_log s) j)" for j
  proof (cases "j = i")
    case True
    then show ?thesis using free by (simp add: W at ok_entry_def phase_ok_def claimable_def)
  next
    case False
    then show ?thesis using inbox_invD(6) [OF taken, of j] by (simp add: W)
  qed
  moreover have "i < ix_next s" using inv(2) r(1) by (auto dest: find_SomeD)
  ultimately show ?thesis using taken unfolding inbox_inv_def by (auto split: if_splits)
qed

lemma inbox_inv_fail:
  assumes "inbox_inv M s" "ix_phase s t = Some (i, Failing n)" "M = max 1 (rc_max_retries cfg)"
  shows "inbox_inv M (s\<lparr>ix_rows := snd (write_failed cfg r n err now i t (ix_rows s)), ix_phase := (ix_phase s)(t := None)\<rparr>)"
proof -
  let ?s = "s\<lparr>ix_phase := (ix_phase s)(t := None)\<rparr>"
  let ?p = "inbox_finish_patch (F_Fail cfg r n err now)"
  have W: "workers_on (ix_phase s) i = {(t, Failing n)}"
    using inbox_invD(6) [OF assms(1), of i] assms(2) by (intro solo_only) (simp_all add: ok_entry_def workers_on_def)
  have "ok_entry M (Some (?p e)) (workers_on (ix_phase ?s) i) (calls (ix_log ?s) i) (successes (ix_log ?s) i)"
    if "row_at (ix_rows ?s) i = Some e" "owned t e" for e
  proof -
    have "n = ev_retry_count e" "calls (ix_log s) i = Suc (ev_retry_count e)" "successes (ix_log s) i = 0"
      "calls (ix_log s) i \<le> M"
      using inbox_invD(6) [OF assms(1), of i] that W by (auto simp: ok_entry_def phase_ok_def)
    moreover have "workers_on (ix_phase ?s) i = {}" by (simp add: workers_on_upd W)
    ultimately show ?thesis using assms(3) by (auto simp: ok_entry_def claimable_def)
  qed
  then have "inbox_inv M (?s\<lparr>ix_rows := snd (update_where ev_id (owned t) ?p i (ix_rows ?s))\<rparr>)"
    using inbox_inv_stop [OF assms(1)] by (intro inbox_inv_row) auto
  then show ?thesis by (simp add: write_failed_update inbox_inv_def)
qed

lemma inbox_inv_final:
  assumes "inbox_inv M s" "\<And>r. ev_id (f r) = ev_id r" "\<And>r. terminal (ev_status (f r))"
  shows "inbox_inv M (s\<lparr>ix_rows := snd (update_where ev_id P f i (ix_rows s))\<rparr>)"
  by (rule inbox_inv_row [OF assms(1,2)]) (rule ok_entry_final(1) [OF inbox_invD(6) [OF assms(1)] assms(3)])

lemma inbox_inv_retention:
  assumes "inbox_inv M s"
  shows "inbox_inv M (s\<lparr>ix_rows := fst (delete_terminal_older_than platform cutoff (ix_rows s))\<rparr>)"
proof -
  let ?P = "\<lambda>r. ev_platform r = platform \<and> terminal (ev_status r) \<and> ev_created_at r < cutoff"
  note inv = inbox_invD [OF assms]
  have rows: "fst (delete_terminal_older_than platform cutoff (ix_rows s)) = sql_delete ?P (ix_rows s)"
    unfolding delete_terminal_older_than_def by (simp add: delete_batched_eq inv(1))
  have "ok_entry M (row_at (sql_delete ?P (ix_rows s)) j) (workers_on (ix_phase s) j) (calls (ix_log s) j) (successes (ix_log s) j)" for j
    using inv(6) [of j] ok_entry_final(2) [OF inv(6) [of j]]
    unfolding find_sql_delete [OF inv(1)] by (auto split: option.splits)
  then show ?thesis using inv keyed_delete [OF inv(1)] unfolding rows inbox_inv_def by simp
qed

lemma inbox_step_inv:
  assumes "inbox_step cfg s s'" "inbox_inv (max 1 (rc_max_retries cfg)) s"
  shows "inbox_inv (max 1 (rc_max_retries cfg)) s'"
  using assms
proof (induction rule: inbox_step.induct)
  case (s_ingest s platform now inp)
  then show ?case by (intro inbox_inv_ingest) auto
next
  case (s_claim t s now i rows')
  then show ?case by (intro inbox_inv_claim) auto
next
  case (s_process s t i ok)
  then have W: "workers_on (ix_phase s) i = {(t, Running)}"
    using inbox_invD(6) [of _ s i] by (intro solo_only) (auto simp: ok_entry_def workers_on_def)
  show ?case
    by (rule inbox_inv_phase [OF s_process(2,1), of _ ok, OF _ refl])
       (use inbox_invD(6) [OF s_process(2), of i] W in \<open>auto simp: ok_entry_def phase_ok_def claimable_def\<close>)
next
  case (s_read s t i)
  then have W: "workers_on (ix_phase s) i = {(t, Errored)}"
    using inbox_invD(6) [of _ s i] by (intro solo_only) (auto simp: ok_entry_def workers_on_def)
  have "inbox_inv (max 1 (rc_max_retries cfg))
      (s\<lparr>ix_phase := (ix_phase s)(t \<mapsto> (i, Failing (read_retry_count i (ix_rows s)))), ix_log := ix_log s\<rparr>)"
    by (rule inbox_inv_phase [OF s_read(2,1) _ refl])
       (use inbox_invD(6) [OF s_read(2), of i] W in \<open>auto simp: ok_entry_def phase_ok_def claimable_def read_retry_count_def\<close>)
  then show ?case by simp
next
  case (s_fail s t i n r err now)
  then show ?case by (intro inbox_inv_fail) auto
next
  case (s_complete s t i now)
  show ?case unfolding mark_completed_def update_owned_processing_def
    by (rule inbox_inv_final [OF s_complete(2)]) (simp_all add: terminal_def)
next
  case (s_abandon s t i err now)
  show ?case unfolding mark_processing_abandoned_def terminalize_processing_def
    by (rule inbox_inv_final [OF s_abandon(2)]) (simp_all add: terminal_def)
next
  case (s_stop s t)
  then show ?case by (rule inbox_inv_stop)
next
  case (s_stale s now stale_before i)
  show ?case unfolding abandon_stale_processing_def terminalize_processing_def
    by (rule inbox_inv_final [OF s_stale]) (simp_all add: terminal_def)
next
  case (s_retention s platform cutoff)
  then show ?case by (rule inbox_inv_retention)
qed

lemma inbox_path_inv:
  "inbox_path cfg s s' \<Longrightarrow> inbox_inv (max 1 (rc_max_retries cfg)) s \<Longrightarrow> inbox_inv (max 1 (rc_max_retries cfg)) s'"
  by (induction rule: inbox_path.induct) (blast intro: inbox_step_inv)+

lemma init_inbox_inv: "inbox_inv M init_inbox"
  by (simp add: inbox_inv_def init_inbox_def ok_entry_def workers_on_def)

section \<open>Delivery guarantee\<close>

text \<open>A run of two workers: the first call fails and is retried, the second succeeds, and the
  first worker's late write does nothing.\<close>

definition two_tries :: inbound_retry_config where
  "two_tries = \<lparr>rc_max_retries = 2, rc_base_ms = 1000, rc_cap_ms = 8000\<rparr>"

lemma path_snoc: "inbox_path cfg s s' \<Longrightarrow> inbox_step cfg s' s'' \<Longrightarrow> s3 = s'' \<Longrightarrow> inbox_path cfg s s3"
  by (simp add: path_step)

lemma path_trans: "inbox_path cfg s' s'' \<Longrightarrow> inbox_path cfg s s' \<Longrightarrow> inbox_path cfg s s''"
  by (induction rule: inbox_path.induct) (auto intro: path_step)

lemmas inbox_eval = inbox_statement_defs update_where_def matches_def read_retry_count_def claimable_def

definition sample_row :: "inbound_status \<Rightarrow> nat \<Rightarrow> string option \<Rightarrow> millis \<Rightarrow> unit inbound_event" where
  "sample_row st n token t =
     (sample_event 0 st)\<lparr>ev_retry_count := n, ev_lease_token := token, ev_updated_at := t,
        ev_last_error := (if n = 0 then None else Some ''boom''),
        ev_next_retry_at := (if n = 0 then None else Some (next_retry_at two_tries 0 2 1)),
        ev_processed_at := (if n = 0 then None else Some 2)\<rparr>"

definition sample_sys ::
    "unit inbound_event \<Rightarrow> (string \<rightharpoonup> nat \<times> worker_phase) \<Rightarrow> string set \<Rightarrow> (nat \<times> bool) list \<Rightarrow> unit inbox_sys" where
  "sample_sys row phase used l = \<lparr>ix_rows = [row], ix_next = 1, ix_phase = phase, ix_used = used, ix_log = l\<rparr>"

lemma sample_claim:
  "claimable st \<Longrightarrow> claim_event now 0 t [sample_row st n tk u] = (True, [sample_row Processing n (Some t) now])"
  by (simp add: claim_event_def update_where_def matches_def sample_row_def sample_event_def new_event_def)

lemma sample_inbox_path:
  "inbox_path two_tries init_inbox
     (sample_sys (sample_row Processing 1 (Some ''b'') 3) [''b'' \<mapsto> (0, Processed)] {''a'', ''b''} [(0, True), (0, False)])"
proof -
  let ?path = "\<lambda>row phase used l. inbox_path two_tries init_inbox (sample_sys row phase used l)"
  let ?inp = "\<lparr>in_event_id = [], in_external_user = None, in_event_type = None, in_payload = ()\<rparr>"
  have "?path (sample_row Pending 0 None 0) Map.empty {} []"
    by (rule path_snoc [OF path_refl s_ingest [where platform = "''zalo''" and now = 0 and inp = ?inp]])
       (simp add: sample_sys_def sample_row_def sample_event_def init_inbox_def ingest_def sql_insert_ignore_def new_event_def)
  then have "?path (sample_row Processing 0 (Some ''a'') 1) [''a'' \<mapsto> (0, Running)] {''a''} []"
    by (rule path_snoc [OF _ s_claim [where now = 1 and i = 0 and t = "''a''"]])
       (simp_all add: sample_sys_def sample_claim claimable_def)
  then have "?path (sample_row Processing 0 (Some ''a'') 1) [''a'' \<mapsto> (0, Errored)] {''a''} [(0, False)]"
    by (rule path_snoc [OF _ s_process [where i = 0 and t = "''a''" and ok = False]]) (simp_all add: sample_sys_def)
  then have "?path (sample_row Processing 0 (Some ''a'') 1) [''a'' \<mapsto> (0, Failing 0)] {''a''} [(0, False)]"
    by (rule path_snoc [OF _ s_read [where i = 0 and t = "''a''"]])
       (simp_all add: sample_sys_def read_retry_count_def sample_row_def)
  then have "?path (sample_row Failed 1 (Some ''a'') 2) Map.empty {''a''} [(0, False)]"
    by (rule path_snoc [OF _ s_fail [where i = 0 and t = "''a''" and n = 0 and r = 0 and err = "''boom''" and now = 2]])
       (simp_all add: sample_sys_def sample_row_def sample_event_def new_event_def inbox_eval two_tries_def fun_eq_iff)
  then have "?path (sample_row Processing 1 (Some ''b'') 3) [''b'' \<mapsto> (0, Running)] {''a'', ''b''} [(0, False)]"
    by (rule path_snoc [OF _ s_claim [where now = 3 and i = 0 and t = "''b''"]])
       (simp_all add: sample_sys_def sample_claim claimable_def insert_commute)
  then show ?thesis
    by (rule path_snoc [OF _ s_process [where i = 0 and t = "''b''" and ok = True]]) (simp_all add: sample_sys_def)
qed

text \<open>C1: Delivery guarantee of the inbox, for any interleaving of any number of workers, with
  crashes, lost replies, stale recovery and retention: the handler \<open>processEvent\<close> returns
  normally at most once for an event, and it is called at most \<open>maxRetries\<close> times (once when
  the limit is configured below one).\<close>

theorem inbox_processes_at_most_once:
  assumes "inbox_path cfg init_inbox s"
  shows "successes (ix_log s) i \<le> 1 \<and> calls (ix_log s) i \<le> max 1 (rc_max_retries cfg)"
  using inbox_invD(6) [OF inbox_path_inv [OF assms init_inbox_inv], of i] by (simp add: ok_entry_def)

theorem inbox_processes_at_most_once_witness:
  "calls [(0, True), (0, False)] 0 = 2 \<and> successes [(0, True), (0, False)] 0 \<le> 1 \<and>
   calls [(0, True), (0, False)] 0 \<le> max 1 (rc_max_retries two_tries)"
  using inbox_processes_at_most_once [OF sample_inbox_path, of 0] by (simp add: sample_sys_def)

section \<open>Terminal rows are final\<close>

text \<open>A statement guarded by a non-terminal status keeps a terminal row.\<close>

lemma update_keeps_terminal:
  assumes "row_at rows j = Some r" "terminal (ev_status r)" "\<And>r. ev_id (f r) = ev_id r"
    and "\<And>r. P r \<Longrightarrow> \<not> terminal (ev_status r)"
  shows "row_at (snd (update_where ev_id P f i rows)) j = Some r"
  using assms by (auto simp: find_update_where)

definition settled_at :: "'p inbox_sys \<Rightarrow> 'p inbound_event \<Rightarrow> bool" where
  "settled_at s r \<longleftrightarrow> ev_id r < ix_next s \<and> (row_at (ix_rows s) (ev_id r) = Some r \<or> row_at (ix_rows s) (ev_id r) = None)"

lemma update_keeps_none:
  "row_at rows j = None \<Longrightarrow> (\<And>r. ev_id (f r) = ev_id r) \<Longrightarrow> row_at (snd (update_where ev_id P f i rows)) j = None"
  by (auto simp: find_update_where)

lemma update_keeps_settled:
  assumes "settled_at s r" "terminal (ev_status r)" "\<And>r. ev_id (f r) = ev_id r"
    and "\<And>r. P r \<Longrightarrow> \<not> terminal (ev_status r)"
  shows "settled_at (s\<lparr>ix_rows := snd (update_where ev_id P f i (ix_rows s))\<rparr>) r"
  using assms update_keeps_terminal [of "ev_id r" "ix_rows s" r f P i] update_keeps_none [of "ev_id r" "ix_rows s" f P i]
  unfolding settled_at_def by auto

lemma settled_phase [simp]:
  "settled_at (s\<lparr>ix_phase := p\<rparr>) r = settled_at s r"
  "settled_at (s\<lparr>ix_rows := rows, ix_phase := p\<rparr>) r = settled_at (s\<lparr>ix_rows := rows\<rparr>) r"
  "settled_at (s\<lparr>ix_phase := p, ix_log := l\<rparr>) r = settled_at s r"
  "settled_at (s\<lparr>ix_rows := rows, ix_phase := p, ix_used := u\<rparr>) r = settled_at (s\<lparr>ix_rows := rows\<rparr>) r"
  by (simp_all add: settled_at_def)

lemma inbox_step_settled:
  assumes "inbox_step cfg s s'" "settled_at s r" "terminal (ev_status r)" "keyed ev_id (ix_rows s)"
  shows "settled_at s' r"
  using assms
proof (induction rule: inbox_step.induct)
  case (s_ingest s platform now inp)
  show ?case
    by (rule ingest_cases [of "ix_rows s" platform inp "ix_next s" now])
       (use s_ingest in \<open>auto simp: settled_at_def find_snoc\<close>)
next
  case (s_claim t s now i rows')
  then have "rows' = snd (claim_event now i t (ix_rows s))" by simp
  then show ?case using s_claim(3,4) unfolding claim_event_def
    by (auto intro!: update_keeps_settled simp: claimable_def terminal_def)
next
  case (s_fail s t i n q err now)
  then show ?case
    unfolding write_failed_update settled_phase by (auto intro!: update_keeps_settled simp: terminal_def)
next
  case (s_retention s platform cutoff)
  then show ?case
    unfolding settled_at_def delete_terminal_older_than_def
    by (auto simp: delete_batched_eq find_sql_delete split: if_splits)
qed (auto simp: inbox_statement_defs terminal_def intro!: update_keeps_settled)

lemma inbox_path_settled:
  assumes "inbox_path cfg s s'" "inbox_inv (max 1 (rc_max_retries cfg)) s" "settled_at s r" "terminal (ev_status r)"
  shows "settled_at s' r"
  using assms
proof (induction rule: inbox_path.induct)
  case (path_step s s' s'')
  then have "keyed ev_id (ix_rows s')" using inbox_invD(1) [OF inbox_path_inv [OF path_step(1)]] by blast
  with path_step show ?case using inbox_step_settled by blast
qed


lemma sample_inbox_done:
  "inbox_path two_tries init_inbox
     (sample_sys ((sample_row Completed 1 (Some ''b'') 4)\<lparr>ev_last_error := None, ev_next_retry_at := None, ev_processed_at := Some 4\<rparr>)
        [''b'' \<mapsto> (0, Processed)] {''a'', ''b''} [(0, True), (0, False)])"
  by (rule path_snoc [OF sample_inbox_path s_complete [where i = 0 and t = "''b''" and now = 4]])
     (simp_all add: sample_sys_def sample_row_def sample_event_def new_event_def inbox_eval)


section \<open>The workers' code runs steps of the system\<close>

text \<open>Whether or not a statement's reply arrives, the table is as before or as after it.\<close>

lemma db_call_cases:
  assumes "db_call stmt w = (res, w')"
  obtains (applied) "res = Inr (fst (stmt (iw_rows w)))" "iw_rows w' = snd (stmt (iw_rows w))"
  | (lost) e where "res = Inl e" "iw_rows w' = snd (stmt (iw_rows w))"
  | (refused) e where "res = Inl e" "iw_rows w' = iw_rows w"
  using assms by (auto simp: db_call_def split: list.splits db_reply.splits)

text \<open>The event handler may run for long: what it leaves in the table is the work of other
  workers, which do not touch the lease tokens already drawn.\<close>

definition handler_ok :: "inbound_retry_config \<Rightarrow> 'p event_handler \<Rightarrow> bool" where
  "handler_ok cfg process_event \<longleftrightarrow>
     (\<forall>payload w res w' s. process_event payload w = (res, w') \<longrightarrow> ix_rows s = iw_rows w \<longrightarrow>
        (\<exists>s'. inbox_path cfg s s' \<and> ix_rows s' = iw_rows w' \<and>
              (\<forall>t. ix_phase s t \<noteq> None \<longrightarrow> ix_phase s' t = ix_phase s t)))"

definition reaches :: "inbound_retry_config \<Rightarrow> 'p inbox_sys \<Rightarrow> 'p inbox_world \<Rightarrow> bool" where
  "reaches cfg s w \<longleftrightarrow> (\<exists>s'. inbox_path cfg s s' \<and> ix_rows s' = iw_rows w)"

lemma reachesI: "inbox_path cfg s s' \<Longrightarrow> ix_rows s' = iw_rows w \<Longrightarrow> reaches cfg s w"
  unfolding reaches_def by blast

lemma reaches_here: "ix_rows s = iw_rows w \<Longrightarrow> reaches cfg s w"
  by (rule reachesI [OF path_refl])

lemma reaches_step: "inbox_step cfg s s' \<Longrightarrow> reaches cfg s' w \<Longrightarrow> reaches cfg s w"
  unfolding reaches_def by (meson path_refl path_step path_trans)

lemma reaches_path: "inbox_path cfg s s' \<Longrightarrow> reaches cfg s' w \<Longrightarrow> reaches cfg s w"
  unfolding reaches_def by (meson path_trans)

lemma mark_failed_reaches:
  assumes "call_mark_failed cfg r err i t w = (res, w')" "ix_rows s = iw_rows w" "ix_phase s t = Some (i, Errored)"
  shows "reaches cfg s w'"
proof -
  obtain res1 w1 where read: "db_call (\<lambda>rows. (read_retry_count i rows, rows)) w = (res1, w1)"
    by (cases "db_call (\<lambda>rows. (read_retry_count i rows, rows)) w")
  have rows1: "iw_rows w1 = iw_rows w" using read by (rule db_call_cases) simp_all
  show ?thesis
  proof (cases res1)
    case (Inl e)
    then show ?thesis
      using assms(1,2) read rows1 by (intro reaches_here) (auto simp: call_mark_failed_def)
  next
    case (Inr n)
    let ?s = "s\<lparr>ix_phase := (ix_phase s)(t \<mapsto> (i, Failing (read_retry_count i (ix_rows s))))\<rparr>"
    have n: "n = read_retry_count i (ix_rows s)"
      using read Inr by (rule_tac db_call_cases [OF read]) (auto simp: assms(2))
    have "db_call (write_failed cfg r n err (iw_now w1) i t) w1 = (res, w')"
      using assms(1) read Inr by (simp add: call_mark_failed_def)
    then have "iw_rows w' = iw_rows w \<or> iw_rows w' = snd (write_failed cfg r n err (iw_now w1) i t (iw_rows w))"
      by (rule db_call_cases) (simp_all add: rows1)
    then have "reaches cfg ?s w'"
    proof
      assume "iw_rows w' = iw_rows w"
      then show ?thesis by (intro reaches_here) (simp add: assms(2))
    next
      assume "iw_rows w' = snd (write_failed cfg r n err (iw_now w1) i t (iw_rows w))"
      then show ?thesis
        using s_fail [of ?s t i n cfg r err "iw_now w1"]
        by (intro reaches_step [OF _ reaches_here]) (auto simp: assms(2) n)
    qed
    then show ?thesis using s_read [OF assms(3)] by (rule reaches_step [rotated])
  qed
qed

lemma mark_completed_reaches:
  assumes "db_call (mark_completed now i t) w = (res, w')" "ix_rows s = iw_rows w" "ix_phase s t = Some (i, Processed)"
  shows "ix_rows s = iw_rows w' \<or> (\<exists>s'. inbox_step cfg s s' \<and> ix_rows s' = iw_rows w' \<and> ix_phase s' t = Some (i, Processed))"
  using assms(1)
proof (rule db_call_cases)
  fix e assume "res = Inl e" "iw_rows w' = iw_rows w"
  then show ?thesis using assms(2) by simp
qed (use s_complete [OF assms(3)] assms(2,3) in \<open>force intro!: exI\<close>)+

lemma abandoned_reaches:
  assumes "db_call (mark_processing_abandoned err now i t) w = (res, w')" "ix_rows s = iw_rows w"
    "ix_phase s t = Some (i, Processed)"
  shows "reaches cfg s w'"
  using assms(1)
proof (rule db_call_cases)
  fix e assume "res = Inl e" "iw_rows w' = iw_rows w"
  then show ?thesis using assms(2) by (intro reaches_here) simp
qed (use s_abandon [OF assms(3)] assms(2) in \<open>force intro!: reaches_step [OF _ reaches_here]\<close>)+

text \<open>From the moment the handler has returned, both dispatch paths write the same way.\<close>

lemma handled_reaches:
  assumes "handler_ok cfg pe" "pe payload w = (res, w1)" "ix_rows s = iw_rows w" "ix_phase s t = Some (i, Running)"
  obtains s1 where "inbox_path cfg s s1" "ix_rows s1 = iw_rows w1"
    "ix_phase s1 t = Some (i, if isl res then Errored else Processed)"
proof -
  obtain s' where s': "inbox_path cfg s s'" "ix_rows s' = iw_rows w1" "ix_phase s' t = Some (i, Running)"
    using assms unfolding handler_ok_def by (metis option.distinct(1))
  let ?s1 = "s'\<lparr>ix_phase := (ix_phase s')(t \<mapsto> (i, if \<not> isl res then Processed else Errored)), ix_log := (i, \<not> isl res) # ix_log s'\<rparr>"
  have "inbox_path cfg s ?s1" using path_step [OF s'(1) s_process [OF s'(3)]] .
  then show ?thesis by (rule that) (simp_all add: s'(2))
qed

lemma completion_reaches:
  assumes "db_call (mark_completed now i t) w = (res, w1)" "ix_rows s = iw_rows w" "ix_phase s t = Some (i, Processed)"
    and "w' = w1 \<or> (\<exists>err now' res'. db_call (mark_processing_abandoned err now' i t) w1 = (res', w'))"
  shows "reaches cfg s w'"
proof -
  consider s1 where "inbox_path cfg s s1" "ix_rows s1 = iw_rows w1" "ix_phase s1 t = Some (i, Processed)"
    using mark_completed_reaches [OF assms(1-3), of cfg] assms(3) path_refl path_step by metis
  then show ?thesis
  proof cases
    case 1
    then show ?thesis
      using assms(4) reaches_path [OF 1(1)] reaches_here [OF 1(2)] abandoned_reaches [OF _ 1(2,3)] by blast
  qed
qed

lemma claim_reaches:
  assumes "db_call (claim_event now i t) w = (res, w1)" "ix_rows s = iw_rows w" "t \<notin> ix_used s"
  shows "(\<exists>s1. inbox_step cfg s s1 \<and> ix_rows s1 = iw_rows w1 \<and> ix_phase s1 t = Some (i, Running)) \<or>
    (res \<noteq> Inr True \<and> iw_rows w1 = iw_rows w)"
proof -
  obtain ok rows' where c: "claim_event now i t (ix_rows s) = (ok, rows')" by (cases "claim_event now i t (ix_rows s)")
  show ?thesis
  proof (cases ok)
    case True
    with s_claim [OF assms(3), of now i rows' cfg] c have
      "inbox_step cfg s (s\<lparr>ix_rows := rows', ix_phase := (ix_phase s)(t \<mapsto> (i, Running)), ix_used := insert t (ix_used s)\<rparr>)"
      by simp
    then have hit: "\<exists>s1. inbox_step cfg s s1 \<and> ix_rows s1 = rows' \<and> ix_phase s1 t = Some (i, Running)" by force
    from assms(1) show ?thesis
      by (rule db_call_cases) (use hit c assms(2) in \<open>simp_all\<close>)
  next
    case False
    then have "rows' = ix_rows s" using inbox_lease.claim_miss [of now i t "ix_rows s" rows'] c by simp
    with False c assms(2) show ?thesis by (rule_tac db_call_cases [OF assms(1)]) simp_all
  qed
qed

lemma process_row_reaches:
  assumes "process_row cfg r pe stale_before t row w = (res, w')" "handler_ok cfg pe"
    and "ix_rows s = iw_rows w" "t \<notin> ix_used s"
  shows "reaches cfg s w'"
proof (cases "ev_status row = Processing")
  case True
  then obtain res1 where "db_call (abandon_stale_processing (iw_now w) stale_before (ev_id row)) w = (res1, w')"
    using assms(1) by (auto simp: process_row_def split: prod.splits sum.splits)
  then show ?thesis
    by (rule db_call_cases)
       (use s_stale [of cfg s "iw_now w" stale_before "ev_id row"] assms(3) in
         \<open>force intro: reaches_here reaches_step [OF _ reaches_here]\<close>)+
next
  case False
  obtain res1 w1 where cl: "db_call (claim_event (iw_now w) (ev_id row) t) w = (res1, w1)"
    by (cases "db_call (claim_event (iw_now w) (ev_id row) t) w")
  show ?thesis
  proof (cases "res1 = Inr True")
    case True
    then obtain s1 where s1: "inbox_step cfg s s1" "ix_rows s1 = iw_rows w1" "ix_phase s1 t = Some (ev_id row, Running)"
      using claim_reaches [OF cl assms(3,4), of cfg] by blast
    obtain hres w2 where pe: "pe (ev_payload row) w1 = (hres, w2)" by (cases "pe (ev_payload row) w1")
    obtain s2 where s2: "inbox_path cfg s1 s2" "ix_rows s2 = iw_rows w2"
      "ix_phase s2 t = Some (ev_id row, if isl hres then Errored else Processed)"
      using handled_reaches [OF assms(2) pe s1(2,3)] .
    have "reaches cfg s2 w'"
    proof (cases hres)
      case (Inl err)
      then obtain res3 where "call_mark_failed cfg r err (ev_id row) t w2 = (res3, w')"
        using assms(1) False cl True pe by (auto simp: process_row_def split: prod.splits sum.splits bool.splits)
      then show ?thesis using mark_failed_reaches s2 Inl by fastforce
    next
      case (Inr u)
      obtain res3 w3 where c: "db_call (mark_completed (iw_now w2) (ev_id row) t) w2 = (res3, w3)"
        by (cases "db_call (mark_completed (iw_now w2) (ev_id row) t) w2")
      have "w' = w3 \<or> (\<exists>err now' res'. db_call (mark_processing_abandoned err now' (ev_id row) t) w3 = (res', w'))"
        using assms(1) False cl True pe Inr c by (auto simp: process_row_def split: prod.splits sum.splits)
      then show ?thesis using completion_reaches [OF c s2(2)] s2(3) Inr by simp
    qed
    then show ?thesis using reaches_step [OF s1(1) reaches_path [OF s2(1)]] by blast
  next
    case miss: False
    then have "w' = w1" using assms(1) False cl by (auto simp: process_row_def split: sum.splits bool.splits)
    then show ?thesis
      using claim_reaches [OF cl assms(3,4), of cfg] reaches_here [of s w' cfg] reaches_step reaches_here assms(3) by metis
  qed
qed

lemma process_claimed_reaches:
  assumes "process_claimed_inbound_row cfg r pe i t payload w = (res, w')" "handler_ok cfg pe"
    and "ix_rows s = iw_rows w" "ix_phase s t = Some (i, Running)"
  shows "reaches cfg s w'"
proof -
  obtain hres w1 where pe: "pe payload w = (hres, w1)" by (cases "pe payload w")
  obtain s1 where s1: "inbox_path cfg s s1" "ix_rows s1 = iw_rows w1"
    "ix_phase s1 t = Some (i, if isl hres then Errored else Processed)"
    using handled_reaches [OF assms(2) pe assms(3,4)] .
  have "reaches cfg s1 w'"
  proof (cases hres)
    case (Inl err)
    then obtain res2 where "call_mark_failed cfg r err i t w1 = (res2, w')"
      using assms(1) pe by (auto simp: process_claimed_inbound_row_def split: prod.splits sum.splits)
    then show ?thesis using mark_failed_reaches s1 Inl by fastforce
  next
    case (Inr u)
    obtain res2 w2 where c: "db_call (mark_completed (iw_now w1) i t) w1 = (res2, w2)"
      by (cases "db_call (mark_completed (iw_now w1) i t) w1")
    have "w' = w2 \<or> (\<exists>err now' res'. db_call (mark_processing_abandoned err now' i t) w2 = (res', w'))"
      using assms(1) pe Inr c by (auto simp: process_claimed_inbound_row_def split: prod.splits sum.splits)
    then show ?thesis using completion_reaches [OF c s1(2)] s1(3) Inr by simp
  qed
  then show ?thesis by (rule reaches_path [OF s1(1)])
qed

lemma try_inline_reaches:
  assumes "try_inline cfg r pe i t payload w = (res, w')" "handler_ok cfg pe"
    and "ix_rows s = iw_rows w" "t \<notin> ix_used s"
  shows "reaches cfg s w'"
proof -
  obtain res1 w1 where cl: "db_call (claim_event (iw_now w) i t) w = (res1, w1)"
    by (cases "db_call (claim_event (iw_now w) i t) w")
  show ?thesis
  proof (cases "res1 = Inr True")
    case True
    then obtain s1 where s1: "inbox_step cfg s s1" "ix_rows s1 = iw_rows w1" "ix_phase s1 t = Some (i, Running)"
      using claim_reaches [OF cl assms(3,4), of cfg] by blast
    obtain res2 where "process_claimed_inbound_row cfg r pe i t payload w1 = (res2, w')"
      using assms(1) cl True by (auto simp: try_inline_def split: prod.splits sum.splits)
    then show ?thesis using reaches_step [OF s1(1) process_claimed_reaches [OF _ assms(2) s1(2,3)]] by blast
  next
    case False
    then have "w' = w1" using assms(1) cl by (auto simp: try_inline_def split: sum.splits bool.splits)
    then show ?thesis
      using claim_reaches [OF cl assms(3,4), of cfg] reaches_here [of s w' cfg] reaches_step reaches_here assms(3) by metis
  qed
qed


lemma quiet_handler_ok: "handler_ok cfg (\<lambda>_ w. (res, w))"
  unfolding handler_ok_def using path_refl by auto


section \<open>The concurrency gate\<close>

inductive gate_reach :: "int \<Rightarrow> 'w dispatcher \<Rightarrow> 'w list \<Rightarrow> bool" for max_running where
  gate_init: "gate_reach max_running \<lparr>d_running = 0, d_queue = []\<rparr> []"
| gate_acquire: "gate_reach max_running d holders \<Longrightarrow> acquire max_running w d = (granted, d') \<Longrightarrow>
    gate_reach max_running d' (if granted then holders @ [w] else holders)"
| gate_release: "gate_reach max_running d holders \<Longrightarrow> h \<in> set holders \<Longrightarrow> release d = (next_w, d') \<Longrightarrow>
    gate_reach max_running d' (remove1 h holders @ (case next_w of None \<Rightarrow> [] | Some w \<Rightarrow> [w]))"

text \<open>C23: The inline dispatcher's gate: the running count equals the number of dispatches that
  hold a slot, it never exceeds the configured concurrency, and nobody waits while a slot is
  free.\<close>

theorem gate_bounded_and_work_conserving:
  assumes "gate_reach max_running d holders" "0 \<le> max_running"
  shows "d_running d = int (length holders) \<and> d_running d \<le> max_running \<and>
    (d_queue d \<noteq> [] \<longrightarrow> d_running d = max_running)"
  using assms
proof (induction rule: gate_reach.induct)
  case (gate_acquire d holders w granted d')
  then show ?case by (auto simp: acquire_def split: if_splits)
next
  case (gate_release d holders h next_w d')
  have "0 < length holders" using gate_release(2) by (rule length_pos_if_in_set)
  then have "int (length (remove1 h holders)) = int (length holders) - 1"
    using gate_release(2) unfolding length_remove1 by (cases "length holders") simp_all
  with gate_release show ?case by (auto simp: release_def split: list.splits)
qed simp

theorem gate_bounded_and_work_conserving_witness:
  "\<exists>d holders. gate_reach 1 d holders \<and> d_queue d = [''b''] \<and> holders = [''a''] \<and> d_running d = 1"
proof -
  let ?d = "\<lparr>d_running = 1, d_queue = [''b'']\<rparr>"
  have "gate_reach 1 \<lparr>d_running = 1, d_queue = []\<rparr> (if True then [] @ [''a''] else [])"
    by (rule gate_acquire [OF gate_init]) (simp add: acquire_def)
  then have "gate_reach 1 \<lparr>d_running = 1, d_queue = []\<rparr> [''a'']" by simp
  then have "gate_reach 1 ?d (if False then [''a''] @ [''b''] else [''a''])"
    by (rule gate_acquire) (simp add: acquire_def)
  then have "gate_reach 1 ?d [''a'']" by simp
  with gate_bounded_and_work_conserving [OF this] show ?thesis by force
qed

end
