(* ===== verification/Reschedule_Store.thy ===== *)
theory Reschedule_Store
  imports Leases Js_Strings
begin

text \<open>
  The stores of staged reschedule requests: \<open>packages/reschedule-confirm/src\<close>. A learner has at
  most one staged request; confirming claims it under a lease token, and only the owner of the
  lease may put it back or delete it.

  The port is implemented twice: \<open>MemoryRescheduleStore\<close> (a map in insertion order) and
  \<open>TypeormRescheduleStore\<close> (a table keyed by \<open>platform:externalId\<close>). The contract both keep is
  the locale \<open>staging_store\<close>, and what a client may rely on is proved from it once. The time
  and the token drawn by \<open>randomUUID\<close> are arguments.
\<close>

section \<open>Requests and bindings\<close>

datatype scheduling_mode = Explicit | Default_Next_Day_Same_Time

record pending_rec =
  pr_external :: ext_id
  pr_user :: user_id
  pr_calendar :: int
  pr_mode :: scheduling_mode
  pr_new_date :: "string option"
  pr_new_time :: "string option"
  pr_label :: string
  pr_expires :: millis
  pr_lease :: "string option"
  pr_tool :: "string option"
  pr_platform :: "string option"
  pr_mapping :: "string option"
  pr_intent :: "string option"
  pr_args :: "string option"
  pr_nonce :: "string option"

record binding =
  bi_platform :: "string option"
  bi_mapping :: "string option"
  bi_intent :: "string option"
  bi_args :: "string option"
  bi_nonce :: "string option"

datatype cancel_outcome = Cancelled | Nothing | Cancel_Processing | Cancel_Expired
datatype pending_state = Ps_Pending | Ps_Processing | Ps_Expired | Ps_None

definition pending_ttl_ms :: millis where
  "pending_ttl_ms = 10 * 60 * 1000"

section \<open>The in-memory store\<close>

record mem_entry =
  me_record :: pending_rec
  me_claimed :: bool

type_synonym mem_store = "(string \<times> mem_entry) list"

definition max_pending :: nat where
  "max_pending = 10000"

abbreviation mem_get :: "ext_id \<Rightarrow> mem_store \<Rightarrow> mem_entry option" where
  "mem_get k st \<equiv> map_of st k"

definition mem_delete :: "ext_id \<Rightarrow> mem_store \<Rightarrow> mem_store" where
  "mem_delete k st = filter (\<lambda>e. fst e \<noteq> k) st"

text \<open>\<open>Map.set\<close> keeps the position of a key that is present and appends a new one.\<close>

fun mem_set :: "ext_id \<Rightarrow> mem_entry \<Rightarrow> mem_store \<Rightarrow> mem_store" where
  "mem_set k e [] = [(k, e)]"
| "mem_set k e ((k', e') # st) = (if k' = k then (k, e) # st else (k', e') # mem_set k e st)"

definition mem_prune :: "millis \<Rightarrow> mem_store \<Rightarrow> mem_store" where
  "mem_prune now st = filter (\<lambda>(k, e). me_claimed e \<or> now < pr_expires (me_record e)) st"

definition mem_save :: "millis \<Rightarrow> pending_rec \<Rightarrow> mem_store \<Rightarrow> bool \<times> mem_store" where
  "mem_save now pending st =
     (let key = pr_external pending; put = mem_set key \<lparr>me_record = pending, me_claimed = False\<rparr> in
      case mem_get key st of
        Some e \<Rightarrow> if me_claimed e then (False, st) else (True, put st)
      | None \<Rightarrow>
          let pruned = mem_prune now st in
          if length pruned \<ge> max_pending then
            (case find (\<lambda>(k, e). \<not> me_claimed e) pruned of
               None \<Rightarrow> (False, pruned)
             | Some (oldest, _) \<Rightarrow> (True, put (mem_delete oldest pruned)))
          else (True, put pruned))"

text \<open>A bound field is checked when it is present and not the empty string.\<close>

definition mem_mismatch :: "string option \<Rightarrow> string option \<Rightarrow> bool" where
  "mem_mismatch bound field = (case bound of None \<Rightarrow> False | Some v \<Rightarrow> v \<noteq> [] \<and> field \<noteq> Some v)"

definition mem_binding_ok :: "binding \<Rightarrow> pending_rec \<Rightarrow> bool" where
  "mem_binding_ok b r \<longleftrightarrow>
     \<not> (mem_mismatch (bi_platform b) (pr_platform r) \<or> mem_mismatch (bi_mapping b) (pr_mapping r) \<or>
        mem_mismatch (bi_intent b) (pr_intent r) \<or> mem_mismatch (bi_args b) (pr_args r) \<or>
        mem_mismatch (bi_nonce b) (pr_nonce r))"

definition mem_take_valid ::
    "millis \<Rightarrow> string \<Rightarrow> ext_id \<Rightarrow> user_id option \<Rightarrow> binding \<Rightarrow> mem_store \<Rightarrow> pending_rec option \<times> mem_store" where
  "mem_take_valid now token ext user b st =
     (case mem_get ext st of
        None \<Rightarrow> (None, st)
      | Some e \<Rightarrow>
          if me_claimed e then (None, st)
          else if pr_expires (me_record e) \<le> now then (None, mem_delete ext st)
          else if (case user of None \<Rightarrow> False | Some u \<Rightarrow> pr_user (me_record e) \<noteq> u) then (None, st)
          else if \<not> mem_binding_ok b (me_record e) then (None, st)
          else let r = (me_record e)\<lparr>pr_lease := Some token\<rparr>
               in (Some r, mem_set ext \<lparr>me_record = r, me_claimed = True\<rparr> st))"

abbreviation mem_owned :: "string \<Rightarrow> mem_entry \<Rightarrow> bool" where
  "mem_owned token e \<equiv> me_claimed e \<and> pr_lease (me_record e) = Some token"

definition mem_revert_to_pending :: "millis \<Rightarrow> ext_id \<Rightarrow> string \<Rightarrow> mem_store \<Rightarrow> mem_store" where
  "mem_revert_to_pending now ext token st =
     (case mem_get ext st of
        Some e \<Rightarrow>
          if mem_owned token e
          then mem_set ext \<lparr>me_record = (me_record e)\<lparr>pr_expires := now + pending_ttl_ms\<rparr>, me_claimed = False\<rparr> st
          else st
      | None \<Rightarrow> st)"

definition mem_cancel_pending :: "millis \<Rightarrow> ext_id \<Rightarrow> string option \<Rightarrow> mem_store \<Rightarrow> cancel_outcome \<times> mem_store" where
  "mem_cancel_pending now ext nonce st =
     (case mem_get ext st of
        None \<Rightarrow> (Nothing, st)
      | Some e \<Rightarrow>
          if me_claimed e then (Cancel_Processing, st)
          else if nonce \<noteq> None \<and> pr_nonce (me_record e) \<noteq> nonce then (Nothing, st)
          else if pr_expires (me_record e) \<le> now then (Nothing, mem_delete ext st)
          else (Cancelled, mem_delete ext st))"

definition mem_cancel_claimed :: "ext_id \<Rightarrow> string \<Rightarrow> mem_store \<Rightarrow> mem_store" where
  "mem_cancel_claimed ext token st =
     (case mem_get ext st of
        Some e \<Rightarrow> if mem_owned token e then mem_delete ext st else st
      | None \<Rightarrow> st)"

definition mem_get_pending_state :: "millis \<Rightarrow> ext_id \<Rightarrow> mem_store \<Rightarrow> pending_state \<times> mem_store" where
  "mem_get_pending_state now ext st =
     (case mem_get ext st of
        None \<Rightarrow> (Ps_None, st)
      | Some e \<Rightarrow>
          if me_claimed e then (Ps_Processing, st)
          else if pr_expires (me_record e) \<le> now then (Ps_Expired, mem_delete ext st)
          else (Ps_Pending, st))"

section \<open>The database store\<close>

datatype conf_status = C_Pending | C_Processing | C_Confirmed | C_Cancelled

record conf_row =
  c_id :: nat
  c_key :: string
  c_tool :: string
  c_platform :: string
  c_user :: user_id
  c_mapping :: string
  c_intent :: string
  c_args :: string
  c_nonce :: string
  c_calendar :: int
  c_mode :: scheduling_mode
  c_new_date :: "string option"
  c_new_time :: "string option"
  c_label :: string
  c_status :: conf_status
  c_lease :: "string option"
  c_started :: "millis option"
  c_expires :: millis

type_synonym conf_table = "conf_row list"

definition db_key :: "string \<Rightarrow> ext_id \<Rightarrow> string" where
  "db_key platform ext = platform @ '':'' @ ext"

definition strip_key_prefix :: "string \<Rightarrow> string \<Rightarrow> ext_id" where
  "strip_key_prefix platform key =
     (let prefix = platform @ '':'' in
      if take (length prefix) key = prefix then drop (length prefix) key else key)"

definition or_else :: "'a option \<Rightarrow> 'a \<Rightarrow> 'a" where
  "or_else x d = (case x of Some v \<Rightarrow> v | None \<Rightarrow> d)"

definition staged_row :: "string \<Rightarrow> nat \<Rightarrow> string \<Rightarrow> pending_rec \<Rightarrow> conf_row" where
  "staged_row platform fresh_id fresh_nonce p =
     \<lparr>c_id = fresh_id, c_key = db_key platform (pr_external p),
      c_tool = or_else (pr_tool p) ''reschedule_study_session'',
      c_platform = or_else (pr_platform p) platform, c_user = pr_user p,
      c_mapping = or_else (pr_mapping p) (''legacy:'' @ int_str (pr_user p)),
      c_intent = or_else (pr_intent p) [], c_args = or_else (pr_args p) [],
      c_nonce = or_else (pr_nonce p) fresh_nonce, c_calendar = pr_calendar p, c_mode = pr_mode p,
      c_new_date = pr_new_date p, c_new_time = pr_new_time p, c_label = pr_label p,
      c_status = C_Pending, c_lease = None, c_started = None, c_expires = pr_expires p\<rparr>"

text \<open>The upsert leaves the id, the lease columns and the creation time of an existing row.\<close>

definition db_save :: "string \<Rightarrow> nat \<Rightarrow> string \<Rightarrow> pending_rec \<Rightarrow> conf_table \<Rightarrow> bool \<times> conf_table" where
  "db_save platform fresh_id fresh_nonce p rows =
     (let new = staged_row platform fresh_id fresh_nonce p;
          (rows', returned) = sql_upsert c_key new
             (\<lambda>old. new\<lparr>c_id := c_id old, c_lease := c_lease old, c_started := c_started old\<rparr>)
             (\<lambda>old. c_status old \<noteq> C_Processing) rows
      in (returned \<noteq> None, rows'))"

definition map_row :: "string \<Rightarrow> conf_row \<Rightarrow> pending_rec" where
  "map_row platform r =
     \<lparr>pr_external = strip_key_prefix platform (c_key r), pr_user = c_user r, pr_calendar = c_calendar r,
      pr_mode = c_mode r, pr_new_date = c_new_date r, pr_new_time = c_new_time r, pr_label = c_label r,
      pr_expires = c_expires r, pr_lease = c_lease r, pr_tool = Some (c_tool r),
      pr_platform = Some (c_platform r), pr_mapping = Some (c_mapping r), pr_intent = Some (c_intent r),
      pr_args = Some (c_args r), pr_nonce = Some (c_nonce r)\<rparr>"

definition db_bound :: "string option \<Rightarrow> string \<Rightarrow> bool" where
  "db_bound bound column = (case bound of None \<Rightarrow> True | Some v \<Rightarrow> column = v)"

definition db_binding_ok :: "binding \<Rightarrow> conf_row \<Rightarrow> bool" where
  "db_binding_ok b r \<longleftrightarrow>
     db_bound (bi_platform b) (c_platform r) \<and> db_bound (bi_mapping b) (c_mapping r) \<and>
     db_bound (bi_intent b) (c_intent r) \<and> db_bound (bi_args b) (c_args r) \<and> db_bound (bi_nonce b) (c_nonce r)"

definition db_take_valid ::
    "string \<Rightarrow> millis \<Rightarrow> string \<Rightarrow> ext_id \<Rightarrow> user_id option \<Rightarrow> binding \<Rightarrow> conf_table \<Rightarrow> pending_rec option \<times> conf_table" where
  "db_take_valid platform now token ext user b rows =
     (let valid = (\<lambda>r. c_status r = C_Pending \<and> now < c_expires r \<and>
                       (case user of None \<Rightarrow> True | Some u \<Rightarrow> c_user r = u) \<and> db_binding_ok b r);
          (hit, rows') = update_where c_key valid
             (\<lambda>r. r\<lparr>c_status := C_Processing, c_lease := Some token, c_started := Some now\<rparr>)
             (db_key platform ext) rows
      in (if hit then map_option (map_row platform) (find (\<lambda>r. c_key r = db_key platform ext) rows') else None, rows'))"

abbreviation db_owned :: "string \<Rightarrow> conf_row \<Rightarrow> bool" where
  "db_owned token r \<equiv> c_status r = C_Processing \<and> c_lease r = Some token"

definition db_revert_to_pending :: "string \<Rightarrow> millis \<Rightarrow> ext_id \<Rightarrow> string \<Rightarrow> conf_table \<Rightarrow> conf_table" where
  "db_revert_to_pending platform now ext token rows =
     snd (update_where c_key (db_owned token)
       (\<lambda>r. r\<lparr>c_status := C_Pending, c_lease := None, c_started := None, c_expires := now + 10 * 60 * 1000\<rparr>)
       (db_key platform ext) rows)"

definition db_cancel_pending :: "string \<Rightarrow> ext_id \<Rightarrow> string option \<Rightarrow> conf_table \<Rightarrow> cancel_outcome \<times> conf_table" where
  "db_cancel_pending platform ext nonce rows =
     (let mine = (\<lambda>r. c_key r = db_key platform ext \<and> (case nonce of None \<Rightarrow> True | Some n \<Rightarrow> c_nonce r = n));
          gone = (\<lambda>r. mine r \<and> c_status r \<in> {C_Pending, C_Confirmed, C_Cancelled})
      in if list_ex gone rows then (Cancelled, sql_delete gone rows)
         else (if list_ex (\<lambda>r. mine r \<and> c_status r = C_Processing) rows then Cancel_Processing else Nothing, rows))"

definition db_cancel_claimed :: "string \<Rightarrow> ext_id \<Rightarrow> string \<Rightarrow> conf_table \<Rightarrow> conf_table" where
  "db_cancel_claimed platform ext token rows =
     sql_delete (\<lambda>r. c_key r = db_key platform ext \<and> db_owned token r) rows"

definition db_get_pending_state :: "string \<Rightarrow> millis \<Rightarrow> ext_id \<Rightarrow> conf_table \<Rightarrow> pending_state \<times> conf_table" where
  "db_get_pending_state platform now ext rows =
     (case find (\<lambda>r. c_key r = db_key platform ext) rows of
        None \<Rightarrow> (Ps_None, rows)
      | Some r \<Rightarrow>
          if c_status r = C_Processing then (Ps_Processing, rows)
          else if c_status r \<noteq> C_Pending then (Ps_None, rows)
          else if c_expires r \<le> now
            then (Ps_Expired, sql_delete (\<lambda>q. c_key q = db_key platform ext \<and> c_status q = C_Pending \<and> c_expires q \<le> now) rows)
          else (Ps_Pending, rows))"

text \<open>The recovery statements. They are not scoped to a platform, and the listed identity is the
  table's key.\<close>

definition list_stale_processing :: "millis \<Rightarrow> millis \<Rightarrow> conf_table \<Rightarrow> (nat \<times> string \<times> string) list" where
  "list_stale_processing now stale_after rows =
     map (\<lambda>r. (c_id r, c_key r, c_nonce r))
       (take 200 (sort_key c_id (filter (\<lambda>r. c_status r = C_Processing \<and>
          (case c_started r of None \<Rightarrow> False | Some t \<Rightarrow> t < now - stale_after) \<and> c_lease r \<noteq> None) rows)))"

definition revert_stale_row :: "millis \<Rightarrow> nat \<Rightarrow> conf_table \<Rightarrow> conf_table" where
  "revert_stale_row now i rows =
     snd (update_where c_id (\<lambda>r. c_status r = C_Processing)
       (\<lambda>r. r\<lparr>c_status := C_Pending, c_lease := None, c_started := None, c_expires := now + 10 * 60 * 1000\<rparr>) i rows)"

definition cancel_stale_row :: "nat \<Rightarrow> conf_table \<Rightarrow> conf_table" where
  "cancel_stale_row i rows =
     snd (update_where c_id (\<lambda>r. c_status r = C_Processing)
       (\<lambda>r. r\<lparr>c_status := C_Cancelled, c_lease := None, c_started := None\<rparr>) i rows)"

section \<open>The contract of a staging store\<close>

datatype 'c store_op =
    Op_Save 'c pending_rec
  | Op_Take millis string ext_id "user_id option" binding
  | Op_Revert millis ext_id string
  | Op_Cancel_Pending millis ext_id "string option"
  | Op_Cancel_Claimed ext_id string
  | Op_State millis ext_id

text \<open>An operation that presents the lease token \<open>t\<close> for \<open>ext\<close>.\<close>

fun presents :: "ext_id \<Rightarrow> string \<Rightarrow> 'c store_op \<Rightarrow> bool" where
  "presents ext t (Op_Revert now e u) \<longleftrightarrow> e = ext \<and> u = t"
| "presents ext t (Op_Cancel_Claimed e u) \<longleftrightarrow> e = ext \<and> u = t"
| "presents ext t _ \<longleftrightarrow> False"

locale staging_store =
  fixes ok :: "'s \<Rightarrow> bool"
    and holder :: "'s \<Rightarrow> ext_id \<Rightarrow> string option"
    and save :: "'c \<Rightarrow> pending_rec \<Rightarrow> 's \<Rightarrow> bool \<times> 's"
    and take_valid :: "millis \<Rightarrow> string \<Rightarrow> ext_id \<Rightarrow> user_id option \<Rightarrow> binding \<Rightarrow> 's \<Rightarrow> pending_rec option \<times> 's"
    and revert :: "millis \<Rightarrow> ext_id \<Rightarrow> string \<Rightarrow> 's \<Rightarrow> 's"
    and cancel_pending :: "millis \<Rightarrow> ext_id \<Rightarrow> string option \<Rightarrow> 's \<Rightarrow> cancel_outcome \<times> 's"
    and cancel_claimed :: "ext_id \<Rightarrow> string \<Rightarrow> 's \<Rightarrow> 's"
    and pending_state_of :: "millis \<Rightarrow> ext_id \<Rightarrow> 's \<Rightarrow> pending_state \<times> 's"
  assumes save_ok: "ok s \<Longrightarrow> ok (snd (save c p s))"
    and take_ok: "ok s \<Longrightarrow> ok (snd (take_valid now t ext user b s))"
    and revert_ok: "ok s \<Longrightarrow> ok (revert now ext t s)"
    and cancel_pending_ok: "ok s \<Longrightarrow> ok (snd (cancel_pending now ext n s))"
    and cancel_claimed_ok: "ok s \<Longrightarrow> ok (cancel_claimed ext t s)"
    and state_ok: "ok s \<Longrightarrow> ok (snd (pending_state_of now ext s))"
    and save_holder: "ok s \<Longrightarrow> holder (snd (save c p s)) = holder s"
    and take_hit: "ok s \<Longrightarrow> take_valid now t ext user b s = (Some r, s') \<Longrightarrow>
      holder s ext = None \<and> pr_lease r = Some t \<and> holder s' = (holder s)(ext := Some t)"
    and take_miss: "ok s \<Longrightarrow> take_valid now t ext user b s = (None, s') \<Longrightarrow> holder s' = holder s"
    and revert_holder: "ok s \<Longrightarrow> holder (revert now ext t s) =
      (if holder s ext = Some t then (holder s)(ext := None) else holder s)"
    and cancel_pending_holder: "ok s \<Longrightarrow> holder (snd (cancel_pending now ext n s)) = holder s"
    and cancel_claimed_holder: "ok s \<Longrightarrow> holder (cancel_claimed ext t s) =
      (if holder s ext = Some t then (holder s)(ext := None) else holder s)"
    and state_holder: "ok s \<Longrightarrow> holder (snd (pending_state_of now ext s)) = holder s"
begin

text \<open>The result lists the learner whose request an operation claimed.\<close>

fun exec_store :: "'c store_op \<Rightarrow> 's \<Rightarrow> ext_id option \<times> 's" where
  "exec_store (Op_Save c p) s = (None, snd (save c p s))"
| "exec_store (Op_Take now t ext user b) s =
     (case take_valid now t ext user b s of (Some r, s') \<Rightarrow> (Some ext, s') | (None, s') \<Rightarrow> (None, s'))"
| "exec_store (Op_Revert now ext t) s = (None, revert now ext t s)"
| "exec_store (Op_Cancel_Pending now ext n) s = (None, snd (cancel_pending now ext n s))"
| "exec_store (Op_Cancel_Claimed ext t) s = (None, cancel_claimed ext t s)"
| "exec_store (Op_State now ext) s = (None, snd (pending_state_of now ext s))"

fun run_store :: "'c store_op list \<Rightarrow> 's \<Rightarrow> ext_id list \<times> 's" where
  "run_store [] s = ([], s)"
| "run_store (opn # ops) s =
     (let (claimed, s1) = exec_store opn s; (more, s2) = run_store ops s1
      in ((case claimed of None \<Rightarrow> more | Some e \<Rightarrow> e # more), s2))"

lemma exec_store_ok: "ok s \<Longrightarrow> ok (snd (exec_store opn s))"
proof (cases opn)
  case (Op_Take now t ext user b)
  assume "ok s"
  with take_ok [of s now t ext user b] Op_Take show ?thesis by (auto split: prod.splits option.splits)
qed (auto simp: save_ok revert_ok cancel_pending_ok cancel_claimed_ok state_ok)

lemma exec_store_keeps_lease:
  assumes "ok s" "holder s ext = Some t" "\<not> presents ext t opn" "exec_store opn s = (claimed, s')"
  shows "claimed \<noteq> Some ext \<and> holder s' ext = Some t"
proof (cases opn)
  case (Op_Take now u e user b)
  obtain r s1 where "take_valid now u e user b s = (r, s1)" by (cases "take_valid now u e user b s")
  with Op_Take assms take_hit [OF assms(1)] take_miss [OF assms(1)] show ?thesis
    by (cases r) fastforce+
qed (use assms in \<open>auto simp: save_holder revert_holder cancel_pending_holder cancel_claimed_holder state_holder\<close>)

lemma run_store_keeps_lease:
  assumes "ok s" "holder s ext = Some t" "\<And>opn. opn \<in> set ops \<Longrightarrow> \<not> presents ext t opn"
    and "run_store ops s = (claimed, s')"
  shows "ext \<notin> set claimed \<and> holder s' ext = Some t"
  using assms
proof (induction ops arbitrary: s claimed)
  case (Cons opn ops)
  obtain c s1 where ex: "exec_store opn s = (c, s1)" by (cases "exec_store opn s")
  obtain more where run: "run_store ops s1 = (more, s')" "claimed = (case c of None \<Rightarrow> more | Some e \<Rightarrow> e # more)"
    using Cons.prems(4) ex by (auto simp: Let_def split: prod.splits)
  have "c \<noteq> Some ext \<and> holder s1 ext = Some t"
    using exec_store_keeps_lease [OF Cons.prems(1,2) _ ex] Cons.prems(3) by simp
  moreover have "ok s1" using exec_store_ok [OF Cons.prems(1), of opn] ex by simp
  ultimately have "ext \<notin> set more \<and> holder s' ext = Some t" "c \<noteq> Some ext"
    using Cons.IH [OF _ _ _ run(1)] Cons.prems(3) by auto
  then show ?case using run(2) by (auto split: option.splits)
qed auto

text \<open>From a successful claim to the moment its own lease token is presented, nobody else claims
  the request.\<close>

lemma claim_exclusive:
  assumes "ok s" "take_valid now t ext user b s = (Some r, s1)"
    and "\<And>opn. opn \<in> set ops \<Longrightarrow> \<not> presents ext t opn"
  shows "ext \<notin> set (fst (run_store ops s1)) \<and> holder (snd (run_store ops s1)) ext = Some t"
proof -
  have "ok s1" using take_ok [OF assms(1), of now t ext user b] assms(2) by simp
  moreover have "holder s1 ext = Some t" using take_hit [OF assms(1,2)] by simp
  ultimately show ?thesis using run_store_keeps_lease [OF _ _ assms(3)] by (metis prod.collapse)
qed

end

section \<open>The memory store keeps the contract\<close>

definition mem_ok :: "mem_store \<Rightarrow> bool" where
  "mem_ok st \<longleftrightarrow> distinct (map fst st) \<and> (\<forall>k e. map_of st k = Some e \<longrightarrow> me_claimed e \<longrightarrow> pr_lease (me_record e) \<noteq> None)"

definition mem_holder :: "mem_store \<Rightarrow> ext_id \<Rightarrow> string option" where
  "mem_holder st ext =
     (case map_of st ext of Some e \<Rightarrow> if me_claimed e then pr_lease (me_record e) else None | None \<Rightarrow> None)"

lemma map_of_mem_set [simp]: "map_of (mem_set k e st) = (map_of st)(k \<mapsto> e)"
  by (induction k e st rule: mem_set.induct) (auto simp: fun_eq_iff)

lemma map_of_mem_delete [simp]: "map_of (mem_delete k st) = (map_of st)(k := None)"
  by (induction st) (auto simp: mem_delete_def fun_eq_iff)

lemma map_of_mem_prune:
  "distinct (map fst st) \<Longrightarrow> map_of (mem_prune now st) k =
     (case map_of st k of Some e \<Rightarrow> if me_claimed e \<or> now < pr_expires (me_record e) then Some e else None | None \<Rightarrow> None)"
  by (induction st) (auto simp: mem_prune_def map_of_eq_None_iff split: option.splits dest: map_of_SomeD)

lemma keys_mem_set: "fst ` set (mem_set k e st) = insert k (fst ` set st)"
  by (induction k e st rule: mem_set.induct) auto

lemma distinct_mem_set: "distinct (map fst st) \<Longrightarrow> distinct (map fst (mem_set k e st))"
  by (induction k e st rule: mem_set.induct) (auto simp: keys_mem_set)

lemma distinct_mem_delete: "distinct (map fst st) \<Longrightarrow> distinct (map fst (mem_delete k st))"
  and distinct_mem_prune: "distinct (map fst st) \<Longrightarrow> distinct (map fst (mem_prune now st))"
  by (simp_all add: mem_delete_def mem_prune_def distinct_map_filter)

lemmas mem_distinct = distinct_mem_set distinct_mem_delete distinct_mem_prune

lemma mem_ok_delete: "mem_ok st \<Longrightarrow> mem_ok (mem_delete k st)"
  by (auto simp: mem_ok_def mem_distinct simp del: map_of_eq_Some_iff split: if_splits)

lemma mem_ok_set: "mem_ok st \<Longrightarrow> (me_claimed e \<Longrightarrow> pr_lease (me_record e) \<noteq> None) \<Longrightarrow> mem_ok (mem_set k e st)"
  by (auto simp: mem_ok_def mem_distinct simp del: map_of_eq_Some_iff split: if_splits)

text \<open>Dropping entries that are not claimed changes neither the invariant nor the leases.\<close>

definition mem_drops :: "mem_store \<Rightarrow> mem_store \<Rightarrow> bool" where
  "mem_drops st st' \<longleftrightarrow> distinct (map fst st') \<and>
     (\<forall>k. map_of st' k = map_of st k \<or> (map_of st' k = None \<and> mem_holder st k = None))"

lemma mem_dropsD:
  "mem_drops st st' \<Longrightarrow> map_of st' k = map_of st k \<or> (map_of st' k = None \<and> mem_holder st k = None)"
  by (simp add: mem_drops_def)

lemma mem_drops_holder: "mem_drops st st' \<Longrightarrow> mem_holder st' = mem_holder st"
proof
  fix k assume "mem_drops st st'"
  then show "mem_holder st' k = mem_holder st k"
    using mem_dropsD [of st st' k] by (auto simp: mem_holder_def)
qed

lemma mem_drops_ok:
  assumes "mem_ok st" "mem_drops st st'"
  shows "mem_ok st'"
  unfolding mem_ok_def
proof (intro conjI allI impI)
  show "distinct (map fst st')" using assms(2) by (simp add: mem_drops_def)
  fix k e assume "map_of st' k = Some e" "me_claimed e"
  then show "pr_lease (me_record e) \<noteq> None"
    using mem_dropsD [OF assms(2), of k] assms(1) by (simp add: mem_ok_def)
qed

lemma mem_drops_prune: "mem_ok st \<Longrightarrow> mem_drops st (mem_prune now st)"
  unfolding mem_drops_def mem_ok_def mem_holder_def
  by (auto simp: map_of_mem_prune mem_distinct split: option.splits)

lemma mem_drops_delete:
  assumes "mem_drops st st'" "map_of st' k = Some e" "\<not> me_claimed e"
  shows "mem_drops st (mem_delete k st')"
proof -
  have "map_of st k = Some e" using mem_dropsD [OF assms(1), of k] assms(2) by simp
  then have "mem_holder st k = None" using assms(3) by (simp add: mem_holder_def)
  then show ?thesis using assms(1) unfolding mem_drops_def by (auto simp: mem_distinct)
qed

text \<open>Storing an unclaimed entry at a key nobody holds.\<close>

lemma mem_put_ok:
  assumes "mem_ok st" "mem_holder st k = None"
  shows "mem_ok (mem_set k \<lparr>me_record = p, me_claimed = False\<rparr> st)"
    and "mem_holder (mem_set k \<lparr>me_record = p, me_claimed = False\<rparr> st) = mem_holder st"
  using assms by (auto simp: mem_ok_def mem_holder_def distinct_mem_set fun_eq_iff)

lemma mem_save_ok:
  assumes "mem_ok st"
  shows "mem_ok (snd (mem_save now p st)) \<and> mem_holder (snd (mem_save now p st)) = mem_holder st"
proof (cases "mem_get (pr_external p) st")
  case (Some e)
  then show ?thesis
    using assms mem_put_ok [OF assms, of "pr_external p" p] by (auto simp: mem_save_def Let_def mem_holder_def)
next
  case None
  have drops: "\<exists>st'. mem_drops st st' \<and>
      (snd (mem_save now p st) = st' \<or> snd (mem_save now p st) = mem_set (pr_external p) \<lparr>me_record = p, me_claimed = False\<rparr> st')"
  proof (cases "max_pending \<le> length (mem_prune now st) \<and> find (\<lambda>(k, e). \<not> me_claimed e) (mem_prune now st) \<noteq> None")
    case True
    then obtain k e where f: "find (\<lambda>(k, e). \<not> me_claimed e) (mem_prune now st) = Some (k, e)" by force
    then have "(k, e) \<in> set (mem_prune now st)" "\<not> me_claimed e" using find_SomeD [OF f] by auto
    moreover have "distinct (map fst (mem_prune now st))"
      using mem_drops_prune [OF assms, of now] by (simp add: mem_drops_def)
    ultimately have "mem_drops st (mem_delete k (mem_prune now st))"
      using mem_drops_delete [OF mem_drops_prune [OF assms]] by (metis map_of_is_SomeI)
    then show ?thesis using True f None by (auto simp: mem_save_def Let_def)
  next
    case False
    then show ?thesis
      using mem_drops_prune [OF assms, of now] None by (auto simp: mem_save_def Let_def split: option.splits)
  qed
  then obtain st' where st': "mem_drops st st'"
      "snd (mem_save now p st) = st' \<or> snd (mem_save now p st) = mem_set (pr_external p) \<lparr>me_record = p, me_claimed = False\<rparr> st'"
    by blast
  have "mem_ok st'" "mem_holder st' = mem_holder st"
    using mem_drops_ok [OF assms st'(1)] mem_drops_holder [OF st'(1)] by auto
  moreover have "mem_holder st (pr_external p) = None" using None by (simp add: mem_holder_def)
  ultimately show ?thesis using st'(2) mem_put_ok [of st' "pr_external p" p] by metis
qed

lemma mem_revert_eq: "mem_ok st \<Longrightarrow> mem_holder (mem_revert_to_pending now ext t st) =
    (if mem_holder st ext = Some t then (mem_holder st)(ext := None) else mem_holder st)"
  by (auto simp: mem_revert_to_pending_def mem_holder_def fun_eq_iff split: option.splits)

lemma mem_cancel_claimed_eq: "mem_ok st \<Longrightarrow> mem_holder (mem_cancel_claimed ext t st) =
    (if mem_holder st ext = Some t then (mem_holder st)(ext := None) else mem_holder st)"
  by (auto simp: mem_cancel_claimed_def mem_holder_def fun_eq_iff split: option.splits)

interpretation mem_staging: staging_store mem_ok mem_holder mem_save mem_take_valid
  mem_revert_to_pending mem_cancel_pending mem_cancel_claimed mem_get_pending_state
proof (unfold_locales, goal_cases)
  case (1 s c p) then show ?case using mem_save_ok by blast
next
  case (2 s now t ext user b)
  then show ?case
    by (auto simp: mem_take_valid_def mem_ok_set mem_ok_delete Let_def split: option.splits)
next
  case (3 s now ext t)
  then show ?case by (auto simp: mem_revert_to_pending_def mem_ok_set mem_ok_delete split: option.splits)
next
  case (4 s now ext n)
  then show ?case by (auto simp: mem_cancel_pending_def mem_ok_set mem_ok_delete split: option.splits)
next
  case (5 s ext t)
  then show ?case by (auto simp: mem_cancel_claimed_def mem_ok_set mem_ok_delete split: option.splits)
next
  case (6 s now ext)
  then show ?case by (auto simp: mem_get_pending_state_def mem_ok_set mem_ok_delete split: option.splits)
next
  case (7 s c p) then show ?case using mem_save_ok by blast
next
  case (8 s now t ext user b r s')
  then show ?case
    by (auto simp: mem_take_valid_def mem_holder_def Let_def fun_eq_iff split: option.splits if_splits)
next
  case (9 s now t ext user b s')
  then show ?case
    by (auto simp: mem_take_valid_def mem_holder_def Let_def fun_eq_iff split: option.splits if_splits)
next
  case (10 s now ext t) then show ?case by (rule mem_revert_eq)
next
  case (11 s now ext n)
  then show ?case by (auto simp: mem_cancel_pending_def mem_holder_def fun_eq_iff split: option.splits)
next
  case (12 s ext t) then show ?case by (rule mem_cancel_claimed_eq)
next
  case (13 s now ext)
  then show ?case by (auto simp: mem_get_pending_state_def mem_holder_def fun_eq_iff split: option.splits)
qed

section \<open>The database store keeps the contract\<close>

definition c_owner :: "conf_row \<Rightarrow> string option" where
  "c_owner r = (if c_status r = C_Processing then c_lease r else None)"

definition db_ok :: "conf_table \<Rightarrow> bool" where
  "db_ok rows \<longleftrightarrow> keyed c_key rows \<and> (\<forall>r\<in>set rows. c_status r = C_Processing \<longrightarrow> c_lease r \<noteq> None)"

definition db_holder :: "string \<Rightarrow> conf_table \<Rightarrow> ext_id \<Rightarrow> string option" where
  "db_holder platform rows ext = owner_at c_key c_owner rows (db_key platform ext)"

lemma db_key_inject [simp]: "db_key platform a = db_key platform b \<longleftrightarrow> a = b"
  by (simp add: db_key_def)


lemma db_okD: "db_ok rows \<Longrightarrow> keyed c_key rows"
  and db_ok_lease: "db_ok rows \<Longrightarrow> r \<in> set rows \<Longrightarrow> c_status r = C_Processing \<Longrightarrow> c_lease r \<noteq> None"
  by (auto simp: db_ok_def)

lemma db_ok_update:
  assumes "db_ok rows" "\<And>r. c_key (f r) = c_key r"
    and "\<And>r. c_status (f r) = C_Processing \<Longrightarrow> c_lease (f r) \<noteq> None"
  shows "db_ok (snd (update_where c_key P f k rows))"
  using assms update_where_keyed [OF db_okD [OF assms(1)] assms(2), of P k]
  by (auto simp: db_ok_def update_where_def set_sql_update)

lemma db_ok_delete: "db_ok rows \<Longrightarrow> db_ok (sql_delete P rows)"
  by (auto simp: db_ok_def keyed_delete)

lemma db_holder_find:
  "db_holder platform rows e = (case find (\<lambda>r. c_key r = db_key platform e) rows of Some r \<Rightarrow> c_owner r | None \<Rightarrow> None)"
  by (auto simp: db_holder_def owner_at_def split: option.splits)

lemma staged_row_simps [simp]:
  "c_key (staged_row platform i n p) = db_key platform (pr_external p)"
  "c_status (staged_row platform i n p) = C_Pending"
  by (simp_all add: staged_row_def)

lemma db_save_cases:
  obtains (insert) "find (\<lambda>r. c_key r = db_key platform (pr_external p)) rows = None"
      "db_save platform i n p rows = (True, rows @ [staged_row platform i n p])"
  | (replace) old where "find (\<lambda>r. c_key r = db_key platform (pr_external p)) rows = Some old" "c_status old \<noteq> C_Processing"
      "db_save platform i n p rows = (True, snd (update_where c_key (\<lambda>_. True)
        (\<lambda>old. (staged_row platform i n p)\<lparr>c_key := c_key old, c_id := c_id old, c_lease := c_lease old, c_started := c_started old\<rparr>)
        (db_key platform (pr_external p)) rows))"
  | (busy) old where "find (\<lambda>r. c_key r = db_key platform (pr_external p)) rows = Some old" "c_status old = C_Processing"
      "db_save platform i n p rows = (False, rows)"
proof (cases "find (\<lambda>r. c_key r = db_key platform (pr_external p)) rows")
  case None
  then show ?thesis using insert by (simp add: db_save_def sql_upsert_def Let_def)
next
  case (Some old)
  have eq: "sql_update (\<lambda>r. c_key r = db_key platform (pr_external p))
        (\<lambda>old. (staged_row platform i n p)\<lparr>c_id := c_id old, c_lease := c_lease old, c_started := c_started old\<rparr>) rows =
      snd (update_where c_key (\<lambda>_. True)
        (\<lambda>old. (staged_row platform i n p)\<lparr>c_key := c_key old, c_id := c_id old, c_lease := c_lease old, c_started := c_started old\<rparr>)
        (db_key platform (pr_external p)) rows)"
    by (auto simp: update_where_def sql_update_def staged_row_def)
  show ?thesis
    using Some replace [OF Some] busy [OF Some] eq
    by (cases "c_status old = C_Processing") (simp_all add: db_save_def sql_upsert_def Let_def)
qed

lemma db_save_contract:
  assumes "db_ok rows"
  shows "db_ok (snd (db_save platform i n p rows)) \<and> db_holder platform (snd (db_save platform i n p rows)) = db_holder platform rows"
proof (rule db_save_cases [of platform p rows i n])
  assume none: "find (\<lambda>r. c_key r = db_key platform (pr_external p)) rows = None"
    and eq: "db_save platform i n p rows = (True, rows @ [staged_row platform i n p])"
  have "db_ok (rows @ [staged_row platform i n p])"
    using assms none by (auto simp: db_ok_def find_None_iff intro!: keyed_snoc)
  moreover have "db_holder platform (rows @ [staged_row platform i n p]) = db_holder platform rows"
    by (rule ext) (auto simp: db_holder_find find_snoc c_owner_def split: option.splits)
  ultimately show ?thesis using eq by simp
next
  fix old
  assume old: "find (\<lambda>r. c_key r = db_key platform (pr_external p)) rows = Some old" "c_status old \<noteq> C_Processing"
    and eq: "db_save platform i n p rows = (True, snd (update_where c_key (\<lambda>_. True)
        (\<lambda>old. (staged_row platform i n p)\<lparr>c_key := c_key old, c_id := c_id old, c_lease := c_lease old, c_started := c_started old\<rparr>)
        (db_key platform (pr_external p)) rows))"
  have "db_ok (snd (db_save platform i n p rows))"
    unfolding eq snd_conv by (rule db_ok_update [OF assms]) simp_all
  moreover have "db_holder platform (snd (db_save platform i n p rows)) = db_holder platform rows"
    unfolding eq snd_conv using old by (intro ext) (simp add: db_holder_find find_update_where c_owner_def)
  ultimately show ?thesis by simp
qed (use assms in simp)

lemma db_take_valid_eq:
  "db_take_valid platform now t ext user b rows =
     (let valid = (\<lambda>r. c_status r = C_Pending \<and> now < c_expires r \<and>
                       (case user of None \<Rightarrow> True | Some u \<Rightarrow> c_user r = u) \<and> db_binding_ok b r);
          f = (\<lambda>r. r\<lparr>c_status := C_Processing, c_lease := Some t, c_started := Some now\<rparr>);
          rows' = snd (update_where c_key valid f (db_key platform ext) rows)
      in (if matches c_key valid (db_key platform ext) rows
          then map_option (\<lambda>r. map_row platform (if valid r then f r else r)) (find (\<lambda>r. c_key r = db_key platform ext) rows)
          else None, rows'))"
  unfolding db_take_valid_def Let_def
  by (subst update_where_pair) (simp add: find_update_where option.map_comp comp_def)

lemma db_take_hit:
  assumes "db_ok rows" "db_take_valid platform now t ext user b rows = (Some r, rows')"
  obtains q where "find (\<lambda>r. c_key r = db_key platform ext) rows = Some q" "c_status q = C_Pending" "now < c_expires q"
    "db_binding_ok b q" "case user of None \<Rightarrow> True | Some u \<Rightarrow> c_user q = u"
    "r = map_row platform (q\<lparr>c_status := C_Processing, c_lease := Some t, c_started := Some now\<rparr>)"
    "rows' = snd (update_where c_key (\<lambda>r. c_status r = C_Pending \<and> now < c_expires r \<and>
        (case user of None \<Rightarrow> True | Some u \<Rightarrow> c_user r = u) \<and> db_binding_ok b r)
       (\<lambda>r. r\<lparr>c_status := C_Processing, c_lease := Some t, c_started := Some now\<rparr>) (db_key platform ext) rows)"
proof -
  let ?valid = "\<lambda>r. c_status r = C_Pending \<and> now < c_expires r \<and>
    (case user of None \<Rightarrow> True | Some u \<Rightarrow> c_user r = u) \<and> db_binding_ok b r"
  have m: "matches c_key ?valid (db_key platform ext) rows"
    using assms(2) by (auto simp: db_take_valid_eq Let_def split: if_splits)
  then obtain q where q: "find (\<lambda>r. c_key r = db_key platform ext) rows = Some q" "?valid q"
    using matches_keyed [OF db_okD [OF assms(1)], of ?valid] by auto
  then show ?thesis using assms(2) m by (intro that [of q]) (simp_all add: db_take_valid_eq Let_def)
qed

lemma db_take_miss:
  assumes "db_ok rows" "db_take_valid platform now t ext user b rows = (None, rows')"
  shows "rows' = rows"
proof -
  let ?valid = "\<lambda>r. c_status r = C_Pending \<and> now < c_expires r \<and>
    (case user of None \<Rightarrow> True | Some u \<Rightarrow> c_user r = u) \<and> db_binding_ok b r"
  have "\<not> matches c_key ?valid (db_key platform ext) rows"
  proof
    assume m: "matches c_key ?valid (db_key platform ext) rows"
    then obtain q where "find (\<lambda>r. c_key r = db_key platform ext) rows = Some q"
      using matches_keyed [OF db_okD [OF assms(1)], of ?valid] by auto
    with m assms(2) show False by (simp add: db_take_valid_eq Let_def)
  qed
  then show ?thesis
    using assms(2) by (auto simp: db_take_valid_def Let_def update_where_def matches_def list_ex_iff intro: sql_update_id)
qed

interpretation db_staging: staging_store db_ok "db_holder platform" "\<lambda>c. db_save platform (fst c) (snd c)"
  "db_take_valid platform" "db_revert_to_pending platform" "\<lambda>now. db_cancel_pending platform"
  "db_cancel_claimed platform" "db_get_pending_state platform"
  for platform
proof (unfold_locales, goal_cases)
  case (1 s c p) then show ?case using db_save_contract by blast
next
  case (2 s now t ext user b)
  then show ?case unfolding db_take_valid_eq Let_def snd_conv by (intro db_ok_update) auto
next
  case (3 s now ext t)
  then show ?case unfolding db_revert_to_pending_def by (intro db_ok_update) auto
next
  case (4 s now ext n)
  then show ?case by (simp add: db_cancel_pending_def Let_def db_ok_delete)
next
  case (5 s ext t)
  then show ?case by (simp add: db_cancel_claimed_def db_ok_delete)
next
  case (6 s now ext)
  then show ?case by (simp add: db_get_pending_state_def db_ok_delete split: option.splits)
next
  case (7 s c p) then show ?case using db_save_contract by blast
next
  case (8 s now t ext user b r s')
  from 8(1,2) show ?case
    by (rule db_take_hit) (auto simp: fun_eq_iff db_holder_find find_update_where c_owner_def map_row_def)
next
  case (9 s now t ext user b s')
  then show ?case using db_take_miss by blast
next
  case (10 s now ext t)
  then show ?case
    by (auto simp: fun_eq_iff db_revert_to_pending_def db_holder_find find_update_where c_owner_def split: option.splits)
next
  case (11 s now ext n)
  then show ?case
    by (auto simp: fun_eq_iff db_cancel_pending_def Let_def find_sql_delete db_okD db_holder_find c_owner_def split: option.splits)
next
  case (12 s ext t)
  show ?case
  proof
    fix e
    show "db_holder platform (db_cancel_claimed platform ext t s) e =
      (if db_holder platform s ext = Some t then (db_holder platform s)(ext := None) else db_holder platform s) e"
    proof (cases "find (\<lambda>r. c_key r = db_key platform e) s")
      case None
      then show ?thesis
        using 12 by (simp add: db_cancel_claimed_def find_sql_delete db_okD db_holder_find)
    next
      case (Some r)
      moreover have "c_key r = db_key platform e" using find_SomeD [OF Some] by simp
      ultimately show ?thesis
        using 12 by (cases "e = ext") (simp_all add: db_cancel_claimed_def find_sql_delete db_okD db_holder_find c_owner_def)
    qed
  qed
next
  case (13 s now ext)
  then show ?case
    by (auto simp: fun_eq_iff db_get_pending_state_def find_sql_delete db_okD db_holder_find c_owner_def split: option.splits)
qed

text \<open>Exclusive confirmation: from the moment a confirmation has claimed a staged request in
  the database until its own lease token is presented to put the request back or delete it, no
  sequence of saves, cancellations, state reads, claims or stale lease writes by anyone claims
  the request again or takes the lease away.\<close>

theorem staged_claim_exclusive:
  assumes "db_ok rows" "db_take_valid platform now t ext user b rows = (Some r, rows1)"
    and "\<And>opn. opn \<in> set ops \<Longrightarrow> \<not> presents ext t opn"
  shows "ext \<notin> set (fst (db_staging.run_store platform ops rows1)) \<and>
    db_holder platform (snd (db_staging.run_store platform ops rows1)) ext = Some t"
  using assms by (rule db_staging.claim_exclusive)

lemma staged_claim_exclusive_memory:
  assumes "mem_ok st" "mem_take_valid now t ext user b st = (Some r, st1)"
    and "\<And>opn. opn \<in> set ops \<Longrightarrow> \<not> presents ext t opn"
  shows "ext \<notin> set (fst (mem_staging.run_store ops st1)) \<and> mem_holder (snd (mem_staging.run_store ops st1)) ext = Some t"
  using assms by (rule mem_staging.claim_exclusive)

definition sample_pending :: "string \<Rightarrow> pending_rec" where
  "sample_pending nonce =
     \<lparr>pr_external = ''u'', pr_user = 7, pr_calendar = 3, pr_mode = Default_Next_Day_Same_Time, pr_new_date = None,
      pr_new_time = None, pr_label = ''mon'', pr_expires = 600000, pr_lease = None,
      pr_tool = Some ''reschedule_study_session'', pr_platform = Some ''zalo'', pr_mapping = Some ''v1'',
      pr_intent = Some ''i'', pr_args = Some ''a'', pr_nonce = Some nonce\<rparr>"

definition free_binding :: "string \<Rightarrow> binding" where
  "free_binding nonce = \<lparr>bi_platform = Some ''zalo'', bi_mapping = Some ''v1'', bi_intent = None, bi_args = None, bi_nonce = Some nonce\<rparr>"

definition sample_table :: conf_table where
  "sample_table = snd (db_save ''zalo'' 1 ''x'' (sample_pending ''n1'') [])"

lemmas sample_table_eval = sample_table_def db_save_def sql_upsert_def staged_row_def sample_pending_def
  or_else_def Let_def

lemma sample_table_ok: "db_ok sample_table"
  by (simp add: sample_table_eval db_ok_def keyed_def)

theorem staged_claim_exclusive_witness:
  "\<exists>r rows1. db_take_valid ''zalo'' 5 ''t'' ''u'' (Some 7) (free_binding ''n1'') sample_table = (Some r, rows1) \<and>
     ''u'' \<notin> set (fst (db_staging.run_store ''zalo''
       [Op_Save (2, ''y'') (sample_pending ''n2''), Op_Take 6 ''t2'' ''u'' None (free_binding ''n1''), Op_Revert 7 ''u'' ''t3'']
       rows1))"
proof -
  obtain r rows1 where take: "db_take_valid ''zalo'' 5 ''t'' ''u'' (Some 7) (free_binding ''n1'') sample_table = (Some r, rows1)"
    by (simp add: db_take_valid_eq sample_table_eval free_binding_def db_binding_ok_def db_bound_def matches_def)
  show ?thesis
    using take staged_claim_exclusive [OF sample_table_ok take,
        of "[Op_Save (2, ''y'') (sample_pending ''n2''), Op_Take 6 ''t2'' ''u'' None (free_binding ''n1''), Op_Revert 7 ''u'' ''t3'']"]
    by (intro exI conjI) (assumption, rule conjunct1, force)
qed

end
