(* ===== verification/Reschedule_Confirm.thy ===== *)
theory Reschedule_Confirm
  imports Reschedule_Store
begin

text \<open>
  Staging, confirming and recovering a reschedule: \<open>reschedule-confirm.service.ts\<close>,
  \<open>reschedule-attempt.port.ts\<close>, the attempt stores and \<open>reschedule-recovery-cron.service.ts\<close>.

  The service is a function of the store it is given (a record of operations, so that the same
  code runs on the memory and on the database store), of the attempt store's platform and of the
  ports. The calendar write is a port; each write that returns successfully is recorded in a
  history. Every store or port call may be refused or lose its reply. User-facing texts are the
  constructors of \<open>message\<close>; log lines, metrics and the calendar cache are left out.
\<close>

section \<open>The durable attempt record\<close>

datatype attempt_status = Attempting | At_Confirmed
datatype notification_status = N_Pending | N_Deferred | N_Delivered | N_Ambiguous | N_Abandoned

record attempt =
  at_platform :: string
  at_ext :: ext_id
  at_nonce :: string
  at_user :: user_id
  at_status :: attempt_status
  at_label :: "string option"
  at_notif :: notification_status
  at_tries :: nat
  at_next :: "millis option"

definition at_key :: "attempt \<Rightarrow> string \<times> ext_id \<times> string" where
  "at_key a = (at_platform a, at_ext a, at_nonce a)"

definition max_notification_attempts :: nat where
  "max_notification_attempts = 5"

definition notification_retry_ms :: millis where
  "notification_retry_ms = 5 * 60000"

definition notification_is_due :: "millis \<Rightarrow> attempt \<Rightarrow> bool" where
  "notification_is_due now a \<longleftrightarrow>
     at_notif a = N_Deferred \<and> at_tries a < max_notification_attempts \<and>
     (case at_next a of None \<Rightarrow> True | Some t \<Rightarrow> t \<le> now)"

definition new_attempt :: "string \<Rightarrow> ext_id \<Rightarrow> string \<Rightarrow> user_id \<Rightarrow> attempt" where
  "new_attempt platform ext nonce user =
     \<lparr>at_platform = platform, at_ext = ext, at_nonce = nonce, at_user = user, at_status = Attempting,
      at_label = None, at_notif = N_Pending, at_tries = 0, at_next = None\<rparr>"

subsection \<open>The database attempt store\<close>

text \<open>\<open>orUpdate\<close> overwrites the status, the notification status and the counter of an existing row.\<close>

definition begin_attempt :: "string \<Rightarrow> ext_id \<Rightarrow> string \<Rightarrow> user_id \<Rightarrow> attempt list \<Rightarrow> attempt list" where
  "begin_attempt platform ext nonce user rows =
     fst (sql_upsert at_key (new_attempt platform ext nonce user)
       (\<lambda>old. old\<lparr>at_status := Attempting, at_notif := N_Pending, at_tries := 0\<rparr>) (\<lambda>_. True) rows)"

definition confirm_attempt :: "string \<Rightarrow> ext_id \<Rightarrow> string \<Rightarrow> string \<Rightarrow> attempt list \<Rightarrow> bool \<times> attempt list" where
  "confirm_attempt platform ext nonce label rows =
     update_where at_key (\<lambda>a. at_status a = Attempting)
       (\<lambda>a. a\<lparr>at_status := At_Confirmed, at_label := Some label\<rparr>) (platform, ext, nonce) rows"

definition clear_attempt :: "string \<Rightarrow> ext_id \<Rightarrow> string \<Rightarrow> attempt list \<Rightarrow> attempt list" where
  "clear_attempt platform ext nonce rows = sql_delete (\<lambda>a. at_key a = (platform, ext, nonce)) rows"

definition find_attempt :: "string \<Rightarrow> ext_id \<Rightarrow> string \<Rightarrow> attempt list \<Rightarrow> attempt option" where
  "find_attempt platform ext nonce rows = find (\<lambda>a. at_key a = (platform, ext, nonce)) rows"

text \<open>Rows with the due time NULL sort last, as \<open>ORDER BY .. ASC\<close> does.\<close>

definition due_order :: "attempt \<Rightarrow> int \<times> int" where
  "due_order a = (case at_next a of Some t \<Rightarrow> (0, t) | None \<Rightarrow> (1, 0))"

fun insert_due :: "attempt \<Rightarrow> attempt list \<Rightarrow> attempt list" where
  "insert_due a [] = [a]"
| "insert_due a (b # bs) =
     (if fst (due_order a) < fst (due_order b) \<or>
         (fst (due_order a) = fst (due_order b) \<and> snd (due_order a) \<le> snd (due_order b))
      then a # b # bs else b # insert_due a bs)"

definition list_due_notification_attempts :: "string \<Rightarrow> nat \<Rightarrow> millis \<Rightarrow> attempt list \<Rightarrow> attempt list" where
  "list_due_notification_attempts platform limit now rows =
     filter (notification_is_due now)
       (take limit (foldr insert_due
          (filter (\<lambda>a. at_platform a = platform \<and> at_status a = At_Confirmed \<and> notification_is_due now a) rows) []))"

definition bump_notification ::
    "string \<Rightarrow> ext_id \<Rightarrow> string \<Rightarrow> notification_status \<Rightarrow> millis option \<Rightarrow> attempt list \<Rightarrow> attempt list" where
  "bump_notification platform ext nonce st next_at rows =
     (case find_attempt platform ext nonce rows of
        None \<Rightarrow> rows
      | Some a \<Rightarrow>
          sql_update (\<lambda>q. at_key q = (platform, ext, nonce))
            (\<lambda>q. q\<lparr>at_notif := st, at_tries := at_tries a + 1, at_next := next_at\<rparr>) rows)"

definition apply_notification_outcome ::
    "string \<Rightarrow> ext_id \<Rightarrow> string \<Rightarrow> delivery_outcome \<Rightarrow> millis \<Rightarrow> attempt list \<Rightarrow> attempt list" where
  "apply_notification_outcome platform ext nonce outcome now rows =
     (case find_attempt platform ext nonce rows of
        None \<Rightarrow> rows
      | Some a \<Rightarrow>
          if at_status a \<noteq> At_Confirmed then rows
          else if outcome = Sent then bump_notification platform ext nonce N_Delivered None rows
          else if outcome = Ambiguous then bump_notification platform ext nonce N_Ambiguous None rows
          else if at_tries a \<ge> max_notification_attempts
            then bump_notification platform ext nonce N_Abandoned None rows
          else bump_notification platform ext nonce N_Deferred (Some (now + notification_retry_ms)) rows)"

section \<open>Validation\<close>

datatype scope_failure = Scope_Mismatch | Scope_Unverified

definition max_safe_integer :: int where
  "max_safe_integer = 2 ^ 53 - 1"

text \<open>\<open>None\<close> stands for a value that is not a number.\<close>

definition safe_id :: "int option \<Rightarrow> bool" where
  "safe_id x \<longleftrightarrow> (case x of None \<Rightarrow> False | Some v \<Rightarrow> 0 < v \<and> v \<le> max_safe_integer)"

definition scope_failure_reason :: "int option \<Rightarrow> int option \<Rightarrow> scope_failure option" where
  "scope_failure_reason own expected =
     (if \<not> safe_id own \<or> \<not> safe_id expected then Some Scope_Unverified
      else if own = expected then None else Some Scope_Mismatch)"

definition is_hex :: "char \<Rightarrow> bool" where
  "is_hex c \<longleftrightarrow> (let n = (of_char c :: nat) in 48 \<le> n \<and> n \<le> 57 \<or> 97 \<le> n \<and> n \<le> 102 \<or> 65 \<le> n \<and> n \<le> 70)"

text \<open>The UUID v4 pattern, position by position.\<close>

definition token_char_ok :: "nat \<Rightarrow> char \<Rightarrow> bool" where
  "token_char_ok i c \<longleftrightarrow>
     (if i \<in> {8, 13, 18, 23} then c = CHR ''-''
      else if i = 14 then c = CHR ''4''
      else if i = 19 then c \<in> set ''89abAB''
      else is_hex c)"

definition is_valid_approval_token :: "string \<Rightarrow> bool" where
  "is_valid_approval_token s \<longleftrightarrow> length s = 36 \<and> list_all2 token_char_ok [0..<36] s"

definition truthy :: "string option \<Rightarrow> bool" where
  "truthy s \<longleftrightarrow> (case s of None \<Rightarrow> False | Some v \<Rightarrow> v \<noteq> [])"

section \<open>The service\<close>

record 's store_ops =
  so_requires_token :: bool
  so_save :: "pending_rec \<Rightarrow> 's \<Rightarrow> bool \<times> 's"
  so_take :: "millis \<Rightarrow> string \<Rightarrow> ext_id \<Rightarrow> user_id option \<Rightarrow> binding \<Rightarrow> 's \<Rightarrow> pending_rec option \<times> 's"
  so_revert :: "millis \<Rightarrow> ext_id \<Rightarrow> string \<Rightarrow> 's \<Rightarrow> 's"
  so_cancel_pending :: "millis \<Rightarrow> ext_id \<Rightarrow> string option \<Rightarrow> 's \<Rightarrow> cancel_outcome \<times> 's"
  so_cancel_claimed :: "ext_id \<Rightarrow> string \<Rightarrow> 's \<Rightarrow> 's"
  so_state :: "millis \<Rightarrow> ext_id \<Rightarrow> 's \<Rightarrow> pending_state \<times> 's"

definition db_ops :: "string \<Rightarrow> nat \<Rightarrow> string \<Rightarrow> conf_table store_ops" where
  "db_ops platform fresh_id fresh_nonce =
     \<lparr>so_requires_token = True, so_save = db_save platform fresh_id fresh_nonce,
      so_take = db_take_valid platform, so_revert = db_revert_to_pending platform,
      so_cancel_pending = (\<lambda>_. db_cancel_pending platform), so_cancel_claimed = db_cancel_claimed platform,
      so_state = db_get_pending_state platform\<rparr>"

definition mem_ops :: "millis \<Rightarrow> mem_store store_ops" where
  "mem_ops now =
     \<lparr>so_requires_token = False, so_save = mem_save now, so_take = mem_take_valid,
      so_revert = mem_revert_to_pending, so_cancel_pending = mem_cancel_pending,
      so_cancel_claimed = mem_cancel_claimed, so_state = mem_get_pending_state\<rparr>"

datatype write_result = Write_Ok string | Write_Scope scope_failure | Write_Failed string

record 's rworld =
  w_store :: 's
  w_attempts :: "attempt list"
  w_writes :: "(ext_id \<times> string option) list"
  w_budget :: int
  w_replies :: "db_reply list"
  w_now :: millis

record 's reschedule_options =
  ro_platform :: string
  ro_attempts :: bool
  ro_consume :: "(user_id \<Rightarrow> ext_id \<Rightarrow> int \<Rightarrow> bool) option"
  ro_refund :: bool
  ro_write :: "pending_rec \<Rightarrow> 's rworld \<Rightarrow> write_result"

datatype message = Msg_Invalid | Msg_Expired | Msg_In_Progress | Msg_No_Pending | Msg_Budget
  | Msg_Scope | Msg_Unavailable | Msg_Cancelled | Msg_Cancel_Processing | Msg_Cancel_None | Msg_Invalid_Token

datatype confirm_result = Confirmed string bool | Rejected message | Unknown_Outcome

text \<open>One call: answered, refused, or applied with its reply lost.\<close>

definition rcall :: "('s rworld \<Rightarrow> 'a \<times> 's rworld) \<Rightarrow> 's rworld \<Rightarrow> (string + 'a) \<times> 's rworld" where
  "rcall f w =
     (case w_replies w of
        Refused # rs \<Rightarrow> (Inl ''refused'', w\<lparr>w_replies := rs\<rparr>)
      | Reply_Lost # rs \<Rightarrow> (Inl ''lost'', snd (f (w\<lparr>w_replies := rs\<rparr>)))
      | _ \<Rightarrow> (case f (w\<lparr>w_replies := tl (w_replies w)\<rparr>) of (a, w') \<Rightarrow> (Inr a, w')))"

definition bind_r ::
    "('s rworld \<Rightarrow> (string + 'a) \<times> 's rworld) \<Rightarrow> ('a \<Rightarrow> 's rworld \<Rightarrow> (string + 'b) \<times> 's rworld) \<Rightarrow>
     's rworld \<Rightarrow> (string + 'b) \<times> 's rworld" where
  "bind_r m k w = (case m w of (Inl e, w1) \<Rightarrow> (Inl e, w1) | (Inr a, w1) \<Rightarrow> k a w1)"

definition return_r :: "'a \<Rightarrow> 's rworld \<Rightarrow> (string + 'a) \<times> 's rworld" where
  "return_r a w = (Inr a, w)"

text \<open>\<open>.catch(() => undefined)\<close>.\<close>

definition swallow_r :: "('s rworld \<Rightarrow> (string + 'a) \<times> 's rworld) \<Rightarrow> 's rworld \<Rightarrow> (string + unit) \<times> 's rworld" where
  "swallow_r m w = (Inr (), snd (m w))"

definition on_store :: "('s \<Rightarrow> 'a \<times> 's) \<Rightarrow> 's rworld \<Rightarrow> 'a \<times> 's rworld" where
  "on_store f w = (case f (w_store w) of (a, s') \<Rightarrow> (a, w\<lparr>w_store := s'\<rparr>))"

definition on_store_unit :: "('s \<Rightarrow> 's) \<Rightarrow> 's rworld \<Rightarrow> unit \<times> 's rworld" where
  "on_store_unit f w = ((), w\<lparr>w_store := f (w_store w)\<rparr>)"

definition get_pending_state :: "'s store_ops \<Rightarrow> ext_id \<Rightarrow> 's rworld \<Rightarrow> (string + pending_state) \<times> 's rworld" where
  "get_pending_state ops ext w = rcall (on_store (so_state ops (w_now w) ext)) w"

definition take_pending ::
    "'s store_ops \<Rightarrow> string \<Rightarrow> ext_id \<Rightarrow> user_id option \<Rightarrow> binding \<Rightarrow> 's rworld \<Rightarrow> (string + pending_rec option) \<times> 's rworld" where
  "take_pending ops token ext user b w = rcall (on_store (so_take ops (w_now w) token ext user b)) w"

definition revert_pending :: "'s store_ops \<Rightarrow> ext_id \<Rightarrow> string \<Rightarrow> 's rworld \<Rightarrow> (string + unit) \<times> 's rworld" where
  "revert_pending ops ext token w = rcall (on_store_unit (so_revert ops (w_now w) ext token)) w"

definition drop_claimed :: "'s store_ops \<Rightarrow> ext_id \<Rightarrow> string \<Rightarrow> 's rworld \<Rightarrow> (string + unit) \<times> 's rworld" where
  "drop_claimed ops ext token w = rcall (on_store_unit (so_cancel_claimed ops ext token)) w"

text \<open>The attempt store is optional: \<open>this.options.attemptStore?.\<close> is \<open>undefined\<close> without it.\<close>

definition lookup_attempt :: "'s reschedule_options \<Rightarrow> ext_id \<Rightarrow> string \<Rightarrow> 's rworld \<Rightarrow> (string + attempt option) \<times> 's rworld" where
  "lookup_attempt opts ext nonce =
     (if ro_attempts opts
      then rcall (\<lambda>w. (find_attempt (ro_platform opts) ext nonce (w_attempts w), w))
      else return_r None)"

definition record_begin :: "'s reschedule_options \<Rightarrow> ext_id \<Rightarrow> string \<Rightarrow> user_id \<Rightarrow> 's rworld \<Rightarrow> (string + unit) \<times> 's rworld" where
  "record_begin opts ext nonce user =
     (if ro_attempts opts
      then rcall (\<lambda>w. ((), w\<lparr>w_attempts := begin_attempt (ro_platform opts) ext nonce user (w_attempts w)\<rparr>))
      else return_r ())"

text \<open>The result is \<open>undefined\<close> (\<open>None\<close>) without an attempt store.\<close>

definition record_confirmed ::
    "'s reschedule_options \<Rightarrow> ext_id \<Rightarrow> string \<Rightarrow> string \<Rightarrow> 's rworld \<Rightarrow> (string + bool option) \<times> 's rworld" where
  "record_confirmed opts ext nonce label =
     (if ro_attempts opts
      then rcall (\<lambda>w. case confirm_attempt (ro_platform opts) ext nonce label (w_attempts w) of
                        (hit, rows) \<Rightarrow> (Some hit, w\<lparr>w_attempts := rows\<rparr>))
      else return_r None)"

definition record_clear :: "'s reschedule_options \<Rightarrow> ext_id \<Rightarrow> string \<Rightarrow> 's rworld \<Rightarrow> (string + unit) \<times> 's rworld" where
  "record_clear opts ext nonce =
     (if ro_attempts opts
      then rcall (\<lambda>w. ((), w\<lparr>w_attempts := clear_attempt (ro_platform opts) ext nonce (w_attempts w)\<rparr>))
      else return_r ())"

definition consume_budget :: "'s reschedule_options \<Rightarrow> pending_rec \<Rightarrow> 's rworld \<Rightarrow> (string + bool) \<times> 's rworld" where
  "consume_budget opts p =
     (case ro_consume opts of
        None \<Rightarrow> return_r True
      | Some admits \<Rightarrow>
          rcall (\<lambda>w. if admits (pr_user p) (pr_external p) (w_budget w)
                     then (True, w\<lparr>w_budget := w_budget w + 1\<rparr>) else (False, w)))"

definition refund_budget :: "'s reschedule_options \<Rightarrow> 's rworld \<Rightarrow> (string + unit) \<times> 's rworld" where
  "refund_budget opts =
     (if ro_refund opts then rcall (\<lambda>w. ((), w\<lparr>w_budget := w_budget w - 1\<rparr>)) else return_r ())"

subsection \<open>Confirming\<close>

definition write_gate :: "'s store_ops \<Rightarrow> string option \<Rightarrow> user_id option \<Rightarrow> binding \<Rightarrow> bool" where
  "write_gate ops approval user b \<longleftrightarrow>
     so_requires_token ops \<and>
     (\<not> truthy approval \<or> \<not> is_valid_approval_token (the approval) \<or> user = None \<or>
      \<not> truthy (bi_platform b) \<or> \<not> truthy (bi_mapping b))"

text \<open>The staged request is gone: ask the durable record, then report the state.\<close>

definition confirm_missing ::
    "'s store_ops \<Rightarrow> 's reschedule_options \<Rightarrow> ext_id \<Rightarrow> string option \<Rightarrow> 's rworld \<Rightarrow> (string + confirm_result) \<times> 's rworld" where
  "confirm_missing ops opts ext approval =
     bind_r (if truthy approval then lookup_attempt opts ext (the approval) else return_r None) (\<lambda>recorded.
       case recorded of
         Some a \<Rightarrow>
           (case at_status a of
              At_Confirmed \<Rightarrow> return_r (Confirmed (or_else (at_label a) []) True)
            | Attempting \<Rightarrow> return_r Unknown_Outcome)
       | None \<Rightarrow>
           bind_r (get_pending_state ops ext) (\<lambda>state.
             return_r (Rejected (if state = Ps_Expired then Msg_Expired
                                 else if state = Ps_Processing then Msg_In_Progress else Msg_No_Pending))))"

text \<open>After the write returned: record it, then clean up. Whatever throws here is reported as an
  unknown outcome.\<close>

definition after_commit ::
    "'s store_ops \<Rightarrow> 's reschedule_options \<Rightarrow> ext_id \<Rightarrow> string \<Rightarrow> string option \<Rightarrow> string \<Rightarrow> 's rworld \<Rightarrow> confirm_result \<times> 's rworld" where
  "after_commit ops opts ext lease nonce label w =
     (case (if truthy nonce then record_confirmed opts ext (the nonce) label else return_r None) w of
        (Inl e, w1) \<Rightarrow> (Unknown_Outcome, w1)
      | (Inr (Some False), w1) \<Rightarrow> (Unknown_Outcome, w1)
      | (Inr _, w1) \<Rightarrow> (Confirmed label False, snd (swallow_r (drop_claimed ops ext lease) w1)))"

definition after_failure ::
    "'s store_ops \<Rightarrow> 's reschedule_options \<Rightarrow> ext_id \<Rightarrow> string \<Rightarrow> string option \<Rightarrow> bool \<Rightarrow> 's rworld \<Rightarrow> (string + confirm_result) \<times> 's rworld" where
  "after_failure ops opts ext lease nonce scope =
     bind_r (if truthy nonce then swallow_r (record_clear opts ext (the nonce)) else return_r ()) (\<lambda>_.
     bind_r (refund_budget opts) (\<lambda>_.
       if scope then bind_r (drop_claimed ops ext lease) (\<lambda>_. return_r (Rejected Msg_Scope))
       else bind_r (revert_pending ops ext lease) (\<lambda>_. return_r (Rejected Msg_Unavailable))))"

definition perform_write ::
    "'s store_ops \<Rightarrow> 's reschedule_options \<Rightarrow> ext_id \<Rightarrow> string \<Rightarrow> string option \<Rightarrow> pending_rec \<Rightarrow> 's rworld \<Rightarrow> (string + confirm_result) \<times> 's rworld" where
  "perform_write ops opts ext lease nonce p w =
     (case ro_write opts p w of
        Write_Ok label \<Rightarrow>
          (case after_commit ops opts ext lease nonce label (w\<lparr>w_writes := (ext, nonce) # w_writes w\<rparr>) of
             (res, w') \<Rightarrow> (Inr res, w'))
      | Write_Scope _ \<Rightarrow> after_failure ops opts ext lease nonce True w
      | Write_Failed _ \<Rightarrow> after_failure ops opts ext lease nonce False w)"

text \<open>The write is refused when an earlier attempt under the same token never reported an outcome;
  otherwise the attempt is recorded before the write.\<close>

definition attempt_write ::
    "'s store_ops \<Rightarrow> 's reschedule_options \<Rightarrow> ext_id \<Rightarrow> string \<Rightarrow> string option \<Rightarrow> pending_rec \<Rightarrow> 's rworld \<Rightarrow> (string + confirm_result) \<times> 's rworld" where
  "attempt_write ops opts ext lease nonce p =
     (if truthy nonce then
        bind_r (lookup_attempt opts ext (the nonce)) (\<lambda>existing.
          if map_option at_status existing = Some Attempting
          then bind_r (revert_pending ops ext lease) (\<lambda>_. return_r Unknown_Outcome)
          else
            bind_r (record_begin opts ext (the nonce) (pr_user p)) (\<lambda>_.
              perform_write ops opts ext lease nonce p))
      else perform_write ops opts ext lease nonce p)"

definition confirm_claimed ::
    "'s store_ops \<Rightarrow> 's reschedule_options \<Rightarrow> ext_id \<Rightarrow> string option \<Rightarrow> pending_rec \<Rightarrow> 's rworld \<Rightarrow> (string + confirm_result) \<times> 's rworld" where
  "confirm_claimed ops opts ext approval p =
     (case pr_lease p of
        None \<Rightarrow> return_r (Rejected Msg_Invalid)
      | Some lease \<Rightarrow>
          if so_requires_token ops \<and>
             (pr_tool p \<noteq> Some ''reschedule_study_session'' \<or> \<not> truthy (pr_intent p) \<or>
              \<not> truthy (pr_args p) \<or> \<not> truthy (pr_nonce p))
          then bind_r (revert_pending ops ext lease) (\<lambda>_. return_r (Rejected Msg_Invalid))
          else
            bind_r (consume_budget opts p) (\<lambda>consumed.
              if \<not> consumed then bind_r (revert_pending ops ext lease) (\<lambda>_. return_r (Rejected Msg_Budget))
              else
                attempt_write ops opts ext lease (case pr_nonce p of Some n \<Rightarrow> Some n | None \<Rightarrow> approval) p))"

definition confirm ::
    "'s store_ops \<Rightarrow> 's reschedule_options \<Rightarrow> string \<Rightarrow> ext_id \<Rightarrow> user_id option \<Rightarrow> string option \<Rightarrow> binding \<Rightarrow>
     's rworld \<Rightarrow> (string + confirm_result) \<times> 's rworld" where
  "confirm ops opts token ext user approval b =
     (if write_gate ops approval user b then return_r (Rejected Msg_Invalid)
      else
        bind_r (get_pending_state ops ext) (\<lambda>state.
          if state = Ps_Expired then return_r (Rejected Msg_Expired)
          else
            bind_r (take_pending ops token ext user (if truthy approval then b\<lparr>bi_nonce := approval\<rparr> else b)) (\<lambda>pending.
              case pending of
                None \<Rightarrow> confirm_missing ops opts ext approval
              | Some p \<Rightarrow> confirm_claimed ops opts ext approval p)))"

subsection \<open>Staging and cancelling\<close>

record stage_input =
  si_external :: ext_id
  si_user :: user_id
  si_calendar :: int
  si_mode :: scheduling_mode
  si_new_date :: "string option"
  si_new_time :: "string option"
  si_platform :: "string option"
  si_mapping :: "string option"
  si_intent :: "string option"
  si_args :: "string option"

record calendar_entry =
  ce_calendar :: int
  ce_label :: string
  ce_owner :: "int option"

datatype stage_result = Staged string string | Stage_Error message

definition blank :: "string option \<Rightarrow> bool" where
  "blank s \<longleftrightarrow> (case s of None \<Rightarrow> True | Some v \<Rightarrow> js_trim v = [])"

definition cancel_pending_once ::
    "'s store_ops \<Rightarrow> ext_id \<Rightarrow> string option \<Rightarrow> 's rworld \<Rightarrow> (string + cancel_outcome) \<times> 's rworld" where
  "cancel_pending_once ops ext nonce w = rcall (on_store (so_cancel_pending ops (w_now w) ext nonce)) w"

text \<open>One retry, then the failure is only logged.\<close>

definition cancel_pending :: "'s store_ops \<Rightarrow> ext_id \<Rightarrow> string option \<Rightarrow> 's rworld \<Rightarrow> 's rworld" where
  "cancel_pending ops ext nonce w =
     (case cancel_pending_once ops ext nonce w of
        (Inr _, w1) \<Rightarrow> w1
      | (Inl _, w1) \<Rightarrow> snd (cancel_pending_once ops ext nonce w1))"

definition staged_record :: "(string \<Rightarrow> string) \<Rightarrow> (stage_input \<Rightarrow> string) \<Rightarrow> string \<Rightarrow> millis \<Rightarrow> stage_input \<Rightarrow> calendar_entry \<Rightarrow> pending_rec" where
  "staged_record sha256 args_json nonce now inp entry =
     \<lparr>pr_external = si_external inp, pr_user = si_user inp, pr_calendar = ce_calendar entry,
      pr_mode = si_mode inp, pr_new_date = si_new_date inp, pr_new_time = si_new_time inp,
      pr_label = ce_label entry, pr_expires = now + pending_ttl_ms, pr_lease = None,
      pr_tool = Some ''reschedule_study_session'', pr_platform = si_platform inp, pr_mapping = si_mapping inp,
      pr_intent = Some (sha256 (js_trim (or_else (si_intent inp) []))),
      pr_args = Some (sha256 (or_else (si_args inp) (args_json inp))), pr_nonce = Some nonce\<rparr>"

text \<open>\<open>aborted k\<close> says whether the signal is aborted at the k-th place the code looks at it; the
  calendar listing is a port that may fail.\<close>

definition stage ::
    "'s store_ops \<Rightarrow> (string \<Rightarrow> string) \<Rightarrow> (stage_input \<Rightarrow> string) \<Rightarrow> (nat \<Rightarrow> bool) \<Rightarrow> string \<Rightarrow>
     (string + calendar_entry list) \<Rightarrow> stage_input \<Rightarrow> 's rworld \<Rightarrow> (string + stage_result) \<times> 's rworld" where
  "stage ops sha256 args_json aborted nonce listing inp w =
     (if aborted 0 then (Inl ''aborted'', w)
      else if so_requires_token ops \<and>
        (blank (si_platform inp) \<or> blank (si_mapping inp) \<or> blank (si_intent inp) \<or> blank (si_args inp))
      then (Inr (Stage_Error Msg_Invalid), w)
      else
        (case listing of
           Inl e \<Rightarrow> (Inl (if aborted 1 then ''aborted'' else e), w)
         | Inr upcoming \<Rightarrow>
             if aborted 1 then (Inl ''aborted'', w)
             else
               (case find (\<lambda>e. ce_calendar e = si_calendar inp) upcoming of
                  None \<Rightarrow> (Inr (Stage_Error Msg_Scope), w)
                | Some entry \<Rightarrow>
                    if scope_failure_reason (ce_owner entry) (Some (si_user inp)) \<noteq> None
                    then (Inr (Stage_Error Msg_Scope), w)
                    else if aborted 2 then (Inl ''aborted'', w)
                    else
                      (case rcall (on_store (so_save ops (staged_record sha256 args_json nonce (w_now w) inp entry))) w of
                         (Inl e, w1) \<Rightarrow>
                           if aborted 3 then (Inl ''aborted'', cancel_pending ops (si_external inp) (Some nonce) w1)
                           else (Inl e, w1)
                       | (Inr saved, w1) \<Rightarrow>
                           if aborted 3 then (Inl ''aborted'', cancel_pending ops (si_external inp) (Some nonce) w1)
                           else if \<not> saved then (Inr (Stage_Error Msg_In_Progress), w1)
                           else (Inr (Staged (ce_label entry) nonce), w1)))))"

definition cancel_for_user ::
    "'s store_ops \<Rightarrow> ext_id \<Rightarrow> string option \<Rightarrow> 's rworld \<Rightarrow> (string + cancel_outcome) \<times> 's rworld" where
  "cancel_for_user ops ext approval =
     (if so_requires_token ops \<and> approval \<noteq> None \<and> \<not> is_valid_approval_token (the approval)
      then return_r Nothing
      else
        bind_r (get_pending_state ops ext) (\<lambda>state.
          if state = Ps_Expired then return_r Cancel_Expired
          else cancel_pending_once ops ext approval))"

definition cancel :: "'s store_ops \<Rightarrow> ext_id \<Rightarrow> string option \<Rightarrow> 's rworld \<Rightarrow> (string + message) \<times> 's rworld" where
  "cancel ops ext approval =
     (if so_requires_token ops \<and> approval \<noteq> None \<and> \<not> is_valid_approval_token (the approval)
      then return_r Msg_Invalid_Token
      else
        bind_r (cancel_for_user ops ext approval) (\<lambda>outcome.
          return_r (case outcome of Cancelled \<Rightarrow> Msg_Cancelled | Cancel_Processing \<Rightarrow> Msg_Cancel_Processing
                    | Cancel_Expired \<Rightarrow> Msg_Expired | Nothing \<Rightarrow> Msg_Cancel_None)))"

definition record_confirmation_delivery ::
    "'s reschedule_options \<Rightarrow> ext_id \<Rightarrow> string \<Rightarrow> delivery_outcome \<Rightarrow> 's rworld \<Rightarrow> 's rworld" where
  "record_confirmation_delivery opts ext nonce outcome w =
     (if ro_attempts opts
      then w\<lparr>w_attempts := apply_notification_outcome (ro_platform opts) ext nonce outcome (w_now w) (w_attempts w)\<rparr>
      else w)"

section \<open>The recovery cron\<close>

definition stale_after_ms :: millis where
  "stale_after_ms = 5 * 60000"

text \<open>One stale row. A failed lookup counts as no attempt.\<close>

definition recover_row ::
    "conf_table reschedule_options \<Rightarrow> (nat \<times> string \<times> string) \<Rightarrow> conf_table rworld \<Rightarrow> (string + unit) \<times> conf_table rworld" where
  "recover_row opts row w =
     (case row of (i, ext, nonce) \<Rightarrow>
        (let (looked, w1) = (if nonce \<noteq> [] then lookup_attempt opts ext nonce else return_r None) w;
             attempt = (case looked of Inr a \<Rightarrow> a | Inl _ \<Rightarrow> None)
         in case map_option at_status attempt of
              None \<Rightarrow> rcall (on_store_unit (revert_stale_row (w_now w) i)) w1
            | Some _ \<Rightarrow> rcall (on_store_unit (cancel_stale_row i)) w1))"

fun recover_rows ::
    "conf_table reschedule_options \<Rightarrow> (nat \<times> string \<times> string) list \<Rightarrow> conf_table rworld \<Rightarrow> (string + unit) \<times> conf_table rworld" where
  "recover_rows opts [] = return_r ()"
| "recover_rows opts (row # rows) = bind_r (recover_row opts row) (\<lambda>_. recover_rows opts rows)"

text \<open>The replay of deferred confirmations; a failed delivery leaves the record as it is.\<close>

fun replay_deferred ::
    "conf_table reschedule_options \<Rightarrow> (attempt \<Rightarrow> delivery_outcome option) \<Rightarrow> millis \<Rightarrow> attempt list \<Rightarrow> conf_table rworld \<Rightarrow> conf_table rworld" where
  "replay_deferred opts deliver now [] w = w"
| "replay_deferred opts deliver now (a # due) w =
     (case deliver a of
        None \<Rightarrow> replay_deferred opts deliver now due w
      | Some outcome \<Rightarrow>
          replay_deferred opts deliver now due
            (w\<lparr>w_attempts := apply_notification_outcome (ro_platform opts) (at_ext a) (at_nonce a) outcome now (w_attempts w)\<rparr>))"

definition replay_deferred_confirmations ::
    "conf_table reschedule_options \<Rightarrow> (attempt \<Rightarrow> delivery_outcome option) option \<Rightarrow> nat \<Rightarrow> conf_table rworld \<Rightarrow> conf_table rworld" where
  "replay_deferred_confirmations opts notification limit w =
     (case notification of
        Some deliver \<Rightarrow>
          if ro_attempts opts
          then replay_deferred opts deliver (w_now w)
                 (list_due_notification_attempts (ro_platform opts) limit (w_now w) (w_attempts w)) w
          else w
      | None \<Rightarrow> w)"

definition run_recovery ::
    "conf_table reschedule_options \<Rightarrow> (attempt \<Rightarrow> delivery_outcome option) option \<Rightarrow> nat \<Rightarrow> conf_table rworld \<Rightarrow> (string + unit) \<times> conf_table rworld" where
  "run_recovery opts notification limit =
     bind_r (rcall (\<lambda>w. (list_stale_processing (w_now w) stale_after_ms (w_store w), w))) (\<lambda>stale.
     bind_r (recover_rows opts stale) (\<lambda>_ w.
       (Inr (), replay_deferred_confirmations opts notification limit w)))"

section \<open>Effects of the calls\<close>

text \<open>A call leaves the world as it is or applies its effect; it answers only when it applied it.\<close>

lemma rcall_cases:
  assumes "rcall f w = (res, w')"
  obtains (answered) rs where "res = Inr (fst (f (w\<lparr>w_replies := rs\<rparr>)))" "w' = snd (f (w\<lparr>w_replies := rs\<rparr>))"
  | (lost) rs e where "res = Inl e" "w' = snd (f (w\<lparr>w_replies := rs\<rparr>))"
  | (refused) rs e where "res = Inl e" "w' = w\<lparr>w_replies := rs\<rparr>"
proof -
  obtain a v where f: "f (w\<lparr>w_replies := tl (w_replies w)\<rparr>) = (a, v)" by force
  show ?thesis
    using assms that f unfolding rcall_def
    by (cases "w_replies w"; cases "hd (w_replies w)") (auto, (metis fst_conv snd_conv)+)
qed

definition same_but_store :: "'s rworld \<Rightarrow> 's rworld \<Rightarrow> bool" where
  "same_but_store w w' \<longleftrightarrow> w_writes w' = w_writes w \<and> w_attempts w' = w_attempts w \<and> w_now w' = w_now w"

lemma same_but_store_trans: "same_but_store a b \<Longrightarrow> same_but_store b c \<Longrightarrow> same_but_store a c"
  by (simp add: same_but_store_def)

lemma revert_pending_eff:
  assumes "revert_pending ops ext lease w = (res, w')"
  shows "same_but_store w w' \<and>
    (w_store w' = w_store w \<or> w_store w' = so_revert ops (w_now w) ext lease (w_store w))"
  using assms unfolding revert_pending_def
  by (rule rcall_cases) (auto simp: on_store_unit_def same_but_store_def)

lemma drop_claimed_eff:
  assumes "drop_claimed ops ext lease w = (res, w')"
  shows "same_but_store w w' \<and>
    (w_store w' = w_store w \<or> w_store w' = so_cancel_claimed ops ext lease (w_store w))"
  using assms unfolding drop_claimed_def
  by (rule rcall_cases) (auto simp: on_store_unit_def same_but_store_def)

lemma get_pending_state_eff:
  assumes "get_pending_state ops ext w = (res, w')"
  shows "same_but_store w w' \<and>
    (w_store w' = w_store w \<or> w_store w' = snd (so_state ops (w_now w) ext (w_store w)))"
  using assms unfolding get_pending_state_def
  by (rule rcall_cases) (auto simp: on_store_def same_but_store_def split: prod.splits)

lemma take_pending_eff:
  assumes "take_pending ops token ext user b w = (res, w')"
  shows "same_but_store w w' \<and>
    (w_store w' = w_store w \<and> (\<exists>e. res = Inl e) \<or>
     w_store w' = snd (so_take ops (w_now w) token ext user b (w_store w)) \<and>
       (\<forall>p. res = Inr p \<longrightarrow> fst (so_take ops (w_now w) token ext user b (w_store w)) = p))"
  using assms unfolding take_pending_def
  by (rule rcall_cases) (auto simp: on_store_def same_but_store_def split: prod.splits)

lemma lookup_attempt_eff:
  assumes "lookup_attempt opts ext nonce w = (res, w')"
  shows "w_writes w' = w_writes w \<and> w_store w' = w_store w \<and> w_now w' = w_now w \<and> w_attempts w' = w_attempts w \<and>
    (\<forall>a. res = Inr (Some a) \<longrightarrow> find_attempt (ro_platform opts) ext nonce (w_attempts w) = Some a)"
proof (cases "ro_attempts opts")
  case True
  with assms have "rcall (\<lambda>w. (find_attempt (ro_platform opts) ext nonce (w_attempts w), w)) w = (res, w')"
    by (simp add: lookup_attempt_def)
  then show ?thesis by (rule rcall_cases) auto
next
  case False
  with assms show ?thesis by (auto simp: lookup_attempt_def return_r_def)
qed

text \<open>What every call of the attempt store and of the budget leaves alone.\<close>

definition same_staging :: "'s rworld \<Rightarrow> 's rworld \<Rightarrow> bool" where
  "same_staging w w' \<longleftrightarrow> w_writes w' = w_writes w \<and> w_store w' = w_store w \<and> w_now w' = w_now w"

lemma find_begin_attempt:
  "find_attempt platform ext nonce (begin_attempt platform ext nonce user rows) =
     Some (case find_attempt platform ext nonce rows of
             None \<Rightarrow> new_attempt platform ext nonce user
           | Some old \<Rightarrow> old\<lparr>at_status := Attempting, at_notif := N_Pending, at_tries := 0\<rparr>)"
proof -
  have "at_key (new_attempt platform ext nonce user) = (platform, ext, nonce)"
    by (simp add: at_key_def new_attempt_def)
  then show ?thesis
    using find_upsert [of at_key "\<lambda>old. old\<lparr>at_status := Attempting, at_notif := N_Pending, at_tries := 0\<rparr>"
        "new_attempt platform ext nonce user" "\<lambda>_. True" rows]
    by (simp add: find_attempt_def begin_attempt_def at_key_def split: option.splits)
qed

lemma record_begin_eff:
  assumes "record_begin opts ext nonce user w = (res, w')"
  shows "same_staging w w' \<and>
    (res = Inr () \<longrightarrow> ro_attempts opts \<longrightarrow> find_attempt (ro_platform opts) ext nonce (w_attempts w') \<noteq> None)"
proof (cases "ro_attempts opts")
  case True
  with assms have "rcall (\<lambda>w. ((), w\<lparr>w_attempts := begin_attempt (ro_platform opts) ext nonce user (w_attempts w)\<rparr>)) w = (res, w')"
    by (simp add: record_begin_def)
  then show ?thesis
    using find_begin_attempt [of "ro_platform opts" ext nonce user "w_attempts w"]
    by (rule_tac rcall_cases) (auto simp: same_staging_def)
next
  case False
  with assms show ?thesis by (auto simp: record_begin_def return_r_def same_staging_def)
qed

lemma find_confirm_attempt:
  assumes "confirm_attempt platform ext nonce label rows = (hit, rows')"
  shows "find_attempt platform ext nonce rows' =
    map_option (\<lambda>a. if at_status a = Attempting then a\<lparr>at_status := At_Confirmed, at_label := Some label\<rparr> else a)
      (find_attempt platform ext nonce rows)"
proof -
  have "rows' = snd (update_where at_key (\<lambda>a. at_status a = Attempting)
      (\<lambda>a. a\<lparr>at_status := At_Confirmed, at_label := Some label\<rparr>) (platform, ext, nonce) rows)"
    using assms by (simp add: confirm_attempt_def)
  then show ?thesis
    by (simp only: find_attempt_def) (subst find_update_where, simp_all add: at_key_def)
qed

definition in_record :: "'s reschedule_options \<Rightarrow> ext_id \<Rightarrow> string option \<Rightarrow> 's rworld \<Rightarrow> (attempt \<Rightarrow> bool) \<Rightarrow> bool" where
  "in_record opts ext nonce w P \<longleftrightarrow>
     (ro_attempts opts \<longrightarrow> truthy nonce \<longrightarrow>
        (\<exists>a. find_attempt (ro_platform opts) ext (the nonce) (w_attempts w) = Some a \<and> P a))"

lemma in_record_cong: "w_attempts w' = w_attempts w \<Longrightarrow> in_record opts ext nonce w' P = in_record opts ext nonce w P"
  by (simp add: in_record_def)

lemma record_confirmed_eff:
  assumes "(if truthy nonce then record_confirmed opts ext (the nonce) label else return_r None) w = (res, w')"
    and "keyed at_key (w_attempts w)" "in_record opts ext nonce w (\<lambda>_. True)"
  shows "same_staging w w' \<and> in_record opts ext nonce w' (\<lambda>_. True) \<and>
    (\<forall>hit. res = Inr hit \<longrightarrow> hit \<noteq> Some False \<longrightarrow>
       in_record opts ext nonce w' (\<lambda>a. at_status a = At_Confirmed \<and> at_label a = Some label))"
proof (cases "ro_attempts opts \<and> truthy nonce")
  case True
  let ?p = "ro_platform opts"
  obtain a where a: "find_attempt ?p ext (the nonce) (w_attempts w) = Some a"
    using assms(3) True by (auto simp: in_record_def)
  obtain hit rows where c: "confirm_attempt ?p ext (the nonce) label (w_attempts w) = (hit, rows)" by force
  have hit: "hit \<longleftrightarrow> at_status a = Attempting"
  proof -
    have "hit = matches at_key (\<lambda>a. at_status a = Attempting) (?p, ext, the nonce) (w_attempts w)"
      using c by (simp add: confirm_attempt_def update_where_def)
    then show ?thesis using a matches_keyed [OF assms(2)] by (auto simp: find_attempt_def)
  qed
  have "rcall (\<lambda>w. case confirm_attempt ?p ext (the nonce) label (w_attempts w) of
      (hit, rows) \<Rightarrow> (Some hit, w\<lparr>w_attempts := rows\<rparr>)) w = (res, w')"
    using assms(1) True by (simp add: record_confirmed_def)
  then show ?thesis
    by (rule rcall_cases) (use True a c hit find_confirm_attempt [OF c] in \<open>auto simp: same_staging_def in_record_def\<close>)
next
  case False
  with assms(1) show ?thesis
    by (auto simp: record_confirmed_def return_r_def same_staging_def in_record_def split: if_splits)
qed

lemma after_commit_eff:
  assumes "after_commit ops opts ext lease nonce label w = (res, w')"
    and "keyed at_key (w_attempts w)" "in_record opts ext nonce w (\<lambda>_. True)"
  shows "w_writes w' = w_writes w \<and> w_now w' = w_now w \<and>
    (w_store w' = w_store w \<or> w_store w' = so_cancel_claimed ops ext lease (w_store w)) \<and>
    in_record opts ext nonce w' (\<lambda>_. True) \<and>
    (res = Unknown_Outcome \<or>
     res = Confirmed label False \<and> in_record opts ext nonce w' (\<lambda>a. at_status a = At_Confirmed \<and> at_label a = Some label))"
proof -
  let ?rec = "(if truthy nonce then record_confirmed opts ext (the nonce) label else return_r None) w"
  obtain r1 w1 where rec: "?rec = (r1, w1)" by force
  obtain r2 w2 where drop: "drop_claimed ops ext lease w1 = (r2, w2)" by force
  note eff = record_confirmed_eff [OF rec assms(2,3)]
  note dropped = drop_claimed_eff [OF drop]
  consider "(\<exists>e. r1 = Inl e) \<or> r1 = Inr (Some False)" | h where "r1 = Inr h" "h \<noteq> Some False" by (cases r1) auto
  then show ?thesis
  proof cases
    case 1
    then have "w' = w1" "res = Unknown_Outcome" using assms(1) rec by (auto simp: after_commit_def)
    then show ?thesis using eff by (simp add: same_staging_def)
  next
    case 2
    then have "w' = w2" "res = Confirmed label False"
      using assms(1) rec drop by (auto simp: after_commit_def swallow_r_def split: option.splits bool.splits)
    then show ?thesis using eff 2 dropped by (simp add: same_staging_def same_but_store_def in_record_def)
  qed
qed

text \<open>The three things that may happen to a claimed request.\<close>

definition request_end :: "'s store_ops \<Rightarrow> ext_id \<Rightarrow> string \<Rightarrow> 's rworld \<Rightarrow> 's rworld \<Rightarrow> bool" where
  "request_end ops ext lease w w' \<longleftrightarrow> w_now w' = w_now w \<and>
     (w_store w' = w_store w \<or> w_store w' = so_revert ops (w_now w) ext lease (w_store w) \<or>
      w_store w' = so_cancel_claimed ops ext lease (w_store w))"

lemma quiet_step:
  assumes "(if truthy nonce then swallow_r (record_clear opts ext (the nonce)) else return_r ()) w = (r, w')"
  shows "r = Inr () \<and> same_staging w w'"
proof (cases "truthy nonce \<and> ro_attempts opts")
  case True
  obtain r1 w1 where c: "record_clear opts ext (the nonce) w = (r1, w1)" by force
  have "same_staging w w1"
    using c True unfolding record_clear_def if_P [OF conjunct2 [OF True]]
    by (rule_tac rcall_cases [of _ w r1 w1]) (auto simp: same_staging_def)
  then show ?thesis using assms c True by (simp add: swallow_r_def)
next
  case False
  with assms show ?thesis
    by (auto simp: swallow_r_def record_clear_def return_r_def same_staging_def split: if_splits)
qed

lemma refund_budget_eff:
  assumes "refund_budget opts w = (r, w')"
  shows "same_staging w w' \<and> w_attempts w' = w_attempts w"
proof (cases "ro_refund opts")
  case True
  with assms have "rcall (\<lambda>w. ((), w\<lparr>w_budget := w_budget w - 1\<rparr>)) w = (r, w')" by (simp add: refund_budget_def)
  then show ?thesis by (rule rcall_cases) (auto simp: same_staging_def)
next
  case False
  with assms show ?thesis by (auto simp: refund_budget_def return_r_def same_staging_def)
qed

lemma consume_budget_eff:
  assumes "consume_budget opts p w = (r, w')"
  shows "same_staging w w' \<and> w_attempts w' = w_attempts w"
proof (cases "ro_consume opts")
  case (Some admits)
  with assms have "rcall (\<lambda>w. if admits (pr_user p) (pr_external p) (w_budget w)
      then (True, w\<lparr>w_budget := w_budget w + 1\<rparr>) else (False, w)) w = (r, w')" by (simp add: consume_budget_def)
  then show ?thesis by (rule rcall_cases) (auto simp: same_staging_def)
next
  case None
  with assms show ?thesis by (auto simp: consume_budget_def return_r_def same_staging_def)
qed

definition declined :: "(string + confirm_result) \<Rightarrow> bool" where
  "declined res \<longleftrightarrow> (case res of Inl _ \<Rightarrow> True | Inr (Rejected _) \<Rightarrow> True | _ \<Rightarrow> False)"

lemma bind_rE:
  assumes "bind_r m k w = (res, w')"
  obtains (failed) e where "m w = (Inl e, w')" "res = Inl e"
  | (went_on) a w1 where "m w = (Inr a, w1)" "k a w1 = (res, w')"
  using assms by (auto simp: bind_r_def split: prod.splits sum.splits)

lemma after_failure_eff:
  assumes "after_failure ops opts ext lease nonce scope w = (res, w')"
  shows "w_writes w' = w_writes w \<and> request_end ops ext lease w w' \<and> declined res"
  using assms unfolding after_failure_def
proof (rule bind_rE)
  fix e assume "(if truthy nonce then swallow_r (record_clear opts ext (the nonce)) else return_r ()) w = (Inl e, w')"
  then show ?thesis using quiet_step by blast
next
  fix u w1
  assume q: "(if truthy nonce then swallow_r (record_clear opts ext (the nonce)) else return_r ()) w = (Inr u, w1)"
    and rest: "bind_r (refund_budget opts) (\<lambda>_. if scope
      then bind_r (drop_claimed ops ext lease) (\<lambda>_. return_r (Rejected Msg_Scope))
      else bind_r (revert_pending ops ext lease) (\<lambda>_. return_r (Rejected Msg_Unavailable))) w1 = (res, w')"
  have s1: "same_staging w w1" using quiet_step [OF q] by simp
  from rest show ?thesis
  proof (rule bind_rE)
    fix e assume "refund_budget opts w1 = (Inl e, w')" "res = Inl e"
    then show ?thesis
      using refund_budget_eff s1 by (fastforce simp: same_staging_def request_end_def declined_def)
  next
    fix v w2 assume r: "refund_budget opts w1 = (Inr v, w2)"
      and fin: "(if scope then bind_r (drop_claimed ops ext lease) (\<lambda>_. return_r (Rejected Msg_Scope))
        else bind_r (revert_pending ops ext lease) (\<lambda>_. return_r (Rejected Msg_Unavailable))) w2 = (res, w')"
    have s2: "same_staging w w2" using s1 refund_budget_eff [OF r] by (simp add: same_staging_def)
    show ?thesis
    proof (cases scope)
      case True
      with fin have "bind_r (drop_claimed ops ext lease) (\<lambda>_. return_r (Rejected Msg_Scope)) w2 = (res, w')" by simp
      then show ?thesis
        by (rule bind_rE)
          (use drop_claimed_eff [of ops ext lease w2] s2 in
            \<open>force simp: same_staging_def same_but_store_def request_end_def declined_def return_r_def\<close>)+
    next
      case False
      with fin have "bind_r (revert_pending ops ext lease) (\<lambda>_. return_r (Rejected Msg_Unavailable)) w2 = (res, w')" by simp
      then show ?thesis
        by (rule bind_rE)
          (use revert_pending_eff [of ops ext lease w2] s2 in
            \<open>force simp: same_staging_def same_but_store_def request_end_def declined_def return_r_def\<close>)+
    qed
  qed
qed

text \<open>A confirmation either wrote the calendar once, with a durable record of it, or not at all.\<close>

definition wrote :: "'s store_ops \<Rightarrow> 's reschedule_options \<Rightarrow> ext_id \<Rightarrow> string \<Rightarrow> string option \<Rightarrow>
    (string + confirm_result) \<Rightarrow> 's rworld \<Rightarrow> 's rworld \<Rightarrow> bool" where
  "wrote ops opts ext lease nonce res w w' \<longleftrightarrow>
     w_writes w' = (ext, nonce) # w_writes w \<and> w_now w' = w_now w \<and>
     (w_store w' = w_store w \<or> w_store w' = so_cancel_claimed ops ext lease (w_store w)) \<and>
     in_record opts ext nonce w' (\<lambda>_. True) \<and>
     (res = Inr Unknown_Outcome \<or>
      (\<exists>label. res = Inr (Confirmed label False) \<and>
         in_record opts ext nonce w' (\<lambda>a. at_status a = At_Confirmed \<and> at_label a = Some label)))"

definition unwritten :: "'s store_ops \<Rightarrow> ext_id \<Rightarrow> string \<Rightarrow> (string + confirm_result) \<Rightarrow> 's rworld \<Rightarrow> 's rworld \<Rightarrow> bool" where
  "unwritten ops ext lease res w w' \<longleftrightarrow>
     w_writes w' = w_writes w \<and> request_end ops ext lease w w' \<and> (declined res \<or> res = Inr Unknown_Outcome)"

lemma perform_write_eff:
  assumes "perform_write ops opts ext lease nonce p w = (res, w')"
    and "keyed at_key (w_attempts w)" "in_record opts ext nonce w (\<lambda>_. True)"
  shows "wrote ops opts ext lease nonce res w w' \<or> unwritten ops ext lease res w w'"
proof (cases "ro_write opts p w")
  case (Write_Ok label)
  let ?w = "w\<lparr>w_writes := (ext, nonce) # w_writes w\<rparr>"
  obtain r where c: "after_commit ops opts ext lease nonce label ?w = (r, w')" and res: "res = Inr r"
    using assms(1) Write_Ok by (auto simp: perform_write_def split: prod.splits)
  have "keyed at_key (w_attempts ?w)" "in_record opts ext nonce ?w (\<lambda>_. True)"
    using assms(2,3) by (simp_all add: in_record_def)
  from after_commit_eff [OF c this] show ?thesis using res by (auto simp: wrote_def)
next
  case (Write_Scope x)
  then have "after_failure ops opts ext lease nonce True w = (res, w')" using assms(1) by (simp add: perform_write_def)
  from after_failure_eff [OF this] show ?thesis by (simp add: unwritten_def)
next
  case (Write_Failed x)
  then have "after_failure ops opts ext lease nonce False w = (res, w')" using assms(1) by (simp add: perform_write_def)
  from after_failure_eff [OF this] show ?thesis by (simp add: unwritten_def)
qed

lemma revert_then:
  assumes "bind_r (revert_pending ops ext lease) (\<lambda>_. return_r r) w = (res, w')"
  shows "w_writes w' = w_writes w \<and> request_end ops ext lease w w' \<and> (res = Inr r \<or> (\<exists>e. res = Inl e))"
  using assms
  by (rule bind_rE) (use revert_pending_eff [of ops ext lease w] in
    \<open>force simp: same_but_store_def request_end_def return_r_def\<close>)+

lemma keyed_begin_attempt: "keyed at_key rows \<Longrightarrow> keyed at_key (begin_attempt platform ext nonce user rows)"
  unfolding begin_attempt_def by (intro keyed_upsert) (simp_all add: at_key_def new_attempt_def)

lemma record_begin_keyed:
  assumes "record_begin opts ext nonce user w = (res, w')" "keyed at_key (w_attempts w)"
  shows "keyed at_key (w_attempts w')"
proof (cases "ro_attempts opts")
  case True
  with assms(1) have "rcall (\<lambda>w. ((), w\<lparr>w_attempts := begin_attempt (ro_platform opts) ext nonce user (w_attempts w)\<rparr>)) w = (res, w')"
    by (simp add: record_begin_def)
  then show ?thesis by (rule rcall_cases) (use assms(2) keyed_begin_attempt in auto)
next
  case False
  with assms show ?thesis by (auto simp: record_begin_def return_r_def)
qed

lemma same_staging_write:
  assumes "same_staging w w1"
    and "wrote ops opts ext lease nonce res w1 w' \<or> unwritten ops ext lease res w1 w'"
  shows "wrote ops opts ext lease nonce res w w' \<or> unwritten ops ext lease res w w'"
  using assms unfolding wrote_def unwritten_def request_end_def same_staging_def by auto

lemma begun_write_eff:
  assumes "bind_r (record_begin opts ext (the nonce) user) (\<lambda>_. perform_write ops opts ext lease nonce p) w = (res, w')"
    and "keyed at_key (w_attempts w)"
  shows "wrote ops opts ext lease nonce res w w' \<or> unwritten ops ext lease res w w'"
  using assms(1)
proof (rule bind_rE)
  fix e assume "record_begin opts ext (the nonce) user w = (Inl e, w')" "res = Inl e"
  then show ?thesis
    using record_begin_eff [of opts ext "the nonce" user w]
    by (auto simp: unwritten_def declined_def request_end_def same_staging_def)
next
  fix u w1 assume b: "record_begin opts ext (the nonce) user w = (Inr u, w1)"
    and wr: "perform_write ops opts ext lease nonce p w1 = (res, w')"
  have "keyed at_key (w_attempts w1)" using record_begin_keyed [OF b assms(2)] .
  moreover have "in_record opts ext nonce w1 (\<lambda>_. True)"
    using record_begin_eff [OF b] by (auto simp: in_record_def)
  ultimately show ?thesis
    using same_staging_write [OF _ perform_write_eff [OF wr]] record_begin_eff [OF b] by blast
qed

lemma attempt_write_eff:
  assumes "attempt_write ops opts ext lease nonce p w = (res, w')" "keyed at_key (w_attempts w)"
  shows "wrote ops opts ext lease nonce res w w' \<or> unwritten ops ext lease res w w'"
proof (cases "truthy nonce")
  case False
  then have "perform_write ops opts ext lease nonce p w = (res, w')" "in_record opts ext nonce w (\<lambda>_. True)"
    using assms(1) by (simp_all add: attempt_write_def in_record_def)
  then show ?thesis using perform_write_eff assms(2) by blast
next
  case True
  then have "bind_r (lookup_attempt opts ext (the nonce)) (\<lambda>existing.
      if map_option at_status existing = Some Attempting
      then bind_r (revert_pending ops ext lease) (\<lambda>_. return_r Unknown_Outcome)
      else bind_r (record_begin opts ext (the nonce) (pr_user p)) (\<lambda>_. perform_write ops opts ext lease nonce p)) w = (res, w')"
    using assms(1) unfolding attempt_write_def by (simp only: if_True)
  then show ?thesis
  proof (rule bind_rE)
    fix e assume "lookup_attempt opts ext (the nonce) w = (Inl e, w')" "res = Inl e"
    then show ?thesis
      using lookup_attempt_eff [of opts ext "the nonce" w] by (auto simp: unwritten_def declined_def request_end_def)
  next
    fix existing w1
    assume l: "lookup_attempt opts ext (the nonce) w = (Inr existing, w1)"
      and rest: "(if map_option at_status existing = Some Attempting
      then bind_r (revert_pending ops ext lease) (\<lambda>_. return_r Unknown_Outcome)
      else bind_r (record_begin opts ext (the nonce) (pr_user p)) (\<lambda>_. perform_write ops opts ext lease nonce p)) w1 = (res, w')"
    have s1: "same_staging w w1" "keyed at_key (w_attempts w1)"
      using lookup_attempt_eff [OF l] assms(2) by (simp_all add: same_staging_def)
    have "wrote ops opts ext lease nonce res w1 w' \<or> unwritten ops ext lease res w1 w'"
    proof (cases "map_option at_status existing = Some Attempting")
      case True
      with rest revert_then [of ops ext lease Unknown_Outcome w1 res w'] show ?thesis
        by (auto simp: unwritten_def declined_def)
    next
      case False
      with rest begun_write_eff [OF _ s1(2)] show ?thesis by (simp only: if_False)
    qed
    then show ?thesis using same_staging_write [OF s1(1)] by blast
  qed
qed

lemma confirm_claimed_eff:
  assumes "confirm_claimed ops opts ext approval p w = (res, w')" "pr_lease p = Some lease"
    and "keyed at_key (w_attempts w)"
    and "nonce = (case pr_nonce p of Some n \<Rightarrow> Some n | None \<Rightarrow> approval)"
  shows "wrote ops opts ext lease nonce res w w' \<or> unwritten ops ext lease res w w'"
proof (cases "so_requires_token ops \<and> (pr_tool p \<noteq> Some ''reschedule_study_session'' \<or> \<not> truthy (pr_intent p) \<or>
    \<not> truthy (pr_args p) \<or> \<not> truthy (pr_nonce p))")
  case True
  then have "bind_r (revert_pending ops ext lease) (\<lambda>_. return_r (Rejected Msg_Invalid)) w = (res, w')"
    using assms(1,2) by (simp add: confirm_claimed_def)
  from revert_then [OF this] show ?thesis by (auto simp: unwritten_def declined_def)
next
  case False
  from assms(1) have "bind_r (consume_budget opts p) (\<lambda>consumed. if \<not> consumed
      then bind_r (revert_pending ops ext lease) (\<lambda>_. return_r (Rejected Msg_Budget))
      else attempt_write ops opts ext lease nonce p) w = (res, w')"
    unfolding confirm_claimed_def assms(2) option.case if_not_P [OF False] assms(4) .
  then show ?thesis
  proof (rule bind_rE)
    fix e assume "consume_budget opts p w = (Inl e, w')" "res = Inl e"
    then show ?thesis
      using consume_budget_eff [of opts p w] by (auto simp: unwritten_def declined_def request_end_def same_staging_def)
  next
    fix consumed w1 assume c: "consume_budget opts p w = (Inr consumed, w1)"
      and last: "(if \<not> consumed then bind_r (revert_pending ops ext lease) (\<lambda>_. return_r (Rejected Msg_Budget))
        else attempt_write ops opts ext lease nonce p) w1 = (res, w')"
    note s1 = consume_budget_eff [OF c]
    have "wrote ops opts ext lease nonce res w1 w' \<or> unwritten ops ext lease res w1 w'"
    proof (cases consumed)
      case True
      with last attempt_write_eff [of ops opts ext lease nonce p w1 res w'] s1 assms(3) show ?thesis by simp
    next
      case False
      with last revert_then [of ops ext lease "Rejected Msg_Budget" w1 res w'] show ?thesis
        by (auto simp: unwritten_def declined_def)
    qed
    then show ?thesis using same_staging_write [OF conjunct1 [OF s1]] by blast
  qed
qed

definition polled :: "'s store_ops \<Rightarrow> ext_id \<Rightarrow> 's rworld \<Rightarrow> 's rworld \<Rightarrow> bool" where
  "polled ops ext w w' \<longleftrightarrow> same_but_store w w' \<and>
     (w_store w' = w_store w \<or> w_store w' = snd (so_state ops (w_now w) ext (w_store w)))"

definition replay_shown :: "'s reschedule_options \<Rightarrow> ext_id \<Rightarrow> string option \<Rightarrow> (string + confirm_result) \<Rightarrow> 's rworld \<Rightarrow> bool" where
  "replay_shown opts ext approval res w \<longleftrightarrow>
     (case res of
        Inr (Confirmed label replayed) \<Rightarrow> replayed \<and>
          (\<exists>a. find_attempt (ro_platform opts) ext (the approval) (w_attempts w) = Some a \<and>
               at_status a = At_Confirmed \<and> label = or_else (at_label a) [])
      | _ \<Rightarrow> True)"

lemma confirm_missing_eff:
  assumes "confirm_missing ops opts ext approval w = (res, w')"
  shows "polled ops ext w w' \<and> replay_shown opts ext approval res w'"
  using assms unfolding confirm_missing_def
proof (rule bind_rE)
  fix e assume "(if truthy approval then lookup_attempt opts ext (the approval) else return_r None) w = (Inl e, w')"
    and "res = Inl e"
  then show ?thesis
    using lookup_attempt_eff [of opts ext "the approval" w]
    by (auto simp: polled_def same_but_store_def replay_shown_def return_r_def split: if_splits)
next
  fix recorded w1
  assume l: "(if truthy approval then lookup_attempt opts ext (the approval) else return_r None) w = (Inr recorded, w1)"
    and rest: "(case recorded of
       Some a \<Rightarrow> (case at_status a of At_Confirmed \<Rightarrow> return_r (Confirmed (or_else (at_label a) []) True)
          | Attempting \<Rightarrow> return_r Unknown_Outcome)
     | None \<Rightarrow> bind_r (get_pending_state ops ext) (\<lambda>state. return_r (Rejected (if state = Ps_Expired then Msg_Expired
          else if state = Ps_Processing then Msg_In_Progress else Msg_No_Pending)))) w1 = (res, w')"
  have w1: "same_but_store w w1 \<and> w_store w1 = w_store w \<and>
      (\<forall>a. recorded = Some a \<longrightarrow> find_attempt (ro_platform opts) ext (the approval) (w_attempts w1) = Some a)"
    using l lookup_attempt_eff [of opts ext "the approval" w] by (auto simp: same_but_store_def return_r_def split: if_splits)
  show ?thesis
  proof (cases recorded)
    case (Some a)
    then show ?thesis
      using rest w1 by (cases "at_status a") (auto simp: polled_def replay_shown_def return_r_def same_but_store_def)
  next
    case None
    with rest have "bind_r (get_pending_state ops ext) (\<lambda>state. return_r (Rejected (if state = Ps_Expired then Msg_Expired
          else if state = Ps_Processing then Msg_In_Progress else Msg_No_Pending))) w1 = (res, w')" by simp
    then show ?thesis
      by (rule bind_rE) (use get_pending_state_eff [of ops ext w1] w1 in
        \<open>auto simp: polled_def replay_shown_def return_r_def same_but_store_def\<close>)
  qed
qed

lemma confirm_cases:
  assumes "confirm ops opts token ext user approval b w = (res, w')"
  obtains (untouched) "polled ops ext w w'" "declined res"
  | (taken) w1 w2 b' where "polled ops ext w w1" "same_but_store w1 w2"
      "w_store w2 = snd (so_take ops (w_now w1) token ext user b' (w_store w1)) \<or> w_store w2 = w_store w1"
      "polled ops ext w2 w'" "replay_shown opts ext approval res w'"
  | (claimed) w1 w2 p b' where "polled ops ext w w1" "same_but_store w1 w2"
      "so_take ops (w_now w1) token ext user b' (w_store w1) = (Some p, w_store w2)"
      "confirm_claimed ops opts ext approval p w2 = (res, w')"
      "b' = (if truthy approval then b\<lparr>bi_nonce := approval\<rparr> else b)"
proof (cases "write_gate ops approval user b")
  case True
  with assms untouched show ?thesis
    by (auto simp: confirm_def return_r_def polled_def same_but_store_def declined_def)
next
  case False
  let ?b = "if truthy approval then b\<lparr>bi_nonce := approval\<rparr> else b"
  have "bind_r (get_pending_state ops ext) (\<lambda>state. if state = Ps_Expired then return_r (Rejected Msg_Expired)
      else bind_r (take_pending ops token ext user ?b) (\<lambda>pending. case pending of
        None \<Rightarrow> confirm_missing ops opts ext approval | Some p \<Rightarrow> confirm_claimed ops opts ext approval p)) w = (res, w')"
    using assms unfolding confirm_def if_not_P [OF False] .
  then show ?thesis
  proof (rule bind_rE)
    fix e assume "get_pending_state ops ext w = (Inl e, w')" "res = Inl e"
    then show ?thesis using untouched get_pending_state_eff [of ops ext w] by (auto simp: polled_def declined_def)
  next
    fix state w1
    assume g: "get_pending_state ops ext w = (Inr state, w1)"
      and rest: "(if state = Ps_Expired then return_r (Rejected Msg_Expired)
      else bind_r (take_pending ops token ext user ?b) (\<lambda>pending. case pending of
        None \<Rightarrow> confirm_missing ops opts ext approval | Some p \<Rightarrow> confirm_claimed ops opts ext approval p)) w1 = (res, w')"
    have p1: "polled ops ext w w1" using get_pending_state_eff [OF g] by (simp add: polled_def)
    show ?thesis
    proof (cases "state = Ps_Expired")
      case True
      with rest p1 untouched show ?thesis by (auto simp: return_r_def declined_def)
    next
      case False
      with rest have "bind_r (take_pending ops token ext user ?b) (\<lambda>pending. case pending of
        None \<Rightarrow> confirm_missing ops opts ext approval | Some p \<Rightarrow> confirm_claimed ops opts ext approval p) w1 = (res, w')"
        by (simp only: if_False)
      then show ?thesis
      proof (rule bind_rE)
        fix e assume t: "take_pending ops token ext user ?b w1 = (Inl e, w')" "res = Inl e"
        have "polled ops ext w' w'" by (simp add: polled_def same_but_store_def)
        then show ?thesis
          using taken [OF p1, of w' ?b] take_pending_eff [OF t(1)] t(2) by (auto simp: replay_shown_def)
      next
        fix pending w2
        assume t: "take_pending ops token ext user ?b w1 = (Inr pending, w2)"
          and k: "(case pending of None \<Rightarrow> confirm_missing ops opts ext approval
            | Some p \<Rightarrow> confirm_claimed ops opts ext approval p) w2 = (res, w')"
        note te = take_pending_eff [OF t]
        show ?thesis
        proof (cases pending)
          case None
          with k confirm_missing_eff [of ops opts ext approval w2 res w'] show ?thesis
            using taken [OF p1, of w2 ?b] te by auto
        next
          case (Some p)
          with k te show ?thesis using claimed [OF p1, of w2 ?b p] by (auto simp: prod_eq_iff)
        qed
      qed
    qed
  qed
qed

lemma confirm_truthful_gen:
  assumes "confirm ops opts token ext user approval b w = (res, w')" "keyed at_key (w_attempts w)"
    and ok: "ok (w_store w)" "\<And>now e s. ok s \<Longrightarrow> ok (snd (so_state ops now e s))"
    and lease: "\<And>now tk e u b s p s'. ok s \<Longrightarrow> so_take ops now tk e u b s = (Some p, s') \<Longrightarrow> pr_lease p = Some tk"
  shows "case res of
      Inr (Confirmed label False) \<Rightarrow> (\<exists>nonce. w_writes w' = (ext, nonce) # w_writes w \<and>
        in_record opts ext nonce w' (\<lambda>a. at_status a = At_Confirmed \<and> at_label a = Some label))
    | Inr (Confirmed label True) \<Rightarrow> w_writes w' = w_writes w \<and>
        (\<exists>a. find_attempt (ro_platform opts) ext (the approval) (w_attempts w') = Some a \<and> at_status a = At_Confirmed)
    | Inr Unknown_Outcome \<Rightarrow> w_writes w' = w_writes w \<or>
        (\<exists>nonce. w_writes w' = (ext, nonce) # w_writes w \<and> in_record opts ext nonce w' (\<lambda>_. True))
    | Inr (Rejected _) \<Rightarrow> w_writes w' = w_writes w
    | Inl _ \<Rightarrow> w_writes w' = w_writes w"
  using assms(1)
proof (rule confirm_cases)
  assume "polled ops ext w w'" "declined res"
  then show ?thesis
    by (auto simp: polled_def same_but_store_def declined_def split: sum.splits confirm_result.splits)
next
  fix w1 w2 b'
  assume "polled ops ext w w1" "same_but_store w1 w2" "polled ops ext w2 w'" "replay_shown opts ext approval res w'"
  then show ?thesis
    by (auto simp: polled_def same_but_store_def replay_shown_def split: sum.splits confirm_result.splits bool.splits)
next
  fix w1 w2 p b'
  assume pre: "polled ops ext w w1" "same_but_store w1 w2"
    and take: "so_take ops (w_now w1) token ext user b' (w_store w1) = (Some p, w_store w2)"
    and c: "confirm_claimed ops opts ext approval p w2 = (res, w')"
  have same: "w_writes w2 = w_writes w" "w_attempts w2 = w_attempts w"
    using pre by (auto simp: polled_def same_but_store_def)
  have "ok (w_store w1)" using pre(1) ok by (auto simp: polled_def)
  note claimed = lease [OF this take]
  have "wrote ops opts ext token (case pr_nonce p of Some n \<Rightarrow> Some n | None \<Rightarrow> approval) res w2 w' \<or> unwritten ops ext token res w2 w'"
    using confirm_claimed_eff [OF c claimed _ refl] assms(2) same by simp
  then show ?thesis
    using same by (auto simp: wrote_def unwritten_def declined_def split: sum.splits confirm_result.splits bool.splits)
qed

lemma db_ops_simps [simp]:
  "so_requires_token (db_ops platform i n) = True" "so_save (db_ops platform i n) = db_save platform i n"
  "so_take (db_ops platform i n) = db_take_valid platform" "so_revert (db_ops platform i n) = db_revert_to_pending platform"
  "so_cancel_pending (db_ops platform i n) = (\<lambda>_. db_cancel_pending platform)"
  "so_cancel_claimed (db_ops platform i n) = db_cancel_claimed platform"
  "so_state (db_ops platform i n) = db_get_pending_state platform"
  by (simp_all add: db_ops_def)


section \<open>At most one calendar write per approval token\<close>

definition pending_nonces :: "conf_table \<Rightarrow> string set" where
  "pending_nonces rows = c_nonce ` {r \<in> set rows. c_status r = C_Pending}"

text \<open>What the store operations do to the tokens that can be confirmed.\<close>

definition nonces_kept :: "conf_table \<Rightarrow> conf_table \<Rightarrow> bool" where
  "nonces_kept rows rows' \<longleftrightarrow> db_ok rows' \<and> keyed c_nonce rows' \<and>
     c_nonce ` set rows' \<subseteq> c_nonce ` set rows \<and> pending_nonces rows' \<subseteq> pending_nonces rows"

lemma nonces_kept_trans: "nonces_kept a b \<Longrightarrow> nonces_kept b c \<Longrightarrow> nonces_kept a c"
  unfolding nonces_kept_def by blast

lemma nonces_kept_refl: "db_ok rows \<Longrightarrow> keyed c_nonce rows \<Longrightarrow> nonces_kept rows rows"
  by (simp add: nonces_kept_def)

lemma nonces_kept_delete: "db_ok rows \<Longrightarrow> keyed c_nonce rows \<Longrightarrow> nonces_kept rows (sql_delete P rows)"
  by (auto simp: nonces_kept_def db_ok_delete keyed_delete pending_nonces_def)

lemma nonces_kept_state:
  "db_ok rows \<Longrightarrow> keyed c_nonce rows \<Longrightarrow> nonces_kept rows (snd (db_get_pending_state platform now ext rows))"
  by (simp add: db_get_pending_state_def nonces_kept_delete nonces_kept_refl split: option.splits)

lemma nonces_kept_cancel_pending:
  "db_ok rows \<Longrightarrow> keyed c_nonce rows \<Longrightarrow> nonces_kept rows (snd (db_cancel_pending platform ext n rows))"
  by (simp add: db_cancel_pending_def Let_def nonces_kept_delete nonces_kept_refl)

lemma nonces_kept_cancel_claimed:
  "db_ok rows \<Longrightarrow> keyed c_nonce rows \<Longrightarrow> nonces_kept rows (db_cancel_claimed platform ext t rows)"
  by (simp add: db_cancel_claimed_def nonces_kept_delete)

lemma nonces_kept_update:
  assumes "db_ok rows" "keyed c_nonce rows" "\<And>r. c_key (f r) = c_key r" "\<And>r. c_nonce (f r) = c_nonce r"
    and "\<And>r. c_status (f r) = C_Processing" "\<And>r. c_lease (f r) \<noteq> None"
  shows "nonces_kept rows (snd (update_where c_key P f k rows))"
proof -
  have "db_ok (snd (update_where c_key P f k rows))" using assms by (intro db_ok_update) auto
  moreover have "keyed c_nonce (snd (update_where c_key P f k rows))"
    using assms(2,4) by (simp add: update_where_def keyed_update)
  moreover have "c_nonce ` set (snd (update_where c_key P f k rows)) \<subseteq> c_nonce ` set rows"
    using assms(4) by (auto simp: update_where_def set_sql_update)
  moreover have "pending_nonces (snd (update_where c_key P f k rows)) \<subseteq> pending_nonces rows"
    using assms(5) by (auto simp: pending_nonces_def update_where_def set_sql_update)
  ultimately show ?thesis by (simp add: nonces_kept_def)
qed

lemma nonces_kept_take:
  "db_ok rows \<Longrightarrow> keyed c_nonce rows \<Longrightarrow> nonces_kept rows (snd (db_take_valid platform now t ext user b rows))"
  unfolding db_take_valid_eq Let_def snd_conv by (rule nonces_kept_update) simp_all

text \<open>A claim makes exactly its own token unconfirmable; putting the request back restores it.\<close>

lemma taken_nonce:
  assumes "db_ok rows" "keyed c_nonce rows" "db_take_valid platform now t ext user b rows = (Some p, rows')"
  obtains n where "pr_nonce p = Some n" "n \<in> pending_nonces rows" "n \<notin> pending_nonces rows'"
    "nonces_kept rows (db_revert_to_pending platform now' ext t rows')"
proof -
  let ?f = "\<lambda>r. r\<lparr>c_status := C_Processing, c_lease := Some t, c_started := Some now\<rparr>"
  let ?P = "\<lambda>r. c_status r = C_Pending \<and> now < c_expires r \<and>
      (case user of None \<Rightarrow> True | Some u \<Rightarrow> c_user r = u) \<and> db_binding_ok b r"
  let ?g = "\<lambda>r. r\<lparr>c_status := C_Pending, c_lease := None, c_started := None, c_expires := now' + 10 * 60 * 1000\<rparr>"
  obtain q where q: "find (\<lambda>r. c_key r = db_key platform ext) rows = Some q" "c_status q = C_Pending"
      "p = map_row platform (?f q)" and rows': "rows' = snd (update_where c_key ?P ?f (db_key platform ext) rows)"
    and valid: "?P q"
    by (rule db_take_hit [OF assms(1,3)]) blast
  have q_in: "q \<in> set rows" "c_key q = db_key platform ext" using find_SomeD [OF q(1)] by auto
  have only: "r = q" if "r \<in> set rows" "c_key r = db_key platform ext" for r
    using keyed_unique [OF db_okD [OF assms(1)] that(1) q_in(1)] that(2) q_in(2) by simp
  have nonce: "r = q" if "r \<in> set rows" "c_nonce r = c_nonce q" for r
    using keyed_unique [OF assms(2) that(1) q_in(1) that(2)] .
  have rows'_in: "(r \<in> set rows \<and> r \<noteq> q) \<or> r = ?f q" if "r \<in> set rows'" for r
  proof -
    have "r \<in> set (sql_update (\<lambda>r. c_key r = db_key platform ext \<and> ?P r) ?f rows)"
      using that by (simp add: rows' update_where_def)
    then show ?thesis
    proof (rule in_sql_updateE)
      assume "r \<in> set rows" "\<not> (c_key r = db_key platform ext \<and> ?P r)"
      then show ?thesis using q_in(2) valid by blast
    next
      fix x assume "x \<in> set rows" "c_key x = db_key platform ext \<and> ?P x" "r = ?f x"
      then show ?thesis using only [of x] by simp
    qed
  qed
  have kept': "nonces_kept rows rows'" using nonces_kept_take [OF assms(1,2)] assms(3) by (metis snd_conv)
  let ?rev = "db_revert_to_pending platform now' ext t rows'"
  have rev_in: "r \<in> set ?rev \<Longrightarrow> r \<in> set rows' \<or> (\<exists>x\<in>set rows'. c_key x = db_key platform ext \<and> r = ?g x)" for r
    by (auto simp: db_revert_to_pending_def update_where_def set_sql_update)
  have "db_ok ?rev" "keyed c_nonce ?rev" "c_nonce ` set ?rev \<subseteq> c_nonce ` set rows'"
    using kept' db_staging.revert_ok [of rows' platform now' ext t]
    by (auto simp: nonces_kept_def db_revert_to_pending_def update_where_def set_sql_update intro!: keyed_update)
  moreover have "pending_nonces ?rev \<subseteq> pending_nonces rows"
  proof
    fix m assume "m \<in> pending_nonces ?rev"
    then obtain r where r: "r \<in> set ?rev" "c_status r = C_Pending" "m = c_nonce r" by (auto simp: pending_nonces_def)
    from rev_in [OF r(1)] show "m \<in> pending_nonces rows"
    proof
      assume "r \<in> set rows'"
      then show ?thesis using rows'_in [of r] r by (auto simp: pending_nonces_def)
    next
      assume "\<exists>x\<in>set rows'. c_key x = db_key platform ext \<and> r = ?g x"
      then obtain x where x: "x \<in> set rows'" "c_key x = db_key platform ext" "r = ?g x" by blast
      then have "x = ?f q" using rows'_in [of x] only by blast
      then show ?thesis using x(3) r(3) q(2) q_in(1) by (auto simp: pending_nonces_def)
    qed
  qed
  ultimately have "nonces_kept rows ?rev" using kept' unfolding nonces_kept_def by blast
  moreover have "c_nonce q \<notin> pending_nonces rows'"
  proof
    assume "c_nonce q \<in> pending_nonces rows'"
    then obtain r where r: "r \<in> set rows'" "c_status r = C_Pending" "c_nonce r = c_nonce q"
      by (auto simp: pending_nonces_def)
    from rows'_in [OF r(1)] show False
    proof
      assume "r \<in> set rows \<and> r \<noteq> q"
      then show False using nonce r(3) by blast
    next
      assume "r = ?f q"
      then show False using r(2) by simp
    qed
  qed
  ultimately show ?thesis
    using q q_in(1) by (intro that [of "c_nonce q"]) (auto simp: map_row_def pending_nonces_def)
qed

inductive rs_reach :: "string \<Rightarrow> conf_table reschedule_options \<Rightarrow> conf_table rworld \<Rightarrow> string set \<Rightarrow> bool"
  for platform opts where
  rs_init: "rs_reach platform opts
      \<lparr>w_store = [], w_attempts = [], w_writes = [], w_budget = 0, w_replies = rs, w_now = t\<rparr> {}"
| rs_stage: "rs_reach platform opts w used \<Longrightarrow> nonce \<notin> used \<Longrightarrow>
    stage (db_ops platform i n) sha256 args_json aborted nonce listing inp w = (sres, w') \<Longrightarrow>
    rs_reach platform opts w' (insert nonce used)"
| rs_confirm: "rs_reach platform opts w used \<Longrightarrow>
    confirm (db_ops platform i n) opts token ext user approval b w = (res, w') \<Longrightarrow> rs_reach platform opts w' used"
| rs_cancel: "rs_reach platform opts w used \<Longrightarrow>
    cancel_for_user (db_ops platform i n) ext approval w = (cres, w') \<Longrightarrow> rs_reach platform opts w' used"
| rs_delivery: "rs_reach platform opts w used \<Longrightarrow>
    rs_reach platform opts (record_confirmation_delivery opts ext nonce outcome w) used"
| rs_time: "rs_reach platform opts w used \<Longrightarrow> rs_reach platform opts (w\<lparr>w_replies := rs, w_now := t\<rparr>) used"

definition writes_under :: "string \<Rightarrow> (ext_id \<times> string option) list \<Rightarrow> nat" where
  "writes_under m ws = length (filter (\<lambda>e. snd e = Some m) ws)"

definition rs_inv :: "conf_table \<Rightarrow> attempt list \<Rightarrow> (ext_id \<times> string option) list \<Rightarrow> string set \<Rightarrow> bool" where
  "rs_inv rows attempts ws used \<longleftrightarrow>
     db_ok rows \<and> keyed c_nonce rows \<and> keyed at_key attempts \<and> c_nonce ` set rows \<subseteq> used \<and>
     (\<forall>m. writes_under m ws \<le> 1) \<and> (\<forall>m. 0 < writes_under m ws \<longrightarrow> m \<in> used \<and> m \<notin> pending_nonces rows)"

lemma rs_inv_kept:
  "rs_inv rows attempts ws used \<Longrightarrow> nonces_kept rows rows' \<Longrightarrow> rs_inv rows' attempts ws used"
  unfolding rs_inv_def nonces_kept_def by blast

lemma rs_invD:
  assumes "rs_inv rows attempts ws used"
  shows "db_ok rows" "keyed c_nonce rows" "keyed at_key attempts"
  using assms by (auto simp: rs_inv_def)

lemma polled_kept:
  assumes "polled (db_ops platform i n) ext w w'" "db_ok (w_store w)" "keyed c_nonce (w_store w)"
  shows "nonces_kept (w_store w) (w_store w')"
  using assms nonces_kept_state nonces_kept_refl by (auto simp: polled_def)

text \<open>The attempt list stays keyed through a confirmation.\<close>

lemma keyed_confirm_attempt: "keyed at_key rows \<Longrightarrow> keyed at_key (snd (confirm_attempt platform ext nonce label rows))"
  unfolding confirm_attempt_def by (rule update_where_keyed) (simp_all add: at_key_def)

lemma keyed_bump: "keyed at_key rows \<Longrightarrow> keyed at_key (bump_notification platform ext nonce st t rows)"
  by (auto simp: bump_notification_def at_key_def split: option.splits intro!: keyed_update)

lemma keyed_apply_notification:
  "keyed at_key rows \<Longrightarrow> keyed at_key (apply_notification_outcome platform ext nonce outcome now rows)"
  by (simp add: apply_notification_outcome_def keyed_bump split: option.splits)

definition keeps_keyed :: "('s rworld \<Rightarrow> (string + 'a) \<times> 's rworld) \<Rightarrow> bool" where
  "keeps_keyed m \<longleftrightarrow> (\<forall>w. keyed at_key (w_attempts w) \<longrightarrow> keyed at_key (w_attempts (snd (m w))))"

lemma keeps_keyed_rcall:
  assumes "\<And>w. keyed at_key (w_attempts w) \<Longrightarrow> keyed at_key (w_attempts (snd (f w)))"
  shows "keeps_keyed (rcall f)"
  unfolding keeps_keyed_def
proof (intro allI impI)
  fix w :: "'a rworld" assume "keyed at_key (w_attempts w)"
  obtain r w' where "rcall f w = (r, w')" by force
  then show "keyed at_key (w_attempts (snd (rcall f w)))"
    using assms \<open>keyed at_key (w_attempts w)\<close> by (rule_tac rcall_cases [of f w r w']) auto
qed

lemma keeps_keyed_bind: "keeps_keyed m \<Longrightarrow> (\<And>a. keeps_keyed (k a)) \<Longrightarrow> keeps_keyed (bind_r m k)"
  by (fastforce simp: keeps_keyed_def bind_r_def split: prod.splits sum.splits)

lemma keeps_keyed_same:
  assumes "\<And>w r w'. m w = (r, w') \<Longrightarrow> w_attempts w' = w_attempts w"
  shows "keeps_keyed m"
  unfolding keeps_keyed_def using assms by (metis prod.collapse)

lemma keeps_keyed_simps:
  "keeps_keyed (return_r a)" "keeps_keyed m \<Longrightarrow> keeps_keyed (swallow_r m)"
  "keeps_keyed (get_pending_state ops ext)" "keeps_keyed (take_pending ops token ext user b)"
  "keeps_keyed (revert_pending ops ext token)" "keeps_keyed (drop_claimed ops ext token)"
  "keeps_keyed (lookup_attempt opts ext nonce)" "keeps_keyed (consume_budget opts p)" "keeps_keyed (refund_budget opts)"
proof -
  show "keeps_keyed (return_r a)" by (simp add: keeps_keyed_def return_r_def)
  show "keeps_keyed m \<Longrightarrow> keeps_keyed (swallow_r m)" by (simp add: keeps_keyed_def swallow_r_def)
  show "keeps_keyed (get_pending_state ops ext)"
    by (rule keeps_keyed_same) (use get_pending_state_eff in \<open>fastforce simp: same_but_store_def\<close>)
  show "keeps_keyed (take_pending ops token ext user b)"
    by (rule keeps_keyed_same) (use take_pending_eff in \<open>fastforce simp: same_but_store_def\<close>)
  show "keeps_keyed (revert_pending ops ext token)"
    by (rule keeps_keyed_same) (use revert_pending_eff in \<open>fastforce simp: same_but_store_def\<close>)
  show "keeps_keyed (drop_claimed ops ext token)"
    by (rule keeps_keyed_same) (use drop_claimed_eff in \<open>fastforce simp: same_but_store_def\<close>)
  show "keeps_keyed (lookup_attempt opts ext nonce)"
    by (rule keeps_keyed_same) (use lookup_attempt_eff in blast)
  show "keeps_keyed (consume_budget opts p)"
    by (rule keeps_keyed_same) (use consume_budget_eff in blast)
  show "keeps_keyed (refund_budget opts)"
    by (rule keeps_keyed_same) (use refund_budget_eff in blast)
qed

lemma keeps_keyed_record:
  "keeps_keyed (record_begin opts ext nonce user)" "keeps_keyed (record_confirmed opts ext nonce label)"
  "keeps_keyed (record_clear opts ext nonce)"
proof -
  show "keeps_keyed (record_begin opts ext nonce user)"
    by (auto simp: record_begin_def keeps_keyed_simps intro!: keeps_keyed_rcall keyed_begin_attempt)
  show "keeps_keyed (record_confirmed opts ext nonce label)"
    using keyed_confirm_attempt [of _ "ro_platform opts" ext nonce label]
    by (auto simp: record_confirmed_def keeps_keyed_simps split: prod.splits intro!: keeps_keyed_rcall) (metis snd_conv)
  show "keeps_keyed (record_clear opts ext nonce)"
    by (auto simp: record_clear_def keeps_keyed_simps clear_attempt_def intro!: keeps_keyed_rcall keyed_delete)
qed

lemma keeps_keyed_ite: "keeps_keyed m \<Longrightarrow> keeps_keyed m' \<Longrightarrow> keeps_keyed (if P then m else m')"
  by simp

lemmas keeps_keyed_rules = keeps_keyed_bind keeps_keyed_ite keeps_keyed_simps keeps_keyed_record

lemma keeps_keyed_after_failure: "keeps_keyed (after_failure ops opts ext lease nonce scope)"
  unfolding after_failure_def by (intro keeps_keyed_rules)

lemma keeps_keyed_after_commit:
  "keyed at_key (w_attempts w) \<Longrightarrow> keyed at_key (w_attempts (snd (after_commit ops opts ext lease nonce label w)))"
proof -
  assume k: "keyed at_key (w_attempts w)"
  obtain r1 w1 where rec: "(if truthy nonce then record_confirmed opts ext (the nonce) label else return_r None) w = (r1, w1)"
    by force
  have "keeps_keyed (if truthy nonce then record_confirmed opts ext (the nonce) label else return_r None)"
    by (intro keeps_keyed_rules)
  then have w1: "keyed at_key (w_attempts w1)" using k rec unfolding keeps_keyed_def by (metis snd_conv)
  have "keyed at_key (w_attempts (snd (swallow_r (drop_claimed ops ext lease) w1)))"
    using w1 keeps_keyed_simps(2) [OF keeps_keyed_simps(6)] unfolding keeps_keyed_def by blast
  then show ?thesis using w1 rec by (auto simp: after_commit_def split: sum.splits option.splits bool.splits)
qed

lemma keeps_keyed_perform_write: "keeps_keyed (perform_write ops opts ext lease nonce p)"
  unfolding keeps_keyed_def
proof (intro allI impI)
  fix w :: "'a rworld" assume k: "keyed at_key (w_attempts w)"
  show "keyed at_key (w_attempts (snd (perform_write ops opts ext lease nonce p w)))"
  proof (cases "ro_write opts p w")
    case (Write_Ok label)
    let ?w = "w\<lparr>w_writes := (ext, nonce) # w_writes w\<rparr>"
    have "keyed at_key (w_attempts (snd (after_commit ops opts ext lease nonce label ?w)))"
      using k by (intro keeps_keyed_after_commit) simp
    then show ?thesis using Write_Ok by (auto simp: perform_write_def split: prod.splits)
  qed (use k keeps_keyed_after_failure [of ops opts ext lease nonce, unfolded keeps_keyed_def] in
      \<open>auto simp: perform_write_def\<close>)
qed

lemma keeps_keyed_attempt_write: "keeps_keyed (attempt_write ops opts ext lease nonce p)"
  unfolding attempt_write_def by (intro keeps_keyed_rules keeps_keyed_perform_write)

lemma keeps_keyed_confirm: "keeps_keyed (confirm ops opts token ext user approval b)"
proof -
  have missing: "keeps_keyed (confirm_missing ops opts ext approval)"
    unfolding confirm_missing_def
    by (intro keeps_keyed_bind keeps_keyed_ite keeps_keyed_simps)
       (auto split: option.splits attempt_status.splits intro!: keeps_keyed_rules)
  have claimed: "keeps_keyed (confirm_claimed ops opts ext approval p)" for p
    unfolding confirm_claimed_def
    by (auto split: option.splits intro!: keeps_keyed_rules keeps_keyed_attempt_write)
  show ?thesis
    unfolding confirm_def
    by (auto split: option.splits intro!: keeps_keyed_rules missing claimed)
qed

lemma rs_inv_write:
  assumes "rs_inv rows attempts ws used" "m \<in> pending_nonces rows" "nonces_kept rows rows'" "m \<notin> pending_nonces rows'"
  shows "rs_inv rows' attempts ((ext, Some m) # ws) used"
proof -
  have "writes_under m ws = 0" using assms(1,2) by (auto simp: rs_inv_def)
  moreover have "m \<in> used" using assms(1,2) by (auto simp: rs_inv_def pending_nonces_def)
  ultimately show ?thesis
    using rs_inv_kept [OF assms(1,3)] assms(4) by (auto simp: rs_inv_def writes_under_def)
qed

lemma rs_inv_confirm:
  assumes "confirm (db_ops platform i n) opts token ext user approval b w = (res, w')"
    and inv: "rs_inv (w_store w) (w_attempts w) (w_writes w) used"
  shows "rs_inv (w_store w') (w_attempts w') (w_writes w') used"
proof -
  have keyed': "keyed at_key (w_attempts w')"
    using keeps_keyed_confirm [unfolded keeps_keyed_def] rs_invD(3) [OF inv] assms(1) by (metis snd_conv)
  have swap: "rs_inv rows (w_attempts w) ws used \<Longrightarrow> rs_inv rows (w_attempts w') ws used" for rows ws
    using keyed' by (simp add: rs_inv_def)
  note kept0 = polled_kept [OF _ rs_invD(1,2) [OF inv]]
  from assms(1) show ?thesis
  proof (rule confirm_cases)
    assume "polled (db_ops platform i n) ext w w'"
    then show ?thesis
      using rs_inv_kept [OF inv kept0] swap by (auto simp: polled_def same_but_store_def)
  next
    fix w1 w2 b'
    assume p: "polled (db_ops platform i n) ext w w1" "same_but_store w1 w2"
      "w_store w2 = snd (so_take (db_ops platform i n) (w_now w1) token ext user b' (w_store w1)) \<or> w_store w2 = w_store w1"
      "polled (db_ops platform i n) ext w2 w'"
    note k1 = kept0 [OF p(1)]
    then have ok1: "db_ok (w_store w1)" "keyed c_nonce (w_store w1)" by (auto simp: nonces_kept_def)
    have k2: "nonces_kept (w_store w1) (w_store w2)"
      using p(3) nonces_kept_take [OF ok1] nonces_kept_refl [OF ok1] by auto
    then have "db_ok (w_store w2)" "keyed c_nonce (w_store w2)" by (auto simp: nonces_kept_def)
    note k3 = polled_kept [OF p(4) this]
    have "w_writes w' = w_writes w" using p by (auto simp: polled_def same_but_store_def)
    then show ?thesis
      using swap rs_inv_kept [OF inv nonces_kept_trans [OF nonces_kept_trans [OF k1 k2] k3]] by simp
  next
    fix w1 w2 p b'
    assume pre: "polled (db_ops platform i n) ext w w1" "same_but_store w1 w2"
      and take: "so_take (db_ops platform i n) (w_now w1) token ext user b' (w_store w1) = (Some p, w_store w2)"
      and c: "confirm_claimed (db_ops platform i n) opts ext approval p w2 = (res, w')"
    note k1 = kept0 [OF pre(1)]
    then have ok1: "db_ok (w_store w1)" "keyed c_nonce (w_store w1)" by (auto simp: nonces_kept_def)
    have take': "db_take_valid platform (w_now w1) token ext user b' (w_store w1) = (Some p, w_store w2)" using take by simp
    have k2: "nonces_kept (w_store w1) (w_store w2)"
      using nonces_kept_take [OF ok1, of platform "w_now w1" token ext user b'] take' by simp
    then have ok2: "db_ok (w_store w2)" "keyed c_nonce (w_store w2)" by (auto simp: nonces_kept_def)
    obtain m where m: "pr_nonce p = Some m" "m \<in> pending_nonces (w_store w1)" "m \<notin> pending_nonces (w_store w2)"
      "nonces_kept (w_store w1) (db_revert_to_pending platform (w_now w2) ext token (w_store w2))"
      by (rule taken_nonce [OF ok1 take', of "w_now w2"])
    have same: "w_writes w2 = w_writes w" "w_attempts w2 = w_attempts w"
      using pre by (auto simp: polled_def same_but_store_def)
    have drop: "nonces_kept (w_store w2) (db_cancel_claimed platform ext token (w_store w2))"
      using nonces_kept_cancel_claimed [OF ok2] .
    have "pr_lease p = Some token" using db_staging.take_hit [OF ok1(1) take'] by simp
    then have "wrote (db_ops platform i n) opts ext token (Some m) res w2 w' \<or> unwritten (db_ops platform i n) ext token res w2 w'"
      using confirm_claimed_eff [OF c] rs_invD(3) [OF inv] same(2) m(1) by simp
    then show ?thesis
    proof
      assume wr: "wrote (db_ops platform i n) opts ext token (Some m) res w2 w'"
      then have st: "nonces_kept (w_store w2) (w_store w')" "w_writes w' = (ext, Some m) # w_writes w"
        using drop nonces_kept_refl [OF ok2] same(1) by (auto simp: wrote_def)
      have "rs_inv (w_store w') (w_attempts w) ((ext, Some m) # w_writes w) used"
        using rs_inv_write [OF rs_inv_kept [OF inv k1] m(2) nonces_kept_trans [OF k2 st(1)]] m(3) st(1)
        by (auto simp: nonces_kept_def)
      then show ?thesis using swap st(2) by simp
    next
      assume "unwritten (db_ops platform i n) ext token res w2 w'"
      then have "w_writes w' = w_writes w" "nonces_kept (w_store w1) (w_store w')"
        using m(4) k2 nonces_kept_trans [OF k2 drop] same(1) by (auto simp: unwritten_def request_end_def)
      then show ?thesis using swap rs_inv_kept [OF inv nonces_kept_trans [OF k1]] by simp
    qed
  qed
qed

lemma keyed_replace_one:
  assumes "keyed f rows" "keyed g rows" "n \<notin> g ` set rows" "\<And>r. f r = k \<Longrightarrow> g (h r) = n"
  shows "keyed g (sql_update (\<lambda>r. f r = k) h rows)"
  using assms
proof (induction rows)
  case (Cons a rows)
  have rest: "sql_update (\<lambda>r. f r = k) h rows = rows" if "f a = k"
    using Cons.prems(1) that by (auto simp: keyed_Cons sql_update_def intro!: map_idI)
  have "keyed g (sql_update (\<lambda>r. f r = k) h rows)" using Cons by (simp add: keyed_def)
  moreover have "g a \<notin> g ` set (sql_update (\<lambda>r. f r = k) h rows)" if "f a \<noteq> k"
    using Cons.prems by (auto simp: keyed_def set_sql_update)
  moreover have "sql_update (\<lambda>r. f r = k) h (a # rows) =
      (if f a = k then h a # rows else a # sql_update (\<lambda>r. f r = k) h rows)"
    using rest by (simp add: sql_update_def)
  ultimately show ?case
    using Cons.prems by (auto simp: keyed_def)
qed (simp add: sql_update_def)

lemma rs_inv_save:
  assumes inv: "rs_inv rows attempts ws used" and fresh: "m \<notin> used" and nonce: "pr_nonce p = Some m"
  shows "rs_inv (snd (db_save platform i n p rows)) attempts ws (insert m used)"
proof -
  let ?rows' = "snd (db_save platform i n p rows)"
  note ok = rs_invD [OF inv]
  have m: "m \<notin> c_nonce ` set rows" using inv fresh by (auto simp: rs_inv_def)
  have new: "c_nonce (staged_row platform i n p) = m" using nonce by (simp add: staged_row_def or_else_def)
  have kept: "keyed c_nonce ?rows' \<and> c_nonce ` set ?rows' \<subseteq> insert m (c_nonce ` set rows) \<and>
      pending_nonces ?rows' \<subseteq> insert m (pending_nonces rows)"
  proof (rule db_save_cases [of platform p rows i n])
    assume "db_save platform i n p rows = (True, rows @ [staged_row platform i n p])"
    then show ?thesis using ok(2) m new by (auto simp: keyed_def pending_nonces_def)
  next
    fix old
    let ?h = "\<lambda>old. (staged_row platform i n p)\<lparr>c_key := c_key old, c_id := c_id old, c_lease := c_lease old, c_started := c_started old\<rparr>"
    assume "db_save platform i n p rows = (True, snd (update_where c_key (\<lambda>_. True) ?h (db_key platform (pr_external p)) rows))"
    then have eq: "?rows' = sql_update (\<lambda>r. c_key r = db_key platform (pr_external p)) ?h rows" by (simp add: update_where_def)
    have "keyed c_nonce ?rows'"
      unfolding eq using db_okD [OF ok(1)] ok(2) m new by (intro keyed_replace_one [where n = m]) auto
    then show ?thesis using new unfolding eq by (auto simp: set_sql_update pending_nonces_def)
  next
    assume "db_save platform i n p rows = (False, rows)"
    then show ?thesis using ok(2) by auto
  qed
  have "db_ok ?rows'" using db_save_contract [OF ok(1)] by blast
  moreover have "c_nonce ` set ?rows' \<subseteq> insert m used" using kept inv by (auto simp: rs_inv_def)
  moreover have "writes_under q ws \<le> 1" for q using inv by (simp add: rs_inv_def)
  moreover have "q \<in> insert m used \<and> q \<notin> pending_nonces ?rows'" if "0 < writes_under q ws" for q
  proof -
    have "q \<in> used" "q \<notin> pending_nonces rows" using inv that by (auto simp: rs_inv_def)
    then show ?thesis using kept fresh by auto
  qed
  ultimately show ?thesis using kept ok(3) by (simp add: rs_inv_def)
qed

lemma rs_inv_mono: "rs_inv rows attempts ws used \<Longrightarrow> rs_inv rows attempts ws (insert m used)"
  unfolding rs_inv_def by blast

lemma cancel_pending_once_eff:
  assumes "cancel_pending_once (db_ops platform i n) ext nonce w = (res, w')" "db_ok (w_store w)" "keyed c_nonce (w_store w)"
  shows "same_but_store w w' \<and> nonces_kept (w_store w) (w_store w')"
  using assms(1) unfolding cancel_pending_once_def
  by (rule rcall_cases)
    (use nonces_kept_cancel_pending [OF assms(2,3), of platform ext nonce] nonces_kept_refl [OF assms(2,3)] in
      \<open>auto simp: same_but_store_def on_store_def case_prod_unfold\<close>)

lemma rs_inv_store_step:
  "rs_inv (w_store w) (w_attempts w) (w_writes w) used \<Longrightarrow> same_but_store w w' \<Longrightarrow> nonces_kept (w_store w) (w_store w') \<Longrightarrow>
   rs_inv (w_store w') (w_attempts w') (w_writes w') used"
  using rs_inv_kept by (auto simp: same_but_store_def)

lemma rs_inv_cancel_once:
  "rs_inv (w_store w) (w_attempts w) (w_writes w) used \<Longrightarrow> cancel_pending_once (db_ops platform i n) ext nonce w = (res, w') \<Longrightarrow>
   rs_inv (w_store w') (w_attempts w') (w_writes w') used"
  using cancel_pending_once_eff rs_inv_store_step rs_invD by meson

lemma rs_inv_cancel_pending:
  assumes "rs_inv (w_store w) (w_attempts w) (w_writes w) used" and w': "w' = cancel_pending (db_ops platform i n) ext nonce w"
  shows "rs_inv (w_store w') (w_attempts w') (w_writes w') used"
proof -
  obtain res w1 where first: "cancel_pending_once (db_ops platform i n) ext nonce w = (res, w1)" by force
  obtain res2 w2 where again: "cancel_pending_once (db_ops platform i n) ext nonce w1 = (res2, w2)" by force
  note inv1 = rs_inv_cancel_once [OF assms(1) first]
  show ?thesis
    using first again inv1 rs_inv_cancel_once [OF inv1 again] by (cases res) (simp_all add: w' cancel_pending_def)
qed

lemma rs_inv_cancel_for_user:
  assumes "cancel_for_user (db_ops platform i n) ext approval w = (res, w')"
    and inv: "rs_inv (w_store w) (w_attempts w) (w_writes w) used"
  shows "rs_inv (w_store w') (w_attempts w') (w_writes w') used"
proof (cases "w' = w")
  case False
  obtain st w1 where first: "get_pending_state (db_ops platform i n) ext w = (st, w1)" by force
  then have "same_but_store w w1 \<and> nonces_kept (w_store w) (w_store w1)"
    using get_pending_state_eff [OF first] nonces_kept_state nonces_kept_refl rs_invD [OF inv] by auto
  then have "rs_inv (w_store w1) (w_attempts w1) (w_writes w1) used" using rs_inv_store_step [OF inv] by blast
  then show ?thesis
    using assms(1) False first rs_inv_cancel_once
    by (auto simp: cancel_for_user_def bind_r_def return_r_def split: if_splits sum.splits)
qed (use inv in simp)

lemma rs_inv_stage:
  assumes "stage (db_ops platform i n) sha256 args_json aborted nonce listing inp w = (res, w')" "nonce \<notin> used"
    and inv: "rs_inv (w_store w) (w_attempts w) (w_writes w) used"
  shows "rs_inv (w_store w') (w_attempts w') (w_writes w') (insert nonce used)"
proof (cases "w' = w")
  case False
  have "\<exists>entry r w1. rcall (on_store (db_save platform i n (staged_record sha256 args_json nonce (w_now w) inp entry))) w = (r, w1) \<and>
      w' = (if aborted 3 then cancel_pending (db_ops platform i n) (si_external inp) (Some nonce) w1 else w1)"
    using assms(1) False by (fastforce simp: stage_def split: if_splits sum.splits option.splits prod.splits)
  then obtain entry r w1 where call: "rcall (on_store (db_save platform i n (staged_record sha256 args_json nonce (w_now w) inp entry))) w = (r, w1)"
    and w': "w' = (if aborted 3 then cancel_pending (db_ops platform i n) (si_external inp) (Some nonce) w1 else w1)"
    by blast
  let ?p = "staged_record sha256 args_json nonce (w_now w) inp entry"
  have "w_store w1 = w_store w \<or> w_store w1 = snd (db_save platform i n ?p (w_store w))"
    "w_attempts w1 = w_attempts w" "w_writes w1 = w_writes w"
    using call by (auto simp: rcall_def on_store_def split: list.splits db_reply.splits prod.splits)
  then have inv1: "rs_inv (w_store w1) (w_attempts w1) (w_writes w1) (insert nonce used)"
    using rs_inv_save [OF inv assms(2), of ?p] rs_inv_mono [OF inv] by (auto simp: staged_record_def)
  show ?thesis using w' call inv1 rs_inv_cancel_pending [OF inv1 refl] by simp
qed (use rs_inv_mono [OF inv] in simp)

lemma rs_reach_inv: "rs_reach platform opts w used \<Longrightarrow> rs_inv (w_store w) (w_attempts w) (w_writes w) used"
proof (induction rule: rs_reach.induct)
  case (rs_init rs t)
  then show ?case by (simp add: rs_inv_def db_ok_def writes_under_def)
next
  case (rs_stage w used nonce i n sha256 args_json aborted listing inp sres w')
  then show ?case using rs_inv_stage by blast
next
  case (rs_confirm w used i n token ext user approval b res w')
  then show ?case using rs_inv_confirm by blast
next
  case (rs_cancel w used i n ext approval cres w')
  then show ?case using rs_inv_cancel_for_user by blast
next
  case (rs_delivery w used ext nonce outcome)
  then show ?case
    using keyed_apply_notification by (auto simp: record_confirmation_delivery_def rs_inv_def)
next
  case (rs_time w used rs t)
  then show ?case by simp
qed


section \<open>The recovery cron on the stored keys\<close>

lemma lookup_attempt_miss:
  assumes "w_replies w = []" "\<And>a. a \<in> set (w_attempts w) \<Longrightarrow> at_ext a \<noteq> ext"
  shows "lookup_attempt opts ext nonce w = (Inr None, w)"
proof -
  have "find_attempt (ro_platform opts) ext nonce (w_attempts w) = None"
    using assms(2) by (auto simp: find_attempt_def find_None_iff at_key_def)
  then show ?thesis using assms(1) by (simp add: lookup_attempt_def rcall_def return_r_def)
qed

lemma recover_rows_miss:
  assumes "w_replies w = []" "\<And>row a. row \<in> set rows \<Longrightarrow> a \<in> set (w_attempts w) \<Longrightarrow> at_ext a \<noteq> fst (snd row)"
  shows "recover_rows opts rows w =
    (Inr (), w\<lparr>w_store := fold (\<lambda>row. revert_stale_row (w_now w) (fst row)) rows (w_store w)\<rparr>)"
  using assms
proof (induction rows arbitrary: w)
  case (Cons row rows)
  obtain i ext nonce where row: "row = (i, ext, nonce)" by (cases row) auto
  let ?w = "w\<lparr>w_store := revert_stale_row (w_now w) i (w_store w)\<rparr>"
  have "lookup_attempt opts ext nonce w = (Inr None, w)"
    using Cons.prems(2) [of row] by (intro lookup_attempt_miss Cons.prems(1)) (simp add: row)
  then have "recover_row opts row w = (Inr (), ?w)"
    using Cons.prems(1) by (simp add: recover_row_def row rcall_def on_store_unit_def return_r_def)
  moreover have "recover_rows opts rows ?w =
      (Inr (), ?w\<lparr>w_store := fold (\<lambda>row. revert_stale_row (w_now ?w) (fst row)) rows (w_store ?w)\<rparr>)"
    using Cons.prems by (intro Cons.IH) simp_all
  ultimately show ?case by (simp add: bind_r_def row)
qed (simp add: return_r_def)

abbreviation rearmed :: "millis \<Rightarrow> conf_row \<Rightarrow> conf_row" where
  "rearmed now r \<equiv> r\<lparr>c_status := C_Pending, c_lease := None, c_started := None, c_expires := now + 10 * 60 * 1000\<rparr>"

lemma revert_stale_row_eq:
  "revert_stale_row now i rows = sql_update (\<lambda>r. c_id r = i \<and> c_status r = C_Processing) (rearmed now) rows"
  by (simp add: revert_stale_row_def update_where_def)

lemma rearmed_stays: "rearmed now r \<in> set rows \<Longrightarrow> rearmed now r \<in> set (fold (\<lambda>row. revert_stale_row now (fst row)) stale rows)"
  by (induction stale arbitrary: rows) (auto simp: revert_stale_row_eq set_sql_update)

lemma revert_all_rearms:
  assumes "r \<in> set rows" "c_status r = C_Processing" "c_id r \<in> fst ` set stale"
  shows "rearmed now r \<in> set (fold (\<lambda>row. revert_stale_row now (fst row)) stale rows)"
  using assms
proof (induction stale arbitrary: rows)
  case (Cons row stale)
  show ?case
  proof (cases "c_id r = fst row")
    case True
    then have "rearmed now r \<in> set (revert_stale_row now (fst row) rows)"
      using Cons.prems by (auto simp: revert_stale_row_eq set_sql_update)
    then show ?thesis using rearmed_stays by simp
  next
    case False
    then have "r \<in> set (revert_stale_row now (fst row) rows)"
      using Cons.prems by (auto simp: revert_stale_row_eq set_sql_update)
    then show ?thesis using Cons.IH Cons.prems False by auto
  qed
qed simp

lemma replay_deferred_store: "w_store (replay_deferred opts deliver now due w) = w_store w"
  by (induction due arbitrary: w) (simp_all split: option.splits)

lemma replay_store: "w_store (replay_deferred_confirmations opts notification limit w) = w_store w"
  by (simp add: replay_deferred_confirmations_def replay_deferred_store split: option.splits)

text \<open>The recovery cron re-arms every stale request it lists, also one whose calendar write is on
  record as made or as possibly made. The listing returns the storage key (\<open>platform:id\<close>) while the
  attempts are recorded under the plain external id, so when no external id contains a colon the
  lookup that should prevent it never finds a record.\<close>

theorem recovery_rearms_every_stale_row:
  assumes "run_recovery opts notification limit w = (res, w')" "w_replies w = []"
    and keys: "\<And>r. r \<in> set (w_store w) \<Longrightarrow> CHR '':'' \<in> set (c_key r)"
    and ids: "\<And>a. a \<in> set (w_attempts w) \<Longrightarrow> CHR '':'' \<notin> set (at_ext a)"
    and stale: "(i, key, nonce) \<in> set (list_stale_processing (w_now w) stale_after_ms (w_store w))"
  shows "res = Inr () \<and>
    (\<exists>r\<in>set (w_store w'). c_id r = i \<and> c_key r = key \<and> c_nonce r = nonce \<and> c_status r = C_Pending \<and>
       c_expires r = w_now w + 600000)"
proof -
  let ?stale = "list_stale_processing (w_now w) stale_after_ms (w_store w)"
  have listed: "\<exists>r\<in>set (w_store w). c_status r = C_Processing \<and> row = (c_id r, c_key r, c_nonce r)" if "row \<in> set ?stale" for row
    using that by (auto simp: list_stale_processing_def dest!: in_set_takeD)
  have "at_ext a \<noteq> fst (snd row)" if "row \<in> set ?stale" "a \<in> set (w_attempts w)" for row a
    using listed [OF that(1)] keys ids [OF that(2)] by auto
  then have all: "recover_rows opts ?stale w =
      (Inr (), w\<lparr>w_store := fold (\<lambda>row. revert_stale_row (w_now w) (fst row)) ?stale (w_store w)\<rparr>)"
    by (intro recover_rows_miss [OF assms(2)]) blast
  have id: "w\<lparr>w_replies := []\<rparr> = w" using assms(2) by (cases w) simp
  obtain r where r: "r \<in> set (w_store w)" "c_status r = C_Processing" "i = c_id r" "key = c_key r" "nonce = c_nonce r"
    using listed [OF stale] by auto
  have w': "res = Inr ()" "w_store w' = fold (\<lambda>row. revert_stale_row (w_now w) (fst row)) ?stale (w_store w)"
    using assms(1) all id by (auto simp: run_recovery_def bind_r_def rcall_def assms(2) replay_store)
  have "c_id r \<in> fst ` set ?stale" using stale r(3) by force
  then have "rearmed (w_now w) r \<in> set (w_store w')"
    unfolding w'(2) by (rule revert_all_rearms [OF r(1,2)])
  then show ?thesis using w'(1) r(3-5) by (intro conjI bexI [of _ "rearmed (w_now w) r"]) simp_all
qed

section \<open>A concrete run\<close>

definition sample_token :: string where
  "sample_token = ''11111111-1111-4111-8111-111111111111''"

definition sample_options :: "conf_table reschedule_options" where
  "sample_options = \<lparr>ro_platform = ''zalo'', ro_attempts = True, ro_consume = None, ro_refund = False,
     ro_write = (\<lambda>_ _. Write_Ok ''tue'')\<rparr>"

definition sample_start :: "conf_table rworld" where
  "sample_start = \<lparr>w_store = [], w_attempts = [], w_writes = [], w_budget = 0, w_replies = [], w_now = 0\<rparr>"

definition sample_stage :: "(string + stage_result) \<times> conf_table rworld" where
  "sample_stage =
     stage (db_ops ''zalo'' 1 ''x'') (\<lambda>s. ''h'') (\<lambda>_. ''{}'') (\<lambda>_. False) sample_token
       (Inr [\<lparr>ce_calendar = 3, ce_label = ''mon'', ce_owner = Some 7\<rparr>])
       \<lparr>si_external = ''u'', si_user = 7, si_calendar = 3, si_mode = Default_Next_Day_Same_Time, si_new_date = None,
        si_new_time = None, si_platform = Some ''zalo'', si_mapping = Some ''v1'', si_intent = Some ''move'', si_args = Some ''a''\<rparr>
       sample_start"

text \<open>The confirmation writes the calendar; only its last call, the cleanup of the staged row, is refused.\<close>

definition sample_confirm :: "string \<Rightarrow> conf_table rworld \<Rightarrow> (string + confirm_result) \<times> conf_table rworld" where
  "sample_confirm lease =
     confirm (db_ops ''zalo'' 1 ''x'') sample_options lease ''u'' (Some 7) (Some sample_token) (free_binding sample_token)"

definition sample_first :: "(string + confirm_result) \<times> conf_table rworld" where
  "sample_first = sample_confirm ''t1''
     ((snd sample_stage)\<lparr>w_replies := [Replied, Replied, Replied, Replied, Replied, Refused], w_now := 5\<rparr>)"

definition sample_recovered :: "conf_table rworld" where
  "sample_recovered = snd (run_recovery sample_options None 10 ((snd sample_first)\<lparr>w_now := 400000\<rparr>))"

definition sample_second :: "(string + confirm_result) \<times> conf_table rworld" where
  "sample_second = sample_confirm ''t2'' (sample_recovered\<lparr>w_now := 400001\<rparr>)"

lemma sample_first_result: "fst sample_first = Inr (Confirmed ''tue'' False)"
  by code_simp

lemma sample_stage_reach: "rs_reach ''zalo'' sample_options (snd sample_stage) {sample_token}"
proof -
  have "rs_reach ''zalo'' sample_options sample_start {}" unfolding sample_start_def by (rule rs_init)
  then show ?thesis
    unfolding sample_stage_def by (rule rs_stage [OF _ _ prod.collapse [symmetric]]) simp
qed

lemma sample_stage_ok: "db_ok (w_store (snd sample_stage)) \<and> keyed at_key (w_attempts (snd sample_stage))"
  using rs_reach_inv [OF sample_stage_reach] rs_invD by blast



theorem recovery_rearms_every_stale_row_witness:
  "\<exists>r\<in>set (w_store sample_recovered). c_nonce r = sample_token \<and> c_status r = C_Pending"
proof -
  let ?w = "(snd sample_first)\<lparr>w_now := 400000\<rparr>"
  have stale: "list_stale_processing (w_now ?w) stale_after_ms (w_store ?w) = [(1, ''zalo:u'', sample_token)]"
    "map c_key (w_store ?w) = [''zalo:u'']" "map at_ext (w_attempts ?w) = [''u'']" "w_replies ?w = []"
    by code_simp+
  obtain res w' where run: "run_recovery sample_options None 10 ?w = (res, w')" by force
  have "CHR '':'' \<in> set (c_key r)" if "r \<in> set (w_store ?w)" for r
  proof -
    have "c_key r \<in> set (map c_key (w_store ?w))" using that by simp
    then show ?thesis unfolding stale(2) by auto
  qed
  moreover have "CHR '':'' \<notin> set (at_ext a)" if "a \<in> set (w_attempts ?w)" for a
  proof -
    have "at_ext a \<in> set (map at_ext (w_attempts ?w))" using that by simp
    then show ?thesis unfolding stale(3) by auto
  qed
  ultimately show ?thesis
    using recovery_rearms_every_stale_row [OF run stale(4), of 1 "''zalo:u''" sample_token] stale(1) run
    by (auto simp: sample_recovered_def)
qed

text \<open>C27: A learner's calendar is written twice under one approval token when the recovery cron runs
  between two confirmations: the first confirmation writes and answers \<open>confirmed\<close> but its cleanup of
  the staged row fails, the recovery re-arms the row in spite of the confirmed attempt record, and
  the second confirmation, which only looks for an unfinished attempt, writes again.\<close>

theorem recovery_double_write:
  "fst sample_first = Inr (Confirmed ''tue'' False) \<and> fst sample_second = Inr (Confirmed ''tue'' False) \<and>
   writes_under sample_token (w_writes (snd sample_second)) = 2"
proof -
  have "fst sample_second = Inr (Confirmed ''tue'' False)" by code_simp
  moreover have "writes_under sample_token (w_writes (snd sample_second)) = 2" by code_simp
  ultimately show ?thesis using sample_first_result by simp
qed

section \<open>Replaying deferred confirmations\<close>

lemma apply_outcome_other:
  assumes "a \<in> set rows" "at_key a \<noteq> (platform, ext, nonce)"
  shows "a \<in> set (apply_notification_outcome platform ext nonce outcome now rows)"
  using assms by (auto simp: apply_notification_outcome_def bump_notification_def set_sql_update split: option.splits)

lemma apply_outcome_abandons:
  assumes "b \<in> set (apply_notification_outcome platform ext nonce outcome now rows)" "at_notif b = N_Abandoned"
    and "\<And>a. find_attempt platform ext nonce rows = Some a \<Longrightarrow> at_tries a < max_notification_attempts"
  shows "b \<in> set rows"
  using assms
  by (auto simp: apply_notification_outcome_def bump_notification_def set_sql_update split: option.splits if_splits)

lemma set_insert_due: "set (insert_due a xs) = insert a (set xs)"
  by (induction a xs rule: insert_due.induct) auto

lemma set_foldr_insert_due: "set (foldr insert_due xs []) = set xs"
  by (induction xs) (auto simp: set_insert_due)

lemma list_due_in:
  assumes "a \<in> set (list_due_notification_attempts platform limit now rows)"
  shows "a \<in> set rows" "at_platform a = platform" "at_status a = At_Confirmed" "notification_is_due now a"
proof -
  have "a \<in> set (foldr insert_due (filter (\<lambda>a. at_platform a = platform \<and> at_status a = At_Confirmed \<and> notification_is_due now a) rows) [])"
    using assms by (auto simp: list_due_notification_attempts_def dest: in_set_takeD)
  then show "a \<in> set rows" "at_platform a = platform" "at_status a = At_Confirmed" "notification_is_due now a"
    by (auto simp: set_foldr_insert_due)
qed

lemma distinct_insert_due: "distinct (map g (insert_due a xs)) \<longleftrightarrow> distinct (map g (a # xs))"
  by (induction a xs rule: insert_due.induct) (auto simp: set_insert_due)

lemma list_due_keyed: "keyed at_key rows \<Longrightarrow> keyed at_key (list_due_notification_attempts platform limit now rows)"
proof -
  assume keyed: "keyed at_key rows"
  have "distinct (map at_key (foldr insert_due xs []))" if "distinct (map at_key xs)" for xs
    using that by (induction xs) (auto simp: distinct_insert_due set_foldr_insert_due)
  moreover have "distinct (map at_key (filter (\<lambda>a. at_platform a = platform \<and> at_status a = At_Confirmed \<and> notification_is_due now a) rows))"
    using keyed by (simp add: keyed_def distinct_map_filter)
  ultimately show ?thesis
    by (simp add: list_due_notification_attempts_def keyed_def distinct_map_filter take_map [symmetric] distinct_take)
qed

text \<open>Every record still to be replayed is in the table, as it was listed.\<close>

definition to_replay :: "'s reschedule_options \<Rightarrow> attempt list \<Rightarrow> attempt list \<Rightarrow> bool" where
  "to_replay opts due rows \<longleftrightarrow> keyed at_key due \<and> keyed at_key rows \<and>
     (\<forall>a\<in>set due. a \<in> set rows \<and> at_platform a = ro_platform opts \<and> at_tries a < max_notification_attempts)"

lemma to_replay_Cons:
  assumes "to_replay opts (a # due) rows"
  shows "to_replay opts due rows" "at_key a = (ro_platform opts, at_ext a, at_nonce a)"
    "find_attempt (ro_platform opts) (at_ext a) (at_nonce a) rows = Some a" "at_tries a < max_notification_attempts"
    "to_replay opts due (apply_notification_outcome (ro_platform opts) (at_ext a) (at_nonce a) outcome now rows)"
proof -
  show key: "at_key a = (ro_platform opts, at_ext a, at_nonce a)" using assms by (simp add: to_replay_def at_key_def)
  show "to_replay opts due rows" "at_tries a < max_notification_attempts"
    using assms by (simp_all add: to_replay_def keyed_Cons)
  show "find_attempt (ro_platform opts) (at_ext a) (at_nonce a) rows = Some a"
    using assms key by (simp add: find_attempt_def to_replay_def find_keyed)
  show "to_replay opts due (apply_notification_outcome (ro_platform opts) (at_ext a) (at_nonce a) outcome now rows)"
    using assms key apply_outcome_other [of _ rows "ro_platform opts" "at_ext a" "at_nonce a" outcome now] keyed_apply_notification
    by (auto simp: to_replay_def keyed_Cons)
qed

lemma replay_deferred_abandons:
  assumes "to_replay opts due (w_attempts w)" "b \<in> set (w_attempts (replay_deferred opts deliver now due w))" "at_notif b = N_Abandoned"
  shows "b \<in> set (w_attempts w)"
  using assms(1,2)
proof (induction due arbitrary: w)
  case (Cons a due)
  show ?case
  proof (cases "deliver a")
    case None
    then show ?thesis using Cons to_replay_Cons(1) [OF Cons.prems(1)] by simp
  next
    case (Some outcome)
    let ?rows = "apply_notification_outcome (ro_platform opts) (at_ext a) (at_nonce a) outcome now (w_attempts w)"
    have "b \<in> set ?rows"
      using Cons.IH [of "w\<lparr>w_attempts := ?rows\<rparr>"] to_replay_Cons(5) [OF Cons.prems(1)] Cons.prems(2) Some by simp
    then show ?thesis
      by (rule apply_outcome_abandons [OF _ assms(3)]) (use to_replay_Cons(3,4) [OF Cons.prems(1)] in simp)
  qed
qed simp

lemma replay_deferred_others:
  assumes "to_replay opts due (w_attempts w)" "c \<in> set (w_attempts w)" "at_key c \<notin> at_key ` set due"
  shows "c \<in> set (w_attempts (replay_deferred opts deliver now due w))"
  using assms
proof (induction due arbitrary: w)
  case (Cons a due)
  show ?case
  proof (cases "deliver a")
    case None
    then show ?thesis using Cons to_replay_Cons(1) [OF Cons.prems(1)] by simp
  next
    case (Some outcome)
    let ?rows = "apply_notification_outcome (ro_platform opts) (at_ext a) (at_nonce a) outcome now (w_attempts w)"
    have "c \<in> set ?rows"
      using apply_outcome_other [OF Cons.prems(2)] to_replay_Cons(2) [OF Cons.prems(1)] Cons.prems(3) by force
    then show ?thesis
      using Cons.IH [of "w\<lparr>w_attempts := ?rows\<rparr>"] to_replay_Cons(5) [OF Cons.prems(1)] Cons.prems(3) Some by simp
  qed
qed simp

lemma list_due_to_replay:
  assumes "keyed at_key rows"
  shows "to_replay opts (list_due_notification_attempts (ro_platform opts) limit now rows) rows"
  using assms list_due_keyed [OF assms] list_due_in [of _ "ro_platform opts" limit now rows]
  by (auto simp: to_replay_def notification_is_due_def)

text \<open>The replay of deferred confirmations never abandons a record: a record is only replayed
  while its counter is below the limit, the limit check that abandons it needs the counter at the
  limit, and a deferred record that has reached the limit is left as it is for good.\<close>

theorem replay_never_abandons:
  assumes "keyed at_key (w_attempts w)"
  shows "(\<forall>b. b \<in> set (w_attempts (replay_deferred_confirmations opts notification limit w)) \<and> at_notif b = N_Abandoned \<longrightarrow>
            b \<in> set (w_attempts w)) \<and>
         (\<forall>c. c \<in> set (w_attempts w) \<and> at_notif c = N_Deferred \<and> at_tries c \<ge> max_notification_attempts \<longrightarrow>
            c \<in> set (w_attempts (replay_deferred_confirmations opts notification limit w)))"
proof (cases notification)
  case (Some deliver)
  let ?due = "list_due_notification_attempts (ro_platform opts) limit (w_now w) (w_attempts w)"
  note due = list_due_to_replay [OF assms, of opts limit "w_now w"]
  have "at_key c \<notin> at_key ` set ?due"
    if c: "c \<in> set (w_attempts w)" "at_tries c \<ge> max_notification_attempts" for c
  proof
    assume "at_key c \<in> at_key ` set ?due"
    then obtain d where d: "d \<in> set ?due" "at_key c = at_key d" by blast
    then have "c = d" using keyed_unique [OF assms c(1) list_due_in(1) [OF d(1)]] by blast
    then show False using list_due_in(4) [OF d(1)] c(2) by (simp add: notification_is_due_def)
  qed
  note kept = replay_deferred_others [OF due _ this]
  show ?thesis
  proof (cases "ro_attempts opts")
    case True
    then have eq: "replay_deferred_confirmations opts notification limit w = replay_deferred opts deliver (w_now w) ?due w"
      by (simp add: replay_deferred_confirmations_def Some)
    show ?thesis unfolding eq using kept replay_deferred_abandons [OF due] by blast
  qed (simp add: replay_deferred_confirmations_def Some)
qed (simp add: replay_deferred_confirmations_def)

definition exhausted_attempt :: attempt where
  "exhausted_attempt = (new_attempt ''zalo'' ''u'' ''n1'' 7)\<lparr>at_status := At_Confirmed, at_notif := N_Deferred, at_tries := 5\<rparr>"

theorem replay_never_abandons_witness:
  "exhausted_attempt \<in> set (w_attempts
     (replay_deferred_confirmations sample_options (Some (\<lambda>_. Some Sent)) 10 (sample_start\<lparr>w_attempts := [exhausted_attempt]\<rparr>)))"
  using replay_never_abandons [of "sample_start\<lparr>w_attempts := [exhausted_attempt]\<rparr>" sample_options "Some (\<lambda>_. Some Sent)" 10]
  by (simp add: keyed_def exhausted_attempt_def max_notification_attempts_def)

end
