(* ===== verification/Db_Calls.thy ===== *)
theory Db_Calls
  imports Bot_Prelude
begin

text \<open>
  Asynchronous code over a database that may fail: a computation takes a world and returns a
  result or an exception with the new world. Every statement of the code is an \<open>ask\<close>, which is
  answered, refused, or carried out with its reply lost, as the schedule \<open>n_replies\<close> of the world
  says. \<open>await\<close> chains, \<open>try .. catch\<close> is \<open>catch_c\<close>, and \<open>hoare\<close> is the partial-correctness triple
  with one postcondition for the normal and one for the exceptional result.
\<close>

record net =
  n_replies :: "db_reply list"

type_synonym ('w, 'a) comp = "'w \<Rightarrow> (string + 'a) \<times> 'w"

definition ask :: "('z net_scheme \<Rightarrow> 'a \<times> 'z net_scheme) \<Rightarrow> ('z net_scheme, 'a) comp" where
  "ask f w =
     (case n_replies w of
        Refused # rs \<Rightarrow> (Inl ''refused'', w\<lparr>n_replies := rs\<rparr>)
      | Reply_Lost # rs \<Rightarrow> (Inl ''lost'', snd (f (w\<lparr>n_replies := rs\<rparr>)))
      | Replied # rs \<Rightarrow> (case f (w\<lparr>n_replies := rs\<rparr>) of (a, w') \<Rightarrow> (Inr a, w'))
      | [] \<Rightarrow> (case f w of (a, w') \<Rightarrow> (Inr a, w')))"

definition bind_c :: "('w, 'a) comp \<Rightarrow> ('a \<Rightarrow> ('w, 'b) comp) \<Rightarrow> ('w, 'b) comp" where
  "bind_c m k w = (case m w of (Inl e, w1) \<Rightarrow> (Inl e, w1) | (Inr a, w1) \<Rightarrow> k a w1)"

definition return_c :: "'a \<Rightarrow> ('w, 'a) comp" where
  "return_c a w = (Inr a, w)"

definition throw_c :: "string \<Rightarrow> ('w, 'a) comp" where
  "throw_c e w = (Inl e, w)"

definition catch_c :: "('w, 'a) comp \<Rightarrow> (string \<Rightarrow> ('w, 'a) comp) \<Rightarrow> ('w, 'a) comp" where
  "catch_c m h w = (case m w of (Inl e, w1) \<Rightarrow> h e w1 | (Inr a, w1) \<Rightarrow> (Inr a, w1))"

text \<open>A local state change that cannot fail.\<close>

definition local_c :: "('w \<Rightarrow> 'w) \<Rightarrow> ('w, unit) comp" where
  "local_c f w = (Inr (), f w)"

text \<open>The world of the moment, read without a call.\<close>

definition get_c :: "('w \<Rightarrow> ('w, 'a) comp) \<Rightarrow> ('w, 'a) comp" where
  "get_c k w = k w w"

lemmas comp_defs = ask_def bind_c_def return_c_def throw_c_def catch_c_def local_c_def get_c_def

section \<open>Triples\<close>

definition hoare :: "('w \<Rightarrow> bool) \<Rightarrow> ('w, 'a) comp \<Rightarrow> ('a \<Rightarrow> 'w \<Rightarrow> bool) \<Rightarrow> (string \<Rightarrow> 'w \<Rightarrow> bool) \<Rightarrow> bool" where
  "hoare P m Q E \<longleftrightarrow> (\<forall>w. P w \<longrightarrow> (case m w of (Inl e, w') \<Rightarrow> E e w' | (Inr a, w') \<Rightarrow> Q a w'))"

lemma hoareI: "(\<And>w. P w \<Longrightarrow> (case m w of (Inl e, w') \<Rightarrow> E e w' | (Inr a, w') \<Rightarrow> Q a w')) \<Longrightarrow> hoare P m Q E"
  by (simp add: hoare_def)

lemma hoareD: "hoare P m Q E \<Longrightarrow> P w \<Longrightarrow> m w = (res, w') \<Longrightarrow> (case res of Inl e \<Rightarrow> E e w' | Inr a \<Rightarrow> Q a w')"
  by (force simp: hoare_def split: sum.splits)

lemma hoare_conseq:
  "hoare P m Q E \<Longrightarrow> (\<And>w. P' w \<Longrightarrow> P w) \<Longrightarrow> (\<And>a w. Q a w \<Longrightarrow> Q' a w) \<Longrightarrow> (\<And>e w. E e w \<Longrightarrow> E' e w) \<Longrightarrow> hoare P' m Q' E'"
  unfolding hoare_def by (fastforce split: sum.splits prod.splits)

lemma hoare_pre: "hoare P m Q E \<Longrightarrow> (\<And>w. P' w \<Longrightarrow> P w) \<Longrightarrow> hoare P' m Q E"
  by (rule hoare_conseq)

lemma hoare_return: "(\<And>w. P w \<Longrightarrow> Q a w) \<Longrightarrow> hoare P (return_c a) Q E"
  by (simp add: hoare_def return_c_def)

lemma hoare_throw: "(\<And>w. P w \<Longrightarrow> E e w) \<Longrightarrow> hoare P (throw_c e) Q E"
  by (simp add: hoare_def throw_c_def)

lemma hoare_local: "(\<And>w. P w \<Longrightarrow> Q () (f w)) \<Longrightarrow> hoare P (local_c f) Q E"
  by (simp add: hoare_def local_c_def)

lemma hoare_get: "(\<And>w0. hoare (\<lambda>w. P w \<and> w = w0) (k w0) Q E) \<Longrightarrow> hoare P (get_c k) Q E"
  by (auto simp: hoare_def get_c_def)

lemma hoare_bind: "hoare P m R E \<Longrightarrow> (\<And>a. hoare (R a) (k a) Q E) \<Longrightarrow> hoare P (bind_c m k) Q E"
  unfolding hoare_def bind_c_def by (fastforce split: sum.splits prod.splits)

lemma hoare_catch: "hoare P m Q R \<Longrightarrow> (\<And>e. hoare (R e) (h e) Q E) \<Longrightarrow> hoare P (catch_c m h) Q E"
  unfolding hoare_def catch_c_def by (fastforce split: sum.splits prod.splits)

lemma hoare_if: "(b \<Longrightarrow> hoare P m Q E) \<Longrightarrow> (\<not> b \<Longrightarrow> hoare P m' Q E) \<Longrightarrow> hoare P (if b then m else m') Q E"
  by simp

text \<open>A call either does nothing and throws, or has its effect and answers or throws.\<close>

lemma hoare_ask:
  assumes "\<And>w rs e. P w \<Longrightarrow> Refused \<in> set (n_replies w) \<Longrightarrow> E e (w\<lparr>n_replies := rs\<rparr>)"
    and "\<And>w rs e. P w \<Longrightarrow> set rs \<subseteq> set (n_replies w) \<Longrightarrow> E e (snd (f (w\<lparr>n_replies := rs\<rparr>)))"
    and "\<And>w rs. P w \<Longrightarrow> set rs \<subseteq> set (n_replies w) \<Longrightarrow>
      Q (fst (f (w\<lparr>n_replies := rs\<rparr>))) (snd (f (w\<lparr>n_replies := rs\<rparr>)))"
  shows "hoare P (ask f) Q E"
proof (rule hoareI)
  fix w assume P: "P w"
  show "case ask f w of (Inl e, w') \<Rightarrow> E e w' | (Inr a, w') \<Rightarrow> Q a w'"
  proof (cases "n_replies w")
    case Nil
    then have "w\<lparr>n_replies := []\<rparr> = w" by (cases w) simp
    then have "Q (fst (f w)) (snd (f w))" using assms(3) [OF P, of "[]"] by simp
    then show ?thesis using Nil by (simp add: ask_def case_prod_unfold)
  next
    case (Cons r rs)
    then have sub: "set rs \<subseteq> set (n_replies w)" by auto
    show ?thesis
    proof (cases r)
      case Refused
      then show ?thesis using assms(1) [OF P] Cons by (simp add: ask_def)
    next
      case Reply_Lost
      then show ?thesis using assms(2) [OF P sub] Cons by (simp add: ask_def)
    next
      case Replied
      then show ?thesis using assms(3) [OF P sub] Cons by (simp add: ask_def case_prod_unfold)
    qed
  qed
qed

lemma hoare_conj:
  "hoare P m Q E \<Longrightarrow> hoare P' m Q' E' \<Longrightarrow> hoare (\<lambda>w. P w \<and> P' w) m (\<lambda>a w. Q a w \<and> Q' a w) (\<lambda>e w. E e w \<and> E' e w)"
  unfolding hoare_def by (fastforce split: sum.splits prod.splits)

lemma hoare_any: "hoare P m (\<lambda>_ _. True) (\<lambda>_ _. True)"
  by (auto simp: hoare_def split: sum.splits)

text \<open>An assertion about the data only, kept by a call whose statement keeps it.\<close>

lemma hoare_ask_inv:
  assumes "\<And>w rs. I (w\<lparr>n_replies := rs\<rparr>) = I w" "\<And>w. I w \<Longrightarrow> I (snd (f w))"
  shows "hoare I (ask f) (\<lambda>_. I) (\<lambda>_. I)"
  by (rule hoare_ask) (use assms in auto)

section \<open>Invariants of computations\<close>

definition keeps :: "('w \<Rightarrow> bool) \<Rightarrow> ('w, 'a) comp \<Rightarrow> bool" where
  "keeps I m \<longleftrightarrow> hoare I m (\<lambda>_. I) (\<lambda>_. I)"

lemma keepsD: "keeps I m \<Longrightarrow> I w \<Longrightarrow> m w = (res, w') \<Longrightarrow> I w'"
  unfolding keeps_def by (drule (2) hoareD) (simp split: sum.splits)

lemma keeps_return: "keeps I (return_c a)"
  unfolding keeps_def by (rule hoare_return)

lemma keeps_throw: "keeps I (throw_c e)"
  unfolding keeps_def by (rule hoare_throw)

lemma keeps_local: "(\<And>w. I w \<Longrightarrow> I (f w)) \<Longrightarrow> keeps I (local_c f)"
  unfolding keeps_def by (rule hoare_local)

lemma keeps_get: "(\<And>w0. keeps I (k w0)) \<Longrightarrow> keeps I (get_c k)"
  by (auto simp: keeps_def hoare_def get_c_def)

lemma keeps_bind: "keeps I m \<Longrightarrow> (\<And>a. keeps I (k a)) \<Longrightarrow> keeps I (bind_c m k)"
  unfolding keeps_def by (rule hoare_bind)

lemma keeps_catch: "keeps I m \<Longrightarrow> (\<And>e. keeps I (h e)) \<Longrightarrow> keeps I (catch_c m h)"
  unfolding keeps_def by (rule hoare_catch)

lemma keeps_if: "(b \<Longrightarrow> keeps I m) \<Longrightarrow> (\<not> b \<Longrightarrow> keeps I m') \<Longrightarrow> keeps I (if b then m else m')"
  by simp

lemma keeps_option: "(x = None \<Longrightarrow> keeps I m) \<Longrightarrow> (\<And>y. x = Some y \<Longrightarrow> keeps I (k y)) \<Longrightarrow>
    keeps I (case x of None \<Rightarrow> m | Some y \<Rightarrow> k y)"
  by (cases x) simp_all

lemma keeps_sum: "(\<And>e. x = Inl e \<Longrightarrow> keeps I (h e)) \<Longrightarrow> (\<And>y. x = Inr y \<Longrightarrow> keeps I (k y)) \<Longrightarrow>
    keeps I (case x of Inl e \<Rightarrow> h e | Inr y \<Rightarrow> k y)"
  by (cases x) simp_all

lemma keeps_prod: "(\<And>a b. x = (a, b) \<Longrightarrow> keeps I (k a b)) \<Longrightarrow> keeps I (case x of (a, b) \<Rightarrow> k a b)"
  by (cases x) simp

lemmas keeps_rules = keeps_return keeps_throw keeps_local keeps_get keeps_bind keeps_catch keeps_if keeps_option keeps_sum keeps_prod

text \<open>An answered call is its statement.\<close>

lemma keeps_answered:
  assumes "\<And>w. I w \<Longrightarrow> n_replies w = []" "\<And>w. I w \<Longrightarrow> I (snd (f w))"
  shows "keeps I (ask f)"
  unfolding keeps_def by (rule hoareI) (simp add: ask_def assms case_prod_unfold)

end
