(* ===== verification/Report_Claims.thy ===== *)
theory Report_Claims
  imports Db_Calls
begin

text \<open>
  Scheduled reports: the claim repository (\<open>platform-report-claim.repository.ts\<close>), the send-job
  outbox (\<open>platform-report-send-job.repository.ts\<close>), the claim lifecycle of one send
  (\<open>report-orchestration.service.ts\<close>) and the stale reset.

  A scheduled report is claimed per learner and date (\<open>learner_scheduled_report_claims\<close>); a link
  without a learner id falls back to the platform table (\<open>scheduled_report_claims\<close>). The two
  tables, the outbox and a history of the deliveries that returned \<open>ok\<close> are the world; generating
  and sending the report are parameters. Error texts are kept, their truncation is not; creation
  times and the unused \<open>processing_started_at\<close> column are left out. The numeric settings are whole
  numbers.
\<close>

type_synonym report_date = string

datatype claim_status = Cl_Claimed | Cl_Sent | Cl_Released

record report_claim =
  rc_platform :: string
  rc_ext :: ext_id
  rc_date :: report_date
  rc_user :: "user_id option"
  rc_status :: claim_status
  rc_lease :: "string option"
  rc_expires :: "millis option"
  rc_updated :: millis
  rc_record :: "string option"
  rc_dkey :: "string option"
  rc_outcome :: "delivery_outcome option"

record learner_claim =
  lc_user :: user_id
  lc_date :: report_date
  lc_type :: string
  lc_platform :: string
  lc_ext :: ext_id
  lc_status :: claim_status
  lc_lease :: "string option"
  lc_expires :: "millis option"
  lc_updated :: millis
  lc_record :: "string option"
  lc_dkey :: "string option"
  lc_outcome :: "delivery_outcome option"

datatype job_status = Job_Pending | Job_Processing | Job_Sent | Job_Failed | Job_Cancelled

record send_job =
  sj_id :: nat
  sj_platform :: string
  sj_ext :: ext_id
  sj_user :: "user_id option"
  sj_exam :: report_date
  sj_first :: report_date
  sj_status :: job_status
  sj_retries :: int
  sj_max :: int
  sj_next :: "millis option"
  sj_error :: "string option"
  sj_cause :: "string option"
  sj_sent_at :: "millis option"
  sj_lease :: "string option"
  sj_expires :: "millis option"
  sj_updated :: millis

definition rc_key :: "report_claim \<Rightarrow> string \<times> ext_id \<times> report_date" where
  "rc_key c = (rc_platform c, rc_ext c, rc_date c)"

definition lc_key :: "learner_claim \<Rightarrow> user_id \<times> report_date \<times> string" where
  "lc_key c = (lc_user c, lc_date c, lc_type c)"

definition sj_key :: "send_job \<Rightarrow> string \<times> ext_id \<times> report_date" where
  "sj_key j = (sj_platform j, sj_ext j, sj_exam j)"

text \<open>A delivered report: learner (if known), external id, date.\<close>

record rp_world = net +
  rp_now :: millis
  rp_claims :: "report_claim list"
  rp_learner :: "learner_claim list"
  rp_jobs :: "send_job list"
  rp_deliveries :: "(user_id option \<times> ext_id \<times> report_date) list"

record rp_env =
  re_platform :: string
  re_learner :: bool
  re_jobs :: bool
  re_claim_lease_ms :: int
  re_max_retries :: int
  re_backoff_ms :: int

section \<open>The claim repository\<close>

definition learner_sent :: "string \<Rightarrow> ext_id \<Rightarrow> report_date \<Rightarrow> user_id option \<Rightarrow> learner_claim \<Rightarrow> bool" where
  "learner_sent platform ext date user c \<longleftrightarrow>
     (case user of Some u \<Rightarrow> lc_user c = u | None \<Rightarrow> lc_platform c = platform \<and> lc_ext c = ext) \<and>
     lc_date c = date \<and> lc_type c = ''scheduled'' \<and> lc_status c = Cl_Sent"

definition platform_sent :: "string \<Rightarrow> ext_id \<Rightarrow> report_date \<Rightarrow> user_id option \<Rightarrow> report_claim \<Rightarrow> bool" where
  "platform_sent platform ext date user c \<longleftrightarrow>
     rc_key c = (platform, ext, date) \<and> rc_status c = Cl_Sent \<and>
     (case user of None \<Rightarrow> True | Some u \<Rightarrow> rc_user c = Some u \<or> rc_user c = None)"

definition has_sent_scheduled_report_on ::
    "rp_env \<Rightarrow> ext_id \<Rightarrow> report_date \<Rightarrow> user_id option \<Rightarrow> (rp_world, bool) comp" where
  "has_sent_scheduled_report_on env ext date user =
     bind_c (if re_learner env
             then ask (\<lambda>w. (list_ex (learner_sent (re_platform env) ext date user) (rp_learner w), w))
             else return_c False) (\<lambda>hit.
       if hit then return_c True
       else ask (\<lambda>w. (list_ex (platform_sent (re_platform env) ext date user) (rp_claims w), w)))"

definition has_any_platform_sent_report_on :: "rp_env \<Rightarrow> user_id \<Rightarrow> report_date \<Rightarrow> (rp_world, bool) comp" where
  "has_any_platform_sent_report_on env user date =
     bind_c (ask (\<lambda>w. (list_ex (\<lambda>c. rc_user c = Some user \<and> rc_date c = date \<and> rc_status c = Cl_Sent) (rp_claims w), w))) (\<lambda>hit.
       if hit then return_c True
       else if \<not> re_learner env then return_c False
       else ask (\<lambda>w. (list_ex (\<lambda>c. lc_key c = (user, date, ''scheduled'') \<and> lc_status c = Cl_Sent) (rp_learner w), w)))"

text \<open>A JavaScript set keeps the first occurrence of each element.\<close>

definition js_set :: "'a list \<Rightarrow> 'a list" where
  "js_set xs = rev (remdups (rev xs))"

definition list_user_ids_with_sent_report_on :: "rp_env \<Rightarrow> report_date \<Rightarrow> (rp_world, user_id list) comp" where
  "list_user_ids_with_sent_report_on env date =
     bind_c (ask (\<lambda>w. (List.map_filter rc_user (filter (\<lambda>c. rc_date c = date \<and> rc_status c = Cl_Sent) (rp_claims w)), w))) (\<lambda>ids.
       if \<not> re_learner env then return_c ids
       else
         ask (\<lambda>w. (js_set (ids @ map lc_user (filter (\<lambda>c. lc_date c = date \<and> lc_type c = ''scheduled'' \<and> lc_status c = Cl_Sent)
                    (rp_learner w))), w)))"

text \<open>What a successful claim returns: the lease token and the delivery record of an earlier run.\<close>

definition new_learner_claim ::
    "string \<Rightarrow> millis \<Rightarrow> string \<Rightarrow> ext_id \<Rightarrow> user_id \<Rightarrow> report_date \<Rightarrow> int \<Rightarrow> learner_claim" where
  "new_learner_claim platform now t ext user date lease_ms =
     \<lparr>lc_user = user, lc_date = date, lc_type = ''scheduled'', lc_platform = platform, lc_ext = ext,
      lc_status = Cl_Claimed, lc_lease = Some t, lc_expires = Some (now + lease_ms), lc_updated = now,
      lc_record = None, lc_dkey = None, lc_outcome = None\<rparr>"

definition claim_learner ::
    "rp_env \<Rightarrow> string \<Rightarrow> ext_id \<Rightarrow> user_id \<Rightarrow> report_date \<Rightarrow> rp_world \<Rightarrow> (string \<times> string option) option \<times> rp_world" where
  "claim_learner env t ext user date w =
     (let now = rp_now w;
          new = new_learner_claim (re_platform env) now t ext user date (re_claim_lease_ms env)
      in if list_ex (\<lambda>c. rc_key c = (re_platform env, ext, date) \<and> (rc_user c = Some user \<or> rc_user c = None) \<and>
                         (rc_status c = Cl_Claimed \<or> rc_status c = Cl_Sent)) (rp_claims w)
         then (None, w)
         else
           (case sql_upsert lc_key new
                   (\<lambda>old. old\<lparr>lc_platform := lc_platform new, lc_ext := lc_ext new, lc_status := Cl_Claimed,
                             lc_lease := lc_lease new, lc_expires := lc_expires new, lc_updated := now\<rparr>)
                   (\<lambda>old. lc_status old = Cl_Released) (rp_learner w) of
              (rows, returned) \<Rightarrow> (map_option (\<lambda>c. (t, lc_record c)) returned, w\<lparr>rp_learner := rows\<rparr>)))"

definition active_other :: "rp_env \<Rightarrow> user_id \<Rightarrow> report_date \<Rightarrow> millis \<Rightarrow> report_claim \<Rightarrow> bool" where
  "active_other env user date now c \<longleftrightarrow>
     rc_user c = Some user \<and> rc_date c = date \<and> rc_platform c \<noteq> re_platform env \<and>
     (rc_status c = Cl_Sent \<or>
      rc_status c = Cl_Claimed \<and> (case rc_expires c of None \<Rightarrow> True | Some e \<Rightarrow> now < e))"

definition claim_platform ::
    "rp_env \<Rightarrow> string \<Rightarrow> ext_id \<Rightarrow> user_id option \<Rightarrow> report_date \<Rightarrow> rp_world \<Rightarrow> (string \<times> string option) option \<times> rp_world" where
  "claim_platform env t ext user date w =
     (let now = rp_now w;
          new = \<lparr>rc_platform = re_platform env, rc_ext = ext, rc_date = date, rc_user = user, rc_status = Cl_Claimed,
                 rc_lease = Some t, rc_expires = Some (now + re_claim_lease_ms env), rc_updated = now,
                 rc_record = None, rc_dkey = None, rc_outcome = None\<rparr>
      in case sql_upsert rc_key new
                (\<lambda>old. old\<lparr>rc_status := Cl_Claimed, rc_user := user, rc_lease := rc_lease new,
                          rc_expires := rc_expires new, rc_updated := now\<rparr>)
                (\<lambda>old. rc_status old = Cl_Released) (rp_claims w) of
           (rows, returned) \<Rightarrow> (map_option (\<lambda>c. (t, rc_record c)) returned, w\<lparr>rp_claims := rows\<rparr>))"

text \<open>\<open>if (params.userId)\<close> is false for the id 0, \<open>!== undefined\<close> is not.\<close>

definition truthy_id :: "user_id option \<Rightarrow> bool" where
  "truthy_id user \<longleftrightarrow> user \<noteq> None \<and> user \<noteq> Some 0"

definition try_claim_scheduled_report ::
    "rp_env \<Rightarrow> string \<Rightarrow> ext_id \<Rightarrow> user_id option \<Rightarrow> report_date \<Rightarrow> (rp_world, (string \<times> string option) option) comp" where
  "try_claim_scheduled_report env t ext user date =
     (if user \<noteq> None \<and> re_learner env then ask (claim_learner env t ext (the user) date)
      else
        bind_c (if truthy_id user
                then ask (\<lambda>w. (list_ex (active_other env (the user) date (rp_now w)) (rp_claims w), w))
                else return_c False) (\<lambda>other.
          if other then return_c None else ask (claim_platform env t ext user date)))"

text \<open>\<open>(params.userId ...)\<close>: a column is only written when its value is given.\<close>

definition given :: "'a option \<Rightarrow> 'a option \<Rightarrow> 'a option" where
  "given new old = (case new of Some v \<Rightarrow> Some v | None \<Rightarrow> old)"

definition owned_learner :: "string \<Rightarrow> user_id \<Rightarrow> report_date \<Rightarrow> learner_claim \<Rightarrow> bool" where
  "owned_learner t user date c \<longleftrightarrow>
     lc_key c = (user, date, ''scheduled'') \<and> lc_status c = Cl_Claimed \<and> lc_lease c = Some t"

definition owned_platform :: "rp_env \<Rightarrow> string \<Rightarrow> ext_id \<Rightarrow> user_id option \<Rightarrow> report_date \<Rightarrow> report_claim \<Rightarrow> bool" where
  "owned_platform env t ext user date c \<longleftrightarrow>
     rc_key c = (re_platform env, ext, date) \<and> (case user of None \<Rightarrow> True | Some u \<Rightarrow> rc_user c = Some u) \<and>
     rc_status c = Cl_Claimed \<and> rc_lease c = Some t"

definition update_learner :: "(learner_claim \<Rightarrow> bool) \<Rightarrow> (learner_claim \<Rightarrow> learner_claim) \<Rightarrow> rp_world \<Rightarrow> bool \<times> rp_world" where
  "update_learner P f w =
     (list_ex P (rp_learner w), w\<lparr>rp_learner := sql_update P (\<lambda>c. (f c)\<lparr>lc_updated := rp_now w\<rparr>) (rp_learner w)\<rparr>)"

definition update_platform :: "(report_claim \<Rightarrow> bool) \<Rightarrow> (report_claim \<Rightarrow> report_claim) \<Rightarrow> rp_world \<Rightarrow> bool \<times> rp_world" where
  "update_platform P f w =
     (list_ex P (rp_claims w), w\<lparr>rp_claims := sql_update P (\<lambda>c. (f c)\<lparr>rc_updated := rp_now w\<rparr>) (rp_claims w)\<rparr>)"

text \<open>Both completion writes try the learner table first and fall back to the platform table.\<close>

definition finish_claim ::
    "rp_env \<Rightarrow> string \<Rightarrow> ext_id \<Rightarrow> user_id option \<Rightarrow> report_date \<Rightarrow>
     (learner_claim \<Rightarrow> learner_claim) \<Rightarrow> (report_claim \<Rightarrow> report_claim) \<Rightarrow> (rp_world, bool) comp" where
  "finish_claim env t ext user date f g =
     bind_c (if user \<noteq> None \<and> re_learner env
             then ask (update_learner (owned_learner t (the user) date) f) else return_c False) (\<lambda>hit.
       if hit then return_c True else ask (update_platform (owned_platform env t ext user date) g))"

definition mark_scheduled_report_claim_sent ::
    "rp_env \<Rightarrow> string \<Rightarrow> ext_id \<Rightarrow> user_id option \<Rightarrow> report_date \<Rightarrow>
     string option \<Rightarrow> string option \<Rightarrow> delivery_outcome option \<Rightarrow> (rp_world, bool) comp" where
  "mark_scheduled_report_claim_sent env t ext user date dr dk outcome =
     finish_claim env t ext user date
       (\<lambda>c. c\<lparr>lc_status := Cl_Sent, lc_record := given dr (lc_record c), lc_dkey := given dk (lc_dkey c),
              lc_outcome := given outcome (lc_outcome c)\<rparr>)
       (\<lambda>c. c\<lparr>rc_status := Cl_Sent, rc_record := given dr (rc_record c), rc_dkey := given dk (rc_dkey c),
              rc_outcome := given outcome (rc_outcome c)\<rparr>)"

definition release_scheduled_report_claim ::
    "rp_env \<Rightarrow> string \<Rightarrow> ext_id \<Rightarrow> user_id option \<Rightarrow> report_date \<Rightarrow> (rp_world, bool) comp" where
  "release_scheduled_report_claim env t ext user date =
     finish_claim env t ext user date (\<lambda>c. c\<lparr>lc_status := Cl_Released\<rparr>) (\<lambda>c. c\<lparr>rc_status := Cl_Released\<rparr>)"

definition expired_at :: "millis \<Rightarrow> millis \<Rightarrow> millis option \<Rightarrow> millis \<Rightarrow> bool" where
  "expired_at now older_than expires updated \<longleftrightarrow>
     (case expires of Some e \<Rightarrow> e < now | None \<Rightarrow> updated < older_than)"

definition release_expired_scheduled_report_claims :: "rp_env \<Rightarrow> millis \<Rightarrow> millis \<Rightarrow> (rp_world, nat) comp" where
  "release_expired_scheduled_report_claims env now older_than =
     (let P = (\<lambda>c. rc_platform c = re_platform env \<and> rc_status c = Cl_Claimed \<and>
                   expired_at now older_than (rc_expires c) (rc_updated c));
          Q = (\<lambda>c. lc_status c = Cl_Claimed \<and> expired_at now older_than (lc_expires c) (lc_updated c))
      in bind_c (ask (\<lambda>w. (sql_count P (rp_claims w),
                     w\<lparr>rp_claims := sql_update P (\<lambda>c. c\<lparr>rc_status := Cl_Released, rc_updated := now\<rparr>) (rp_claims w)\<rparr>))) (\<lambda>released.
           if \<not> re_learner env then return_c released
           else
             ask (\<lambda>w. (released + sql_count Q (rp_learner w),
                     w\<lparr>rp_learner := sql_update Q (\<lambda>c. c\<lparr>lc_status := Cl_Released, lc_updated := now\<rparr>) (rp_learner w)\<rparr>))))"

text \<open>The cron: \<open>withLock\<close> gives \<open>null\<close> when another process holds the lock.\<close>

definition handle_stale_reset :: "rp_env \<Rightarrow> bool \<Rightarrow> (rp_world, nat option) comp" where
  "handle_stale_reset env locked =
     (if locked
      then get_c (\<lambda>w. bind_c (release_expired_scheduled_report_claims env (rp_now w) (rp_now w - re_claim_lease_ms env))
             (\<lambda>n. return_c (Some n)))
      else return_c None)"

section \<open>The send-job outbox\<close>

text \<open>An empty string is not a date: the database refuses the statement.\<close>

definition date_call :: "report_date \<Rightarrow> (rp_world \<Rightarrow> 'a \<times> rp_world) \<Rightarrow> (rp_world, 'a) comp" where
  "date_call date f = (if date = [] then throw_c ''invalid date'' else ask f)"

definition next_job_id :: "send_job list \<Rightarrow> nat" where
  "next_job_id jobs = foldr max (map sj_id jobs) 0 + 1"

definition record_retryable_failure ::
    "rp_env \<Rightarrow> ext_id \<Rightarrow> user_id option \<Rightarrow> report_date \<Rightarrow> report_date \<Rightarrow> int \<Rightarrow> millis \<Rightarrow> string \<Rightarrow> string option \<Rightarrow>
     (rp_world, send_job) comp" where
  "record_retryable_failure env ext user exam first max_retries next_at err cause =
     bind_c (date_call exam (\<lambda>w. (find (\<lambda>j. sj_key j = (re_platform env, ext, exam)) (rp_jobs w), w))) (\<lambda>existing.
       case existing of
         Some j \<Rightarrow>
           if sj_status j = Job_Sent then return_c j
           else
             (let n = sj_retries j + 1;
                  j' = j\<lparr>sj_retries := n, sj_max := max_retries, sj_error := Some err, sj_cause := cause,
                         sj_next := (if n \<ge> max_retries then None else Some next_at), sj_status := Job_Failed,
                         sj_user := given user (sj_user j)\<rparr>
              in ask (\<lambda>w. (j'\<lparr>sj_updated := rp_now w\<rparr>,
                    w\<lparr>rp_jobs := sql_update (\<lambda>q. sj_id q = sj_id j)
                        (\<lambda>q. q\<lparr>sj_retries := n, sj_max := max_retries, sj_error := Some err, sj_cause := cause,
                               sj_next := sj_next j', sj_status := Job_Failed, sj_user := sj_user j',
                               sj_updated := rp_now w\<rparr>) (rp_jobs w)\<rparr>)))
       | None \<Rightarrow>
           ask (\<lambda>w. let j = \<lparr>sj_id = next_job_id (rp_jobs w), sj_platform = re_platform env, sj_ext = ext, sj_user = user,
                            sj_exam = exam, sj_first = first, sj_status = Job_Failed, sj_retries = 1, sj_max = max_retries,
                            sj_next = (if 1 \<ge> max_retries then None else Some next_at), sj_error = Some err, sj_cause = cause,
                            sj_sent_at = None, sj_lease = None, sj_expires = None, sj_updated = rp_now w\<rparr>
                    in (j, w\<lparr>rp_jobs := rp_jobs w @ [j]\<rparr>)))"

text \<open>Ordered by due time; a NULL due time is filtered out.\<close>

definition find_due_jobs :: "rp_env \<Rightarrow> millis \<Rightarrow> nat \<Rightarrow> (rp_world, send_job list) comp" where
  "find_due_jobs env now limit =
     ask (\<lambda>w. (take limit (sort_key (\<lambda>j. the (sj_next j)) (filter (\<lambda>j. sj_platform j = re_platform env \<and>
                 sj_status j = Job_Failed \<and> sj_retries j < sj_max j \<and>
                 (case sj_next j of None \<Rightarrow> False | Some t \<Rightarrow> t \<le> now)) (rp_jobs w))), w))"

definition claim_job :: "rp_env \<Rightarrow> string \<Rightarrow> nat \<Rightarrow> int \<Rightarrow> (rp_world, send_job option) comp" where
  "claim_job env t i lease_ms =
     ask (\<lambda>w. let P = (\<lambda>j. sj_id j = i \<and> sj_platform j = re_platform env \<and> sj_status j = Job_Failed);
                  f = (\<lambda>j. j\<lparr>sj_status := Job_Processing, sj_lease := Some t, sj_expires := Some (rp_now w + lease_ms)\<rparr>)
              in (map_option f (find P (rp_jobs w)), w\<lparr>rp_jobs := sql_update P f (rp_jobs w)\<rparr>))"

definition update_jobs :: "(send_job \<Rightarrow> bool) \<Rightarrow> (send_job \<Rightarrow> send_job) \<Rightarrow> rp_world \<Rightarrow> unit \<times> rp_world" where
  "update_jobs P f w = ((), w\<lparr>rp_jobs := sql_update P (\<lambda>j. (f j)\<lparr>sj_updated := rp_now w\<rparr>) (rp_jobs w)\<rparr>)"

definition sent_job :: "millis \<Rightarrow> send_job \<Rightarrow> send_job" where
  "sent_job now j = j\<lparr>sj_status := Job_Sent, sj_sent_at := Some now, sj_next := None, sj_error := None, sj_cause := None\<rparr>"

definition mark_job_sent :: "rp_env \<Rightarrow> nat \<Rightarrow> string \<Rightarrow> (rp_world, unit) comp" where
  "mark_job_sent env i t =
     ask (\<lambda>w. update_jobs (\<lambda>j. sj_id j = i \<and> sj_platform j = re_platform env \<and> sj_lease j = Some t) (sent_job (rp_now w)) w)"

definition mark_job_failed ::
    "rp_env \<Rightarrow> nat \<Rightarrow> string option \<Rightarrow> string \<Rightarrow> int \<Rightarrow> millis option \<Rightarrow> bool \<Rightarrow> string option \<Rightarrow> (rp_world, unit) comp" where
  "mark_job_failed env i t err retries next_at terminal cause =
     ask (update_jobs (\<lambda>j. sj_id j = i \<and> sj_platform j = re_platform env \<and>
              (t = None \<or> t = Some [] \<or> sj_lease j = t))
            (\<lambda>j. j\<lparr>sj_status := Job_Failed, sj_retries := retries, sj_error := Some err, sj_cause := cause,
                   sj_next := (if terminal then None else next_at)\<rparr>))"

definition mark_sent_by_external_user_exam_date :: "rp_env \<Rightarrow> ext_id \<Rightarrow> report_date \<Rightarrow> (rp_world, unit) comp" where
  "mark_sent_by_external_user_exam_date env ext exam =
     date_call exam (\<lambda>w. update_jobs (\<lambda>j. sj_key j = (re_platform env, ext, exam) \<and>
          sj_status j \<in> {Job_Failed, Job_Processing, Job_Pending}) (sent_job (rp_now w)) w)"

definition reset_stuck_processing_jobs :: "rp_env \<Rightarrow> millis \<Rightarrow> (rp_world, nat) comp" where
  "reset_stuck_processing_jobs env older_than =
     ask (\<lambda>w. let P = (\<lambda>j. sj_platform j = re_platform env \<and> sj_status j = Job_Processing \<and>
                           expired_at (rp_now w) older_than (sj_expires j) (sj_updated j))
              in (sql_count P (rp_jobs w), snd (update_jobs P (\<lambda>j. j\<lparr>sj_status := Job_Failed\<rparr>) w)))"

definition count_terminal_failed_since :: "rp_env \<Rightarrow> millis \<Rightarrow> (rp_world, nat) comp" where
  "count_terminal_failed_since env since =
     ask (\<lambda>w. (sql_count (\<lambda>j. sj_platform j = re_platform env \<and> sj_status j = Job_Failed \<and>
                 sj_retries j \<ge> sj_max j \<and> sj_updated j \<ge> since) (rp_jobs w), w))"

section \<open>One send\<close>

record report_mapping =
  mp_platform :: string
  mp_ext :: ext_id
  mp_user :: "user_id option"

datatype error_kind = Kind_Retryable | Kind_Window_Closed | Kind_Skipped | Kind_Failure

record classified_error =
  ce_kind :: error_kind
  ce_message :: string
  ce_cause :: "string option"

text \<open>\<open>cs_generate\<close> is the outcome of \<open>generateReport\<close> when there is one, \<open>cs_classify\<close> the caller's
  classifier when there is one.\<close>

record send_options =
  cs_date :: report_date
  cs_skip :: bool
  cs_exam :: "report_date option"
  cs_allow :: bool
  cs_classify :: "(string \<Rightarrow> classified_error) option"
  cs_generate :: "(string + unit) option"

datatype delivery_reason = R_Window_Closed | R_Delivery_Failed | R_Retryable | R_Not_Linked | R_Rate_Limited

record delivery_result =
  dr_ok :: bool
  dr_reason :: "delivery_reason option"
  dr_outcome :: "delivery_outcome option"

record claim_result =
  cr_sent :: nat
  cr_skipped :: nat
  cr_deferred :: nat
  cr_window_closed :: nat
  cr_claim_skipped :: nat
  cr_retry_queued :: nat
  cr_cause :: "string option"
  cr_failures :: "(ext_id \<times> string) list"

definition zero_result :: claim_result where
  "zero_result = \<lparr>cr_sent = 0, cr_skipped = 0, cr_deferred = 0, cr_window_closed = 0, cr_claim_skipped = 0,
     cr_retry_queued = 0, cr_cause = None, cr_failures = []\<rparr>"

definition reason_text :: "delivery_reason option \<Rightarrow> string" where
  "reason_text r =
     (case r of None \<Rightarrow> ''DELIVERY_FAILED'' | Some R_Window_Closed \<Rightarrow> ''WINDOW_CLOSED''
      | Some R_Delivery_Failed \<Rightarrow> ''DELIVERY_FAILED'' | Some R_Retryable \<Rightarrow> ''RETRYABLE''
      | Some R_Not_Linked \<Rightarrow> ''NOT_LINKED'' | Some R_Rate_Limited \<Rightarrow> ''RATE_LIMITED'')"

definition classify_error :: "send_options \<Rightarrow> string \<Rightarrow> classified_error" where
  "classify_error opts e =
     (case cs_classify opts of Some f \<Rightarrow> f e | None \<Rightarrow> \<lparr>ce_kind = Kind_Failure, ce_message = e, ce_cause = None\<rparr>)"

definition delivery_key :: "report_mapping \<Rightarrow> report_date \<Rightarrow> string" where
  "delivery_key mp date = mp_platform mp @ ''-report:'' @ mp_ext mp @ '':'' @ date"

definition failed_result :: "report_mapping \<Rightarrow> string \<Rightarrow> claim_result" where
  "failed_result mp err = zero_result\<lparr>cr_failures := [(mp_ext mp, err)]\<rparr>"

definition release_if_claimed :: "rp_env \<Rightarrow> report_mapping \<Rightarrow> send_options \<Rightarrow> string option \<Rightarrow> (rp_world, unit) comp" where
  "release_if_claimed env mp opts lease =
     (case lease of
        None \<Rightarrow> return_c ()
      | Some t \<Rightarrow> bind_c (release_scheduled_report_claim env t (mp_ext mp) (mp_user mp) (cs_date opts)) (\<lambda>_. return_c ()))"

definition queue_retry :: "rp_env \<Rightarrow> report_mapping \<Rightarrow> send_options \<Rightarrow> string \<Rightarrow> string option \<Rightarrow> (rp_world, claim_result) comp" where
  "queue_retry env mp opts err cause =
     get_c (\<lambda>w. bind_c (record_retryable_failure env (mp_ext mp) (mp_user mp)
              (case cs_exam opts of Some d \<Rightarrow> d | None \<Rightarrow> []) (cs_date opts) (re_max_retries env)
              (rp_now w + re_backoff_ms env) err cause) (\<lambda>_.
       return_c (zero_result\<lparr>cr_deferred := 1, cr_retry_queued := 1, cr_cause := cause\<rparr>)))"

text \<open>The result of an error that is not queued for a retry.\<close>

definition error_result :: "report_mapping \<Rightarrow> classified_error \<Rightarrow> claim_result" where
  "error_result mp c =
     (case ce_kind c of
        Kind_Window_Closed \<Rightarrow> zero_result\<lparr>cr_window_closed := 1\<rparr>
      | Kind_Skipped \<Rightarrow> zero_result\<lparr>cr_skipped := 1\<rparr>
      | _ \<Rightarrow> failed_result mp (ce_message c))"

definition mark_outbox_sent :: "rp_env \<Rightarrow> report_mapping \<Rightarrow> send_options \<Rightarrow> (rp_world, unit) comp" where
  "mark_outbox_sent env mp opts =
     (case cs_exam opts of
        Some d \<Rightarrow> if d \<noteq> [] \<and> re_jobs env then mark_sent_by_external_user_exam_date env (mp_ext mp) d else return_c ()
      | None \<Rightarrow> return_c ())"

subsection \<open>Steps 1 and 2: the guards and the claim\<close>

definition already_sent :: "rp_env \<Rightarrow> report_mapping \<Rightarrow> send_options \<Rightarrow> (rp_world, bool) comp" where
  "already_sent env mp opts =
     bind_c (has_sent_scheduled_report_on env (mp_ext mp) (cs_date opts) (mp_user mp)) (\<lambda>sent.
       if sent then bind_c (mark_outbox_sent env mp opts) (\<lambda>_. return_c True)
       else if truthy_id (mp_user mp) then has_any_platform_sent_report_on env (the (mp_user mp)) (cs_date opts)
       else return_c False)"

subsection \<open>Step 4: generation inside the claim\<close>

definition generation_failed :: "rp_env \<Rightarrow> report_mapping \<Rightarrow> send_options \<Rightarrow> string option \<Rightarrow> string \<Rightarrow> (rp_world, claim_result) comp" where
  "generation_failed env mp opts lease e =
     bind_c (release_if_claimed env mp opts lease) (\<lambda>_.
       let c = classify_error opts e in
       if (ce_kind c = Kind_Retryable \<or> ce_kind c = Kind_Failure \<and> cs_classify opts = None) \<and> re_jobs env
       then queue_retry env mp opts (''Generation failed: '' @ ce_message c) (ce_cause c)
       else return_c (error_result mp c))"

subsection \<open>Steps 5 to 7: delivery\<close>

definition deliver_report ::
    "rp_env \<Rightarrow> report_mapping \<Rightarrow> send_options \<Rightarrow> string option \<Rightarrow> (string + delivery_result) \<Rightarrow> (rp_world, claim_result) comp" where
  "deliver_report env mp opts lease delivery =
     (case delivery of
        Inl e \<Rightarrow> throw_c e
      | Inr r \<Rightarrow>
          if dr_ok r then
            bind_c (local_c (\<lambda>w. w\<lparr>rp_deliveries := (mp_user mp, mp_ext mp, cs_date opts) # rp_deliveries w\<rparr>)) (\<lambda>_.
            bind_c (case lease of
                      None \<Rightarrow> return_c True
                    | Some t \<Rightarrow> mark_scheduled_report_claim_sent env t (mp_ext mp) (mp_user mp) (cs_date opts)
                        (Some ''sent'') (Some (delivery_key mp (cs_date opts)))
                        (Some (case dr_outcome r of Some x \<Rightarrow> x | None \<Rightarrow> Sent))) (\<lambda>_.
            bind_c (mark_outbox_sent env mp opts) (\<lambda>_.
              return_c (zero_result\<lparr>cr_sent := 1\<rparr>))))
          else if dr_reason r = Some R_Rate_Limited then
            bind_c (case lease of
                      None \<Rightarrow> return_c True
                    | Some t \<Rightarrow> mark_scheduled_report_claim_sent env t (mp_ext mp) (mp_user mp) (cs_date opts)
                        None (Some (delivery_key mp (cs_date opts))) (Some Rate_Limited)) (\<lambda>_.
              return_c (failed_result mp ''outbound_rate_limited''))
          else
            bind_c (release_if_claimed env mp opts lease) (\<lambda>_.
              if dr_reason r = Some R_Retryable \<and> re_jobs env
              then queue_retry env mp opts (''Delivery failed: '' @ reason_text (dr_reason r)) None
              else if dr_reason r = Some R_Window_Closed then return_c (zero_result\<lparr>cr_window_closed := 1\<rparr>)
              else if dr_reason r = Some R_Not_Linked then return_c (zero_result\<lparr>cr_skipped := 1\<rparr>)
              else return_c (failed_result mp (reason_text (dr_reason r)))))"

definition delivery_threw :: "rp_env \<Rightarrow> report_mapping \<Rightarrow> send_options \<Rightarrow> string option \<Rightarrow> string \<Rightarrow> (rp_world, claim_result) comp" where
  "delivery_threw env mp opts lease e =
     bind_c (release_if_claimed env mp opts lease) (\<lambda>_.
       let c = classify_error opts e in
       if ce_kind c = Kind_Retryable \<and> re_jobs env then queue_retry env mp opts (ce_message c) (ce_cause c)
       else return_c (error_result mp c))"

definition generate_and_send ::
    "rp_env \<Rightarrow> report_mapping \<Rightarrow> send_options \<Rightarrow> string option \<Rightarrow> (string + delivery_result) \<Rightarrow> (rp_world, claim_result) comp" where
  "generate_and_send env mp opts lease delivery =
     (case cs_generate opts of
        Some (Inl e) \<Rightarrow> generation_failed env mp opts lease e
      | _ \<Rightarrow> catch_c (deliver_report env mp opts lease delivery) (delivery_threw env mp opts lease))"

text \<open>The whole lifecycle; \<open>t\<close> is the token the database draws for the claim. An empty delivery
  record or token counts as none.\<close>

definition claim_and_send ::
    "rp_env \<Rightarrow> string \<Rightarrow> report_mapping \<Rightarrow> send_options \<Rightarrow> (string + delivery_result) \<Rightarrow> (rp_world, claim_result) comp" where
  "claim_and_send env t mp opts delivery =
     (if \<not> cs_skip opts then generate_and_send env mp opts None delivery
      else if mp_user mp = None \<and> \<not> cs_allow opts then return_c (zero_result\<lparr>cr_skipped := 1\<rparr>)
      else
        bind_c (already_sent env mp opts) (\<lambda>sent.
          if sent then return_c (zero_result\<lparr>cr_skipped := 1\<rparr>)
          else
            bind_c (try_claim_scheduled_report env t (mp_ext mp) (mp_user mp) (cs_date opts)) (\<lambda>claimed.
              case claimed of
                None \<Rightarrow> return_c (zero_result\<lparr>cr_claim_skipped := 1\<rparr>)
              | Some (lease, record) \<Rightarrow>
                  if lease = [] then return_c (zero_result\<lparr>cr_claim_skipped := 1\<rparr>)
                  else if record \<noteq> None \<and> record \<noteq> Some []
                  then bind_c (mark_scheduled_report_claim_sent env lease (mp_ext mp) (mp_user mp) (cs_date opts) None None None)
                         (\<lambda>_. return_c (zero_result\<lparr>cr_sent := 1\<rparr>))
                  else generate_and_send env mp opts (Some lease) delivery)))"

section \<open>Every send is accounted for once\<close>

definition one_outcome :: "claim_result \<Rightarrow> bool" where
  "one_outcome r \<longleftrightarrow>
     cr_sent r + cr_skipped r + cr_window_closed r + cr_claim_skipped r + cr_retry_queued r + length (cr_failures r) = 1 \<and>
     cr_deferred r = cr_retry_queued r"

lemma one_outcome_simps [unfolded One_nat_def, simp]:
  "one_outcome (zero_result\<lparr>cr_sent := 1\<rparr>)" "one_outcome (zero_result\<lparr>cr_skipped := 1\<rparr>)"
  "one_outcome (zero_result\<lparr>cr_window_closed := 1\<rparr>)" "one_outcome (zero_result\<lparr>cr_claim_skipped := 1\<rparr>)"
  "one_outcome (zero_result\<lparr>cr_deferred := 1, cr_retry_queued := 1, cr_cause := cause\<rparr>)"
  "one_outcome (failed_result mp err)" "one_outcome (error_result mp c)"
  by (simp_all add: one_outcome_def zero_result_def failed_result_def error_result_def split: error_kind.splits)

abbreviation accounted :: "(rp_world, claim_result) comp \<Rightarrow> bool" where
  "accounted m \<equiv> hoare (\<lambda>_. True) m (\<lambda>r _. one_outcome r) (\<lambda>_ _. True)"

lemma accounted_return: "one_outcome r \<Longrightarrow> accounted (return_c r)"
  by (rule hoare_return)

lemma accounted_bind: "(\<And>a. accounted (k a)) \<Longrightarrow> accounted (bind_c m k)"
  by (rule hoare_bind [OF hoare_any])

lemma accounted_queue_retry: "accounted (queue_retry env mp opts err cause)"
  unfolding queue_retry_def
  by (intro hoare_get hoare_pre [OF accounted_bind] accounted_return) simp_all

lemmas accounted_rules = accounted_bind accounted_return accounted_queue_retry hoare_if

lemma accounted_generate_and_send: "accounted (generate_and_send env mp opts lease delivery)"
proof -
  have gen: "accounted (generation_failed env mp opts lease e)" for e
    unfolding generation_failed_def Let_def by (intro accounted_rules) simp_all
  have threw: "accounted (delivery_threw env mp opts lease e)" for e
    unfolding delivery_threw_def Let_def by (intro accounted_rules) simp_all
  have "accounted (deliver_report env mp opts lease delivery)"
    unfolding deliver_report_def
    by (cases delivery) (auto intro!: accounted_rules hoare_throw)
  then have "accounted (catch_c (deliver_report env mp opts lease delivery) (delivery_threw env mp opts lease))"
    using threw by (rule hoare_catch)
  then show ?thesis using gen by (simp add: generate_and_send_def split: option.splits sum.splits)
qed

lemma accounted_claim_and_send: "accounted (claim_and_send env t mp opts delivery)"
  unfolding claim_and_send_def
  by (auto intro!: accounted_rules accounted_generate_and_send split: option.splits prod.splits)

text \<open>A scheduled send that returns reports exactly one of: sent, skipped, window closed, claim
  held elsewhere, queued for a retry, failed; \<open>deferred\<close> is set exactly when a retry was queued.\<close>

theorem claim_and_send_one_outcome:
  assumes "claim_and_send env t mp opts delivery w = (Inr r, w')"
  shows "one_outcome r"
  using hoareD [OF accounted_claim_and_send TrueI assms] by simp

section \<open>One report per learner and date\<close>

definition report_sent :: "learner_claim list \<Rightarrow> user_id \<Rightarrow> report_date \<Rightarrow> bool" where
  "report_sent rows u d \<longleftrightarrow> list_ex (\<lambda>c. lc_key c = (u, d, ''scheduled'') \<and> lc_status c = Cl_Sent) rows"

definition delivered :: "user_id \<Rightarrow> report_date \<Rightarrow> rp_world \<Rightarrow> nat" where
  "delivered u d w = length (filter (\<lambda>x. fst x = Some u \<and> snd (snd x) = d) (rp_deliveries w))"

text \<open>\<open>due\<close> is the learner and date of a delivery whose claim is still to be marked.\<close>

definition once_but :: "(user_id \<times> report_date) set \<Rightarrow> rp_world \<Rightarrow> bool" where
  "once_but due w \<longleftrightarrow> keyed lc_key (rp_learner w) \<and> Refused \<notin> set (n_replies w) \<and>
     (\<forall>u d. delivered u d w \<le> (if report_sent (rp_learner w) u d \<or> (u, d) \<in> due then 1 else 0))"

abbreviation once_inv :: "rp_world \<Rightarrow> bool" where
  "once_inv \<equiv> once_but {}"

definition claimed_by :: "string \<Rightarrow> user_id \<Rightarrow> report_date \<Rightarrow> rp_world \<Rightarrow> bool" where
  "claimed_by t u d w \<longleftrightarrow> list_ex (owned_learner t u d) (rp_learner w)"

lemma claimed_not_sent: "keyed lc_key rows \<Longrightarrow> list_ex (owned_learner t u d) rows \<Longrightarrow> \<not> report_sent rows u d"
  by (auto simp: report_sent_def list_ex_iff owned_learner_def dest: keyed_unique)

lemma report_sent_update:
  assumes "\<And>c. P c \<Longrightarrow> lc_status c = Cl_Claimed" "\<And>c. P c \<Longrightarrow> lc_key (f c) = lc_key c"
    and "\<And>c. P c \<Longrightarrow> lc_status (f c) \<noteq> Cl_Sent"
  shows "report_sent (sql_update P f rows) = report_sent rows"
proof (intro ext iffI)
  fix u d
  show "report_sent rows u d" if "report_sent (sql_update P f rows) u d"
    using that assms(3) by (auto simp: report_sent_def list_ex_iff set_sql_update)
  show "report_sent (sql_update P f rows) u d" if sent: "report_sent rows u d"
  proof -
    obtain c where c: "c \<in> set rows" "lc_key c = (u, d, ''scheduled'')" "lc_status c = Cl_Sent"
      using sent by (auto simp: report_sent_def list_ex_iff)
    then have "c \<in> set (sql_update P f rows)" using assms(1) [of c] by (force simp: set_sql_update)
    then show ?thesis using c by (auto simp: report_sent_def list_ex_iff)
  qed
qed

text \<open>Calls that leave the learner claims and the deliveries alone.\<close>

lemma once_frame: "rp_learner w' = rp_learner w \<Longrightarrow> rp_deliveries w' = rp_deliveries w \<Longrightarrow>
    set (n_replies w') \<subseteq> set (n_replies w) \<Longrightarrow> once_but D w \<Longrightarrow> once_but D w'"
  by (auto simp: once_but_def delivered_def)

lemma claimed_frame: "rp_learner w' = rp_learner w \<Longrightarrow> claimed_by t u d w' = claimed_by t u d w"
  by (simp add: claimed_by_def)

lemma once_replies: "once_but D w \<Longrightarrow> set rs \<subseteq> set (n_replies w) \<Longrightarrow> once_but D (w\<lparr>n_replies := rs\<rparr>)"
  by (rule once_frame) simp_all

lemma hoare_ask_once:
  assumes "\<And>w. once_inv w \<Longrightarrow> once_inv (snd (f w))"
  shows "hoare once_inv (ask f) (\<lambda>_. once_inv) (\<lambda>_. once_inv)"
proof (rule hoare_ask)
  show "once_inv (w\<lparr>n_replies := rs\<rparr>)" if "once_inv w" "Refused \<in> set (n_replies w)" for w rs
    using that by (simp add: once_but_def)
  show "once_inv (snd (f (w\<lparr>n_replies := rs\<rparr>)))" "once_inv (snd (f (w\<lparr>n_replies := rs\<rparr>)))"
    if "once_inv w" "set rs \<subseteq> set (n_replies w)" for w rs
    using assms [OF once_replies [OF that]] by blast+
qed

lemma hoare_quiet:
  assumes "\<And>w. rp_learner (snd (f w)) = rp_learner w" "\<And>w. rp_deliveries (snd (f w)) = rp_deliveries w"
    "\<And>w. n_replies (snd (f w)) = n_replies w"
  shows "hoare once_inv (ask f) (\<lambda>_. once_inv) (\<lambda>_. once_inv)"
  by (rule hoare_ask_once, rule once_frame) (simp_all add: assms)

lemma once_update_learner:
  assumes "once_but D w" "\<And>c. P c \<Longrightarrow> lc_status c = Cl_Claimed" "\<And>c. P c \<Longrightarrow> lc_key (f c) = lc_key c"
    and "\<And>c. P c \<Longrightarrow> lc_status (f c) \<noteq> Cl_Sent"
  shows "once_but D (w\<lparr>rp_learner := sql_update P f (rp_learner w)\<rparr>)"
  using assms(1) report_sent_update [OF assms(2-4), where rows = "rp_learner w"] keyed_update [of lc_key _ P f] assms(3)
  by (auto simp: once_but_def delivered_def)

subsection \<open>The claim\<close>

lemma claim_learner_once:
  assumes inv: "once_inv w" and run: "claim_learner env t ext u d w = (res, w')"
  shows "once_inv w' \<and> (\<forall>x. res = Some x \<longrightarrow> fst x = t \<and> claimed_by t u d w') \<and> n_replies w' = n_replies w"
proof (cases "res = None")
  case True
  then have "w' = w" using run by (auto simp: claim_learner_def Let_def sql_upsert_def split: if_splits option.splits)
  then show ?thesis using inv True by simp
next
  case False
  let ?new = "new_learner_claim (re_platform env) (rp_now w) t ext u d (re_claim_lease_ms env)"
  let ?upd = "\<lambda>old. old\<lparr>lc_platform := lc_platform ?new, lc_ext := lc_ext ?new, lc_status := Cl_Claimed,
                       lc_lease := lc_lease ?new, lc_expires := lc_expires ?new, lc_updated := rp_now w\<rparr>"
  have new: "lc_key ?new = (u, d, ''scheduled'')" "lc_lease ?new = Some t" "lc_status ?new = Cl_Claimed"
    by (simp_all add: new_learner_claim_def lc_key_def)
  have keyed: "keyed lc_key (rp_learner w)" using inv by (simp add: once_but_def)
  obtain rows r where up: "sql_upsert lc_key ?new ?upd (\<lambda>old. lc_status old = Cl_Released) (rp_learner w) = (rows, Some r)"
    and w': "w' = w\<lparr>rp_learner := rows\<rparr>" and res: "res = Some (t, lc_record r)"
    using run False by (auto simp: claim_learner_def Let_def split: if_splits prod.splits)
  have key': "keyed lc_key rows"
    using keyed_upsert [OF keyed, of ?new ?upd "\<lambda>old. lc_status old = Cl_Released"] up by (simp add: lc_key_def)
  have "report_sent rows = report_sent (rp_learner w) \<and> list_ex (owned_learner t u d) rows"
  proof (cases "find (\<lambda>c. lc_key c = lc_key ?new) (rp_learner w)")
    case None
    then have "rows = rp_learner w @ [?new]" using up by (auto simp: sql_upsert_def)
    then show ?thesis using new by (auto simp: report_sent_def owned_learner_def fun_eq_iff)
  next
    case (Some old)
    then have old: "old \<in> set (rp_learner w)" "lc_key old = lc_key ?new" "lc_status old = Cl_Released"
      and rows: "rows = sql_update (\<lambda>c. lc_key c = lc_key ?new) ?upd (rp_learner w)"
      using up find_SomeD [OF Some] by (auto simp: sql_upsert_def split: if_splits)
    have only: "c = old" if "c \<in> set (rp_learner w)" "lc_key c = lc_key ?new" for c
      using keyed_unique [OF keyed that(1) old(1)] that(2) old(2) by simp
    have "lc_key (?upd old) = lc_key ?new" using old(2) by (simp add: lc_key_def)
    then have "owned_learner t u d (?upd old)" using new by (simp add: owned_learner_def)
    moreover have "?upd old \<in> set rows" using old by (force simp: rows set_sql_update)
    moreover have "report_sent rows u' d' = report_sent (rp_learner w) u' d'" for u' d'
    proof -
      have "c \<in> set rows \<and> lc_status c = Cl_Sent \<longleftrightarrow> c \<in> set (rp_learner w) \<and> lc_status c = Cl_Sent" for c
        using only old(3) by (auto simp: rows set_sql_update)
      then show ?thesis by (auto simp: report_sent_def list_ex_iff)
    qed
    ultimately show ?thesis by (auto simp: list_ex_iff fun_eq_iff)
  qed
  then show ?thesis using inv key' res by (auto simp: w' once_but_def delivered_def claimed_by_def)
qed

lemma hoare_try_claim:
  assumes "re_learner env"
  shows "hoare once_inv (try_claim_scheduled_report env t ext user d)
    (\<lambda>res w. once_inv w \<and> (\<forall>u x. user = Some u \<longrightarrow> res = Some x \<longrightarrow> claimed_by (fst x) u d w)) (\<lambda>_. once_inv)"
proof (cases user)
  case None
  have "hoare once_inv (ask (claim_platform env t ext user d)) (\<lambda>_. once_inv) (\<lambda>_. once_inv)"
    by (rule hoare_quiet) (simp_all add: claim_platform_def Let_def split: prod.splits)
  then show ?thesis
    using None by (auto simp: try_claim_scheduled_report_def truthy_id_def bind_c_def return_c_def hoare_def)
next
  case (Some u)
  have run: "once_inv (snd (claim_learner env t ext u d (w\<lparr>n_replies := rs\<rparr>))) \<and>
      (\<forall>x. fst (claim_learner env t ext u d (w\<lparr>n_replies := rs\<rparr>)) = Some x \<longrightarrow>
         claimed_by (fst x) u d (snd (claim_learner env t ext u d (w\<lparr>n_replies := rs\<rparr>))))"
    if "once_inv w" "set rs \<subseteq> set (n_replies w)" for w rs
  proof -
    have "once_inv (w\<lparr>n_replies := rs\<rparr>)" using that by (intro once_frame [OF _ _ _ that(1)]) simp_all
    then show ?thesis using claim_learner_once [OF _ prod.collapse [symmetric]] by blast
  qed
  have "hoare once_inv (ask (claim_learner env t ext u d))
      (\<lambda>res w. once_inv w \<and> (\<forall>x. res = Some x \<longrightarrow> claimed_by (fst x) u d w)) (\<lambda>_. once_inv)"
    by (rule hoare_ask) (use run in \<open>auto simp: once_but_def\<close>)
  then show ?thesis using Some assms by (simp add: try_claim_scheduled_report_def)
qed

subsection \<open>The completion writes\<close>

lemma report_sent_mark:
  assumes "keyed lc_key rows" "list_ex (owned_learner t u d) rows"
    and "\<And>c. lc_key (f c) = lc_key c" "\<And>c. lc_status (f c) = Cl_Sent"
  shows "report_sent (sql_update (owned_learner t u d) f rows) u' d' \<longleftrightarrow> report_sent rows u' d' \<or> (u', d') = (u, d)"
proof
  assume "report_sent (sql_update (owned_learner t u d) f rows) u' d'"
  then show "report_sent rows u' d' \<or> (u', d') = (u, d)"
    using assms(3) by (auto simp: report_sent_def list_ex_iff set_sql_update owned_learner_def)
next
  assume "report_sent rows u' d' \<or> (u', d') = (u, d)"
  then show "report_sent (sql_update (owned_learner t u d) f rows) u' d'"
  proof
    assume "report_sent rows u' d'"
    then obtain c where "c \<in> set rows" "lc_key c = (u', d', ''scheduled'')" "lc_status c = Cl_Sent"
      by (auto simp: report_sent_def list_ex_iff)
    then show ?thesis
      by (auto simp: report_sent_def list_ex_iff set_sql_update owned_learner_def intro!: exI [of _ c])
  next
    assume eq: "(u', d') = (u, d)"
    obtain c where "c \<in> set rows" "owned_learner t u d c" using assms(2) by (auto simp: list_ex_iff)
    then have "f c \<in> set (sql_update (owned_learner t u d) f rows)" "lc_key (f c) = (u, d, ''scheduled'')"
      using assms(3) by (auto simp: set_sql_update owned_learner_def)
    then show ?thesis using assms(4) eq by (auto simp: report_sent_def list_ex_iff)
  qed
qed

lemma hoare_finish_platform: "hoare once_inv (ask (update_platform P g)) (\<lambda>_. once_inv) (\<lambda>_. once_inv)"
  by (rule hoare_quiet) (simp_all add: update_platform_def)

lemma hoare_finish:
  assumes "hoare P (ask (update_learner (owned_learner t u d) f)) (\<lambda>_. once_inv) (\<lambda>_. once_inv)" "re_learner env"
  shows "hoare P (finish_claim env t ext (Some u) d f g) (\<lambda>_. once_inv) (\<lambda>_. once_inv)"
  unfolding finish_claim_def
  by (rule hoare_bind [where R = "\<lambda>_. once_inv"])
    (use assms hoare_finish_platform in \<open>auto intro!: hoare_if hoare_return\<close>)

lemma finish_claim_None:
  "hoare once_inv (finish_claim env t ext None d f g) (\<lambda>_. once_inv) (\<lambda>_. once_inv)"
  using hoare_finish_platform by (simp add: finish_claim_def hoare_def bind_c_def return_c_def)

lemma hoare_release:
  assumes "re_learner env"
  shows "hoare once_inv (release_scheduled_report_claim env t ext user d) (\<lambda>_. once_inv) (\<lambda>_. once_inv)"
proof (cases user)
  case None
  then show ?thesis using finish_claim_None by (simp add: release_scheduled_report_claim_def)
next
  case (Some u)
  have "hoare once_inv (ask (update_learner (owned_learner t u d) (\<lambda>c. c\<lparr>lc_status := Cl_Released\<rparr>))) (\<lambda>_. once_inv) (\<lambda>_. once_inv)"
    by (rule hoare_ask_once, unfold update_learner_def snd_conv, rule once_update_learner)
      (simp_all add: owned_learner_def lc_key_def)
  then show ?thesis unfolding release_scheduled_report_claim_def Some by (rule hoare_finish [OF _ assms])
qed

lemma hoare_mark:
  assumes "re_learner env"
  shows "hoare (\<lambda>w. once_but {(u, d)} w \<and> claimed_by t u d w)
    (mark_scheduled_report_claim_sent env t ext (Some u) d dr dk outcome) (\<lambda>_. once_inv) (\<lambda>_. once_inv)"
proof -
  let ?f = "\<lambda>c. c\<lparr>lc_status := Cl_Sent, lc_record := given dr (lc_record c), lc_dkey := given dk (lc_dkey c),
              lc_outcome := given outcome (lc_outcome c)\<rparr>"
  have step: "once_inv (snd (update_learner (owned_learner t u d) ?f (w\<lparr>n_replies := rs\<rparr>)))"
    if w: "once_but {(u, d)} w" "claimed_by t u d w" "set rs \<subseteq> set (n_replies w)" for w rs
  proof -
    have key: "keyed lc_key (rp_learner w)" using w(1) by (simp add: once_but_def)
    let ?g = "\<lambda>c. (?f c)\<lparr>lc_updated := rp_now w\<rparr>"
    have "report_sent (sql_update (owned_learner t u d) ?g (rp_learner w)) u' d' \<longleftrightarrow>
        report_sent (rp_learner w) u' d' \<or> (u', d') = (u, d)" for u' d'
      using w(2) by (intro report_sent_mark [OF key]) (simp_all add: claimed_by_def lc_key_def)
    moreover have "keyed lc_key (sql_update (owned_learner t u d) ?g (rp_learner w))"
      by (rule keyed_update [OF key]) (simp add: lc_key_def)
    ultimately show ?thesis using w(1,3) by (auto simp: once_but_def delivered_def update_learner_def)
  qed
  have "hoare (\<lambda>w. once_but {(u, d)} w \<and> claimed_by t u d w) (ask (update_learner (owned_learner t u d) ?f))
      (\<lambda>_. once_inv) (\<lambda>_. once_inv)"
    by (rule hoare_ask) (use step in \<open>auto simp: once_but_def\<close>)
  then show ?thesis unfolding mark_scheduled_report_claim_sent_def by (rule hoare_finish [OF _ assms])
qed

subsection \<open>The lifecycle\<close>

definition ready :: "report_mapping \<Rightarrow> report_date \<Rightarrow> string option \<Rightarrow> rp_world \<Rightarrow> bool" where
  "ready mp d lease w \<longleftrightarrow> once_inv w \<and>
     (case mp_user mp of None \<Rightarrow> True | Some u \<Rightarrow> (\<exists>t. lease = Some t \<and> claimed_by t u d w))"

text \<open>Marking is allowed after at most one delivery under the claim.\<close>

definition markable :: "report_mapping \<Rightarrow> report_date \<Rightarrow> string option \<Rightarrow> rp_world \<Rightarrow> bool" where
  "markable mp d lease w \<longleftrightarrow>
     (case mp_user mp of
        None \<Rightarrow> once_inv w | Some u \<Rightarrow> (\<exists>t. lease = Some t \<and> once_but {(u, d)} w \<and> claimed_by t u d w))"

lemma hoare_mark_lease:
  assumes "re_learner env"
  shows "hoare (markable mp d lease)
     (case lease of None \<Rightarrow> return_c True | Some t \<Rightarrow> mark_scheduled_report_claim_sent env t (mp_ext mp) (mp_user mp) d dr dk outcome)
     (\<lambda>_. once_inv) (\<lambda>_. once_inv)"
proof (cases "mp_user mp")
  case None
  then have eq: "markable mp d lease = once_inv" by (simp add: markable_def fun_eq_iff)
  show ?thesis
    unfolding eq None mark_scheduled_report_claim_sent_def
    by (cases lease) (auto intro!: hoare_return finish_claim_None)
next
  case (Some u)
  show ?thesis
  proof (cases lease)
    case (Some t)
    then show ?thesis
      using hoare_mark [OF assms, of u d t "mp_ext mp" dr dk outcome] \<open>mp_user mp = Some u\<close>
      by (auto simp: markable_def elim!: hoare_pre)
  qed (use Some in \<open>auto simp: hoare_def markable_def\<close>)
qed

lemma ready_once: "ready mp d lease w \<Longrightarrow> once_inv w"
  by (simp add: ready_def)

lemma once_but_mono: "once_inv w \<Longrightarrow> once_but D w"
  unfolding once_but_def by (fastforce split: if_splits)

lemma ready_mark: "ready mp d lease w \<Longrightarrow> markable mp d lease w"
  by (auto simp: ready_def markable_def once_but_mono split: option.splits)

lemma once_bound: "once_inv w \<Longrightarrow> delivered u d w \<le> (if report_sent (rp_learner w) u d then 1 else 0)"
  unfolding once_but_def by (metis empty_iff)

lemma ready_delivered:
  assumes "ready mp d lease w"
  shows "markable mp d lease (w\<lparr>rp_deliveries := (mp_user mp, ext, d) # rp_deliveries w\<rparr>)"
proof (cases "mp_user mp")
  case None
  then show ?thesis using assms by (simp add: ready_def markable_def once_but_def delivered_def)
next
  case (Some u)
  then obtain t where t: "lease = Some t" "claimed_by t u d w" and inv: "once_inv w" using assms by (auto simp: ready_def)
  then have "\<not> report_sent (rp_learner w) u d"
    using claimed_not_sent by (auto simp: claimed_by_def once_but_def)
  then have none: "delivered u d w = 0" using once_bound [OF inv, of u d] by simp
  let ?w = "w\<lparr>rp_deliveries := (Some u, ext, d) # rp_deliveries w\<rparr>"
  have more: "delivered u' d' ?w = delivered u' d' w + (if (u', d') = (u, d) then 1 else 0)" for u' d'
    by (simp add: delivered_def)
  have "delivered u' d' ?w \<le> (if report_sent (rp_learner w) u' d' \<or> (u', d') \<in> {(u, d)} then 1 else 0)" for u' d'
  proof (cases "(u', d') = (u, d)")
    case True
    then show ?thesis using more [of u' d'] none by simp
  next
    case False
    then have "delivered u' d' ?w = delivered u' d' w" using more [of u' d'] by (simp only: if_False add_0_right)
    then show ?thesis using once_bound [OF inv, of u' d'] False by (auto split: if_splits)
  qed
  then have "once_but {(u, d)} ?w" using inv by (simp add: once_but_def)
  then show ?thesis using Some t claimed_frame [of "w\<lparr>rp_deliveries := (Some u, ext, d) # rp_deliveries w\<rparr>" w]
    by (simp add: markable_def)
qed

lemma hoare_date_call:
  "hoare once_inv (ask f) (\<lambda>_. once_inv) (\<lambda>_. once_inv) \<Longrightarrow> hoare once_inv (date_call x f) (\<lambda>_. once_inv) (\<lambda>_. once_inv)"
  by (auto simp: date_call_def intro!: hoare_throw)

text \<open>The outbox and the guards do not touch the claims.\<close>

lemma hoare_outbox: "hoare once_inv (mark_outbox_sent env mp opts) (\<lambda>_. once_inv) (\<lambda>_. once_inv)"
  unfolding mark_outbox_sent_def mark_sent_by_external_user_exam_date_def
  by (auto intro!: hoare_return hoare_date_call hoare_quiet simp: update_jobs_def split: option.splits)

lemma hoare_record_failure:
  "hoare once_inv (record_retryable_failure env ext user exam fst_date mx next_at err cause) (\<lambda>_. once_inv) (\<lambda>_. once_inv)"
  unfolding record_retryable_failure_def
  by (rule hoare_bind [where R = "\<lambda>_. once_inv"])
    (auto intro!: hoare_return hoare_date_call hoare_quiet simp: Let_def split: option.splits)

lemma hoare_queue_retry: "hoare once_inv (queue_retry env mp opts err cause) (\<lambda>_. once_inv) (\<lambda>_. once_inv)"
  unfolding queue_retry_def
  by (intro hoare_get hoare_bind [where R = "\<lambda>_. once_inv"] hoare_pre [OF hoare_record_failure] hoare_return) auto

lemma hoare_already_sent: "hoare once_inv (already_sent env mp opts) (\<lambda>_. once_inv) (\<lambda>_. once_inv)"
  unfolding already_sent_def has_sent_scheduled_report_on_def has_any_platform_sent_report_on_def
  by (intro hoare_bind [where R = "\<lambda>_. once_inv"] hoare_if hoare_return hoare_quiet hoare_outbox) simp_all

lemma hoare_release_lease:
  "re_learner env \<Longrightarrow> hoare once_inv (release_if_claimed env mp opts lease) (\<lambda>_. once_inv) (\<lambda>_. once_inv)"
  unfolding release_if_claimed_def
  by (cases lease) (auto intro!: hoare_return hoare_bind [where R = "\<lambda>_. once_inv"] hoare_release)

lemma hoare_after_release:
  assumes "re_learner env" "hoare once_inv m (\<lambda>_. once_inv) (\<lambda>_. once_inv)"
  shows "hoare once_inv (bind_c (release_if_claimed env mp opts lease) (\<lambda>_. m)) (\<lambda>_. once_inv) (\<lambda>_. once_inv)"
  using hoare_release_lease [OF assms(1)] assms(2) by (rule hoare_bind)

lemma hoare_deliver:
  assumes "re_learner env"
  shows "hoare (ready mp (cs_date opts) lease) (deliver_report env mp opts lease delivery) (\<lambda>_. once_inv) (\<lambda>_. once_inv)"
proof (cases delivery)
  case (Inl e)
  then show ?thesis by (auto simp: deliver_report_def ready_def intro!: hoare_throw)
next
  case (Inr r)
  have ok: "hoare (ready mp (cs_date opts) lease)
      (bind_c (local_c (\<lambda>w. w\<lparr>rp_deliveries := (mp_user mp, mp_ext mp, cs_date opts) # rp_deliveries w\<rparr>)) (\<lambda>_.
       bind_c (case lease of None \<Rightarrow> return_c True | Some t \<Rightarrow>
          mark_scheduled_report_claim_sent env t (mp_ext mp) (mp_user mp) (cs_date opts) dr dk outcome) (\<lambda>_.
       bind_c (mark_outbox_sent env mp opts) (\<lambda>_. return_c res))))
      (\<lambda>_. once_inv) (\<lambda>_. once_inv)" for dr dk outcome res
    by (rule hoare_bind [OF hoare_local [where Q = "\<lambda>_. markable mp (cs_date opts) lease"]], erule ready_delivered)
      (intro hoare_bind [OF hoare_mark_lease [OF assms]] hoare_bind [OF hoare_outbox] hoare_return, assumption)
  have limited: "hoare (ready mp (cs_date opts) lease)
      (bind_c (case lease of None \<Rightarrow> return_c True | Some t \<Rightarrow>
          mark_scheduled_report_claim_sent env t (mp_ext mp) (mp_user mp) (cs_date opts) dr dk outcome) (\<lambda>_. return_c res))
      (\<lambda>_. once_inv) (\<lambda>_. once_inv)" for dr dk outcome res
    by (rule hoare_bind [OF hoare_pre [OF hoare_mark_lease [OF assms] ready_mark]], assumption) (rule hoare_return)
  have rest: "hoare (ready mp (cs_date opts) lease) (bind_c (release_if_claimed env mp opts lease) (\<lambda>_.
        if a then queue_retry env mp opts err None
        else if b then return_c r1 else if c then return_c r2 else return_c r3))
      (\<lambda>_. once_inv) (\<lambda>_. once_inv)" for a b c err r1 r2 r3
    by (rule hoare_pre [OF hoare_after_release [OF assms]])
      (auto intro!: hoare_if hoare_return hoare_queue_retry dest: ready_once)
  show ?thesis
    unfolding deliver_report_def Inr sum.case by (intro hoare_if ok limited rest)
qed

lemma hoare_error_end:
  assumes "re_learner env"
  shows "hoare once_inv (bind_c (release_if_claimed env mp opts lease) (\<lambda>_.
       if a then queue_retry env mp opts err cause else return_c r)) (\<lambda>_. once_inv) (\<lambda>_. once_inv)"
  by (intro hoare_after_release [OF assms] hoare_if hoare_queue_retry hoare_return)

lemma hoare_generate_and_send:
  assumes "re_learner env"
  shows "hoare (ready mp (cs_date opts) lease) (generate_and_send env mp opts lease delivery) (\<lambda>_. once_inv) (\<lambda>_. once_inv)"
proof -
  have gen: "hoare (ready mp (cs_date opts) lease) (generation_failed env mp opts lease e) (\<lambda>_. once_inv) (\<lambda>_. once_inv)" for e
    unfolding generation_failed_def Let_def by (rule hoare_pre [OF hoare_error_end [OF assms] ready_once])
  have "hoare (ready mp (cs_date opts) lease)
      (catch_c (deliver_report env mp opts lease delivery) (delivery_threw env mp opts lease)) (\<lambda>_. once_inv) (\<lambda>_. once_inv)"
    using hoare_deliver [OF assms] by (rule hoare_catch) (unfold delivery_threw_def Let_def, rule hoare_error_end [OF assms])
  then show ?thesis using gen by (auto simp: generate_and_send_def split: option.splits sum.splits)
qed

lemma hoare_claim_and_send:
  assumes "re_learner env" "cs_skip opts"
  shows "hoare once_inv (claim_and_send env t mp opts delivery) (\<lambda>_. once_inv) (\<lambda>_. once_inv)"
proof -
  let ?d = "cs_date opts"
  let ?Q = "\<lambda>res w. once_inv w \<and> (\<forall>u x. mp_user mp = Some u \<longrightarrow> res = Some x \<longrightarrow> claimed_by (fst x) u ?d w)"
  have mark: "hoare (ready mp ?d (Some lease)) (mark_scheduled_report_claim_sent env lease (mp_ext mp) (mp_user mp) ?d dr dk oc)
      (\<lambda>_. once_inv) (\<lambda>_. once_inv)" for lease dr dk oc
    using hoare_pre [OF hoare_mark_lease [OF assms(1), of mp ?d "Some lease" dr dk oc] ready_mark] by simp
  have go: "hoare (?Q (Some (lease, rec)))
      (if lease = [] then return_c r1
       else if rec \<noteq> None \<and> rec \<noteq> Some []
       then bind_c (mark_scheduled_report_claim_sent env lease (mp_ext mp) (mp_user mp) ?d None None None) (\<lambda>_. return_c r2)
       else generate_and_send env mp opts (Some lease) delivery) (\<lambda>_. once_inv) (\<lambda>_. once_inv)" for lease rec r1 r2
    by (rule hoare_pre [where P = "ready mp ?d (Some lease)"])
      (auto simp: ready_def split: option.splits
        intro!: hoare_if hoare_return hoare_bind [OF mark] hoare_generate_and_send assms(1))
  have claim: "hoare once_inv
      (bind_c (try_claim_scheduled_report env t (mp_ext mp) (mp_user mp) ?d) (\<lambda>claimed.
         case claimed of None \<Rightarrow> return_c r0
         | Some (lease, record) \<Rightarrow>
            if lease = [] then return_c r1
            else if record \<noteq> None \<and> record \<noteq> Some []
            then bind_c (mark_scheduled_report_claim_sent env lease (mp_ext mp) (mp_user mp) ?d None None None) (\<lambda>_. return_c r2)
            else generate_and_send env mp opts (Some lease) delivery)) (\<lambda>_. once_inv) (\<lambda>_. once_inv)" for r0 r1 r2
  proof (rule hoare_bind [OF hoare_try_claim [OF assms(1)]])
    fix a
    show "hoare (?Q a) (case a of None \<Rightarrow> return_c r0 | Some (lease, record) \<Rightarrow>
            if lease = [] then return_c r1
            else if record \<noteq> None \<and> record \<noteq> Some []
            then bind_c (mark_scheduled_report_claim_sent env lease (mp_ext mp) (mp_user mp) ?d None None None) (\<lambda>_. return_c r2)
            else generate_and_send env mp opts (Some lease) delivery) (\<lambda>_. once_inv) (\<lambda>_. once_inv)"
    proof (cases a)
      case (Some x)
      obtain lease rec where x: "x = (lease, rec)" by (cases x)
      show ?thesis unfolding Some x option.case prod.case by (rule go)
    qed (auto intro!: hoare_return)
  qed
  show ?thesis
    unfolding claim_and_send_def using assms(2)
    by (intro hoare_if hoare_return hoare_bind [OF hoare_already_sent] claim) simp_all
qed

lemma hoare_stale_reset: "hoare once_inv (handle_stale_reset env locked) (\<lambda>_. once_inv) (\<lambda>_. once_inv)"
proof -
  let ?Q = "\<lambda>now older_than c. lc_status c = Cl_Claimed \<and> expired_at now older_than (lc_expires c) (lc_updated c)"
  let ?f = "\<lambda>now c. c\<lparr>lc_status := Cl_Released, lc_updated := now\<rparr>"
  have expire: "hoare once_inv (ask (\<lambda>w. (n + sql_count (?Q now older_than) (rp_learner w),
        w\<lparr>rp_learner := sql_update (?Q now older_than) (?f now) (rp_learner w)\<rparr>))) (\<lambda>_. once_inv) (\<lambda>_. once_inv)"
    for n now older_than
    by (rule hoare_ask_once, unfold snd_conv, rule once_update_learner) (simp_all add: lc_key_def)
  have rel: "hoare once_inv (release_expired_scheduled_report_claims env now older_than) (\<lambda>_. once_inv) (\<lambda>_. once_inv)" for now older_than
    unfolding release_expired_scheduled_report_claims_def Let_def
    by (intro hoare_bind [where R = "\<lambda>_. once_inv"] hoare_quiet hoare_if hoare_return expire) simp_all
  have "hoare (\<lambda>w. once_inv w \<and> w = w0) (bind_c (release_expired_scheduled_report_claims env now older_than)
      (\<lambda>n. return_c (Some n))) (\<lambda>_. once_inv) (\<lambda>_. once_inv)" for w0 now older_than
    by (rule hoare_bind [OF hoare_pre [OF rel]]) (simp, rule hoare_return)
  then show ?thesis
    unfolding handle_stale_reset_def by (intro hoare_if hoare_get hoare_return) simp_all
qed

text \<open>All platforms run sends and stale resets over the same tables.\<close>

inductive rp_reach :: "rp_world \<Rightarrow> bool" where
  rp_start: "rp_reach \<lparr>n_replies = [], rp_now = 0, rp_claims = legacy, rp_learner = [], rp_jobs = [], rp_deliveries = []\<rparr>"
| rp_send: "rp_reach w \<Longrightarrow> re_learner env \<Longrightarrow> cs_skip opts \<Longrightarrow>
    claim_and_send env t mp opts delivery w = (res, w') \<Longrightarrow> rp_reach w'"
| rp_reset: "rp_reach w \<Longrightarrow> handle_stale_reset env locked w = (n, w') \<Longrightarrow> rp_reach w'"
| rp_time: "rp_reach w \<Longrightarrow> Refused \<notin> set rs \<Longrightarrow> rp_reach (w\<lparr>n_replies := rs, rp_now := now\<rparr>)"

lemma rp_reach_once: "rp_reach w \<Longrightarrow> once_inv w"
proof (induction rule: rp_reach.induct)
  case (rp_start legacy)
  then show ?case by (simp add: once_but_def delivered_def)
next
  case (rp_send w env opts t mp delivery res w')
  then show ?case using hoareD [OF hoare_claim_and_send _ rp_send.hyps(4)] by (auto split: sum.splits)
next
  case (rp_reset w env locked n w')
  then show ?case using hoareD [OF hoare_stale_reset _ rp_reset.hyps(2)] by (auto split: sum.splits)
next
  case (rp_time w rs now)
  then show ?case by (simp add: once_but_def delivered_def)
qed


section \<open>Concrete runs\<close>

definition sample_env :: "string \<Rightarrow> rp_env" where
  "sample_env platform = \<lparr>re_platform = platform, re_learner = True, re_jobs = True, re_claim_lease_ms = 7200000,
     re_max_retries = 3, re_backoff_ms = 900000\<rparr>"

definition sample_mapping :: "string \<Rightarrow> report_mapping" where
  "sample_mapping platform = \<lparr>mp_platform = platform, mp_ext = ''e'', mp_user = Some 7\<rparr>"

definition sample_send :: send_options where
  "sample_send = \<lparr>cs_date = ''2026-01-05'', cs_skip = True, cs_exam = Some ''2026-02-01'', cs_allow = False,
     cs_classify = None, cs_generate = Some (Inr ())\<rparr>"

definition sample_ok :: "string + delivery_result" where
  "sample_ok = Inr \<lparr>dr_ok = True, dr_reason = None, dr_outcome = Some Sent\<rparr>"

definition sample_world :: rp_world where
  "sample_world = \<lparr>n_replies = [], rp_now = 0, rp_claims = [], rp_learner = [], rp_jobs = [], rp_deliveries = []\<rparr>"

definition sample_run :: "string \<Rightarrow> rp_world \<Rightarrow> (string + claim_result) \<times> rp_world" where
  "sample_run platform = claim_and_send (sample_env platform) (''t-'' @ platform) (sample_mapping platform) sample_send sample_ok"

definition sample_after :: rp_world where
  "sample_after = snd (sample_run ''zalo'' (snd (sample_run ''discord'' sample_world)))"

lemma sample_after_reach: "rp_reach sample_after"
proof -
  have "rp_reach sample_world" unfolding sample_world_def by (rule rp_start)
  then have "rp_reach (snd (sample_run ''discord'' sample_world))"
    unfolding sample_run_def
    by (rule rp_send [OF _ _ _ prod.collapse [symmetric]]) (simp_all add: sample_env_def sample_send_def)
  then show ?thesis
    unfolding sample_after_def sample_run_def
    by (rule rp_send [OF _ _ _ prod.collapse [symmetric]]) (simp_all add: sample_env_def sample_send_def)
qed


theorem claim_and_send_one_outcome_witness:
  "\<exists>r w'. sample_run ''zalo'' sample_world = (Inr r, w') \<and> cr_sent r = 1 \<and> one_outcome r"
proof -
  have "fst (sample_run ''zalo'' sample_world) = Inr (zero_result\<lparr>cr_sent := 1\<rparr>)" by code_simp
  then obtain w' where run: "sample_run ''zalo'' sample_world = (Inr (zero_result\<lparr>cr_sent := 1\<rparr>), w')"
    by (metis prod.collapse)
  then show ?thesis using claim_and_send_one_outcome [OF run [unfolded sample_run_def]] by auto
qed

text \<open>When the write that marks the claim sent is refused after the report was delivered, the
  exception path releases the claim, and the next run delivers the report of the same learner and
  date again.\<close>

theorem refused_mark_delivers_twice:
  "let first = sample_run ''zalo'' (sample_world\<lparr>n_replies := [Replied, Replied, Replied, Replied, Replied, Refused]\<rparr>);
       again = sample_run ''zalo'' (snd first)
   in delivered 7 ''2026-01-05'' (snd first) = 1 \<and> fst again = Inr (zero_result\<lparr>cr_sent := 1\<rparr>) \<and>
      delivered 7 ''2026-01-05'' (snd again) = 2"
  by code_simp

end
