(* ===== verification/Report_Outbox.thy ===== *)
theory Report_Outbox
  imports Report_Claims Webhook_Inbox
begin

text \<open>
  The retry dispatcher of the report outbox, as the Discord bot runs it
  (\<open>discord-report-retry-dispatch.service.ts\<close>): every due job is claimed, the account link is
  looked up, the report goes through \<open>claim_and_send\<close> again, and the job is parked as sent or
  failed. The link lookup is a parameter (\<open>None\<close>: no link row; the state and the learner id
  otherwise); each job brings the tokens, the jitter and the outcome of generation and delivery
  of its own run. The tracing span, the leader election and the log lines are left out.
\<close>

datatype link_state = Link_Active | Link_Unknown | Link_Other

type_synonym account_link = "link_state option \<times> user_id option"

datatype retry_detail = Rd_Sent | Rd_Retried | Rd_Window_Closed | Rd_Failed | Rd_Claim_Skipped
datatype item_outcome = It_Succeeded | It_Failed | It_Skipped

record retry_counts =
  rt_sent :: nat
  rt_queued :: nat
  rt_failed :: nat
  rt_window_closed :: nat
  rt_failures :: "(ext_id \<times> string) list"

text \<open>What the environment does in the run of one job.\<close>

record job_run =
  jr_job_token :: string
  jr_claim_token :: string
  jr_jitter :: rat
  jr_link :: "string + account_link option"
  jr_generate :: "string + unit"
  jr_delivery :: "string + delivery_result"

definition report_retry_at :: "int \<Rightarrow> rat \<Rightarrow> millis \<Rightarrow> millis" where
  "report_retry_at backoff_minutes r now = \<lfloor>of_int now + jittered_delay_ms (backoff_minutes * 60000) r\<rfloor>"

text \<open>\<open>readEnvPositiveInt\<close> and the two constants of the file.\<close>

definition retry_backoff_minutes :: int where
  "retry_backoff_minutes = 15"

definition deferred_error :: string where
  "deferred_error = ''Report generation deferred (upstream retryable)''"

definition retry_options :: "(string \<Rightarrow> classified_error) \<Rightarrow> send_job \<Rightarrow> report_date \<Rightarrow> job_run \<Rightarrow> send_options" where
  "retry_options classify job date run =
     \<lparr>cs_date = date, cs_skip = True, cs_exam = Some (sj_exam job), cs_allow = False,
      cs_classify = Some classify, cs_generate = Some (jr_generate run)\<rparr>"

type_synonym job_report = "item_outcome \<times> retry_detail \<times> (retry_counts \<Rightarrow> retry_counts)"

definition bump_sent :: "retry_counts \<Rightarrow> retry_counts" where
  "bump_sent c = c\<lparr>rt_sent := rt_sent c + 1\<rparr>"

definition bump_queued :: "retry_counts \<Rightarrow> retry_counts" where
  "bump_queued c = c\<lparr>rt_queued := rt_queued c + 1\<rparr>"

definition bump_failed :: "(ext_id \<times> string) list \<Rightarrow> retry_counts \<Rightarrow> retry_counts" where
  "bump_failed fs c = c\<lparr>rt_failed := rt_failed c + 1, rt_failures := rt_failures c @ fs\<rparr>"

definition bump_window :: "retry_counts \<Rightarrow> retry_counts" where
  "bump_window c = c\<lparr>rt_window_closed := rt_window_closed c + 1\<rparr>"

text \<open>No usable link: an unknown state is retried, a missing link ends the job.\<close>

definition park_unlinked :: "rp_env \<Rightarrow> send_job \<Rightarrow> string \<Rightarrow> job_run \<Rightarrow> account_link option \<Rightarrow> (rp_world, job_report) comp" where
  "park_unlinked env job lease run link =
     (if link \<noteq> None \<and> fst (the link) = Some Link_Unknown then
        get_c (\<lambda>w. bind_c (mark_job_failed env (sj_id job) (Some lease) ''WISPACE link status temporarily unknown''
               (sj_retries job + 1) (Some (report_retry_at retry_backoff_minutes (jr_jitter run) (rp_now w)))
               (sj_retries job + 1 \<ge> sj_max job) None) (\<lambda>_.
          return_c (It_Succeeded, Rd_Retried, if sj_retries job + 1 < sj_max job then bump_queued else bump_failed [])))
      else
        bind_c (mark_job_failed env (sj_id job) (Some lease) ''No active Discord account link'' (sj_retries job + 1) None True None)
          (\<lambda>_. return_c (It_Succeeded, Rd_Failed, bump_failed [])))"

text \<open>Parking the job by the outcome of the send.\<close>

definition park_job :: "rp_env \<Rightarrow> send_job \<Rightarrow> string \<Rightarrow> job_run \<Rightarrow> claim_result \<Rightarrow> (rp_world, job_report) comp" where
  "park_job env job lease run r =
     get_c (\<lambda>w.
       let retry_at = report_retry_at retry_backoff_minutes (jr_jitter run) (rp_now w);
           n = sj_retries job + 1;
           terminal = (n \<ge> sj_max job);
           failed = mark_job_failed env (sj_id job) (Some lease)
       in if cr_sent r > 0 \<or> cr_skipped r > 0 then
            bind_c (mark_job_sent env (sj_id job) lease) (\<lambda>_. return_c (It_Succeeded, Rd_Sent, bump_sent))
          else if cr_claim_skipped r > 0 then
            bind_c (failed ''Report claim exists for today'' (sj_retries job) (Some retry_at) False None)
              (\<lambda>_. return_c (It_Succeeded, Rd_Retried, bump_queued))
          else if cr_deferred r > 0 then
            bind_c (failed deferred_error n (if terminal then None else Some retry_at) terminal (cr_cause r)) (\<lambda>_.
              return_c (It_Succeeded, if terminal then Rd_Failed else Rd_Retried,
                if terminal then bump_failed [(sj_ext job, deferred_error)] else bump_queued))
          else if cr_window_closed r > 0 then
            bind_c (failed ''Exam window closed'' (sj_max job) None True None)
              (\<lambda>_. return_c (It_Succeeded, Rd_Window_Closed, bump_window))
          else if cr_failures r \<noteq> [] then
            (let err = snd (hd (cr_failures r));
                 limited = (err = ''outbound_rate_limited'')
             in bind_c (failed err n (if limited then None else Some retry_at) (limited \<or> terminal) None) (\<lambda>_.
                  return_c (It_Succeeded, if limited \<or> terminal then Rd_Failed else Rd_Retried,
                    if limited \<or> terminal then bump_failed [(sj_ext job, err)] else bump_queued)))
          else return_c (It_Skipped, Rd_Claim_Skipped, id))"

definition run_claimed_job ::
    "rp_env \<Rightarrow> (string \<Rightarrow> classified_error) \<Rightarrow> send_job \<Rightarrow> send_job \<Rightarrow> string \<Rightarrow> job_run \<Rightarrow> (rp_world, job_report) comp" where
  "run_claimed_job env classify job claimed lease run =
     (case jr_link run of
        Inl e \<Rightarrow> throw_c e
      | Inr link \<Rightarrow>
          if link = None \<or> (fst (the link) \<noteq> None \<and> fst (the link) \<noteq> Some Link_Active)
          then park_unlinked env job lease run link
          else
            bind_c (claim_and_send env (jr_claim_token run)
                \<lparr>mp_platform = re_platform env, mp_ext = sj_ext job, mp_user = snd (the link)\<rparr>
                (retry_options classify job (sj_first claimed) run) (jr_delivery run))
              (park_job env job lease run))"

text \<open>The \<open>catch\<close> of the loop: park the claimed job as failed; that write may fail too.\<close>

definition job_threw :: "rp_env \<Rightarrow> send_job \<Rightarrow> send_job option \<Rightarrow> string \<Rightarrow> job_run \<Rightarrow> string \<Rightarrow> (rp_world, job_report) comp" where
  "job_threw env job claimed lease run e =
     bind_c (case claimed of
               Some c \<Rightarrow>
                 if lease = [] then return_c ()
                 else
                   get_c (\<lambda>w. catch_c (mark_job_failed env (sj_id c) (Some lease) e (sj_retries c + 1)
                          (if sj_retries c + 1 \<ge> sj_max c then None
                           else Some (report_retry_at retry_backoff_minutes (jr_jitter run) (rp_now w)))
                          (sj_retries c + 1 \<ge> sj_max c) None) (\<lambda>_. return_c ()))
             | None \<Rightarrow> return_c ()) (\<lambda>_.
       return_c (It_Failed, Rd_Failed, bump_failed [(sj_ext job, e)]))"

definition dispatch_job ::
    "rp_env \<Rightarrow> (string \<Rightarrow> classified_error) \<Rightarrow> int \<Rightarrow> send_job \<Rightarrow> job_run \<Rightarrow> (rp_world, job_report) comp" where
  "dispatch_job env classify lease_ms job run w =
     (case claim_job env (jr_job_token run) (sj_id job) lease_ms w of
        (Inl e, w1) \<Rightarrow> job_threw env job None [] run e w1
      | (Inr None, w1) \<Rightarrow> (Inr (It_Skipped, Rd_Claim_Skipped, id), w1)
      | (Inr (Some c), w1) \<Rightarrow>
          (let lease = (case sj_lease c of Some t \<Rightarrow> t | None \<Rightarrow> [])
           in catch_c (run_claimed_job env classify job c lease run) (job_threw env job (Some c) lease run) w1))"

fun dispatch_jobs ::
    "rp_env \<Rightarrow> (string \<Rightarrow> classified_error) \<Rightarrow> int \<Rightarrow> (send_job \<Rightarrow> job_run) \<Rightarrow> send_job list \<Rightarrow>
     retry_counts \<times> (item_outcome \<times> retry_detail) list \<Rightarrow> (rp_world, retry_counts \<times> (item_outcome \<times> retry_detail) list) comp" where
  "dispatch_jobs env classify lease_ms runs [] acc = return_c acc"
| "dispatch_jobs env classify lease_ms runs (job # jobs) acc =
     bind_c (dispatch_job env classify lease_ms job (runs job)) (\<lambda>(out, detail, bump).
       dispatch_jobs env classify lease_ms runs jobs (bump (fst acc), snd acc @ [(out, detail)]))"

definition dispatch_due_report_retries ::
    "rp_env \<Rightarrow> (string \<Rightarrow> classified_error) \<Rightarrow> int \<Rightarrow> (send_job \<Rightarrow> job_run) \<Rightarrow>
     (rp_world, retry_counts \<times> (item_outcome \<times> retry_detail) list) comp" where
  "dispatch_due_report_retries env classify lease_ms runs =
     get_c (\<lambda>w.
       bind_c (reset_stuck_processing_jobs env (rp_now w - 2 * lease_ms)) (\<lambda>_.
       bind_c (find_due_jobs env (rp_now w) 50) (\<lambda>due.
         dispatch_jobs env classify lease_ms runs due
           (\<lparr>rt_sent = 0, rt_queued = 0, rt_failed = 0, rt_window_closed = 0, rt_failures = []\<rparr>, []))))"

section \<open>A tick handles every due job\<close>

definition handled :: "retry_counts \<Rightarrow> nat" where
  "handled c = rt_sent c + rt_queued c + rt_failed c + rt_window_closed c"

text \<open>A report whose counter update matches its detail.\<close>

definition fair_report :: "job_report \<Rightarrow> bool" where
  "fair_report rep \<longleftrightarrow>
     (\<forall>c. handled (snd (snd rep) c) = handled c + (if fst (snd rep) = Rd_Claim_Skipped then 0 else 1))"

lemma fair_bumps [simp]:
  "fair_report (out, Rd_Claim_Skipped, id)" "fair_report (out, Rd_Sent, bump_sent)"
  "fair_report (out, Rd_Window_Closed, bump_window)"
  "d \<noteq> Rd_Claim_Skipped \<Longrightarrow> fair_report (out, d, bump_queued)"
  "d \<noteq> Rd_Claim_Skipped \<Longrightarrow> fair_report (out, d, bump_failed fs)"
  by (simp_all add: fair_report_def handled_def bump_sent_def bump_window_def bump_queued_def bump_failed_def)

abbreviation fair :: "(rp_world, job_report) comp \<Rightarrow> bool" where
  "fair m \<equiv> hoare (\<lambda>_. True) m (\<lambda>rep _. fair_report rep) (\<lambda>_ _. True)"

lemma fair_bind: "(\<And>a. fair (k a)) \<Longrightarrow> fair (bind_c m k)"
  by (rule hoare_bind [OF hoare_any])

lemma fair_get: "(\<And>w. fair (k w)) \<Longrightarrow> fair (get_c k)"
  by (auto simp: hoare_def get_c_def)

lemma fair_return: "fair_report rep \<Longrightarrow> fair (return_c rep)"
  by (rule hoare_return)

lemmas fair_rules = fair_bind fair_get fair_return hoare_if

lemma fair_run_claimed_job: "fair (run_claimed_job env classify job claimed lease run)"
proof -
  have park: "fair (park_job env job lease run r)" for r
    unfolding park_job_def Let_def by (intro fair_rules) (simp_all split: if_splits)
  have "fair (park_unlinked env job lease run link)" for link
    unfolding park_unlinked_def by (intro fair_rules) simp_all
  then show ?thesis
    unfolding run_claimed_job_def by (cases "jr_link run") (auto intro!: hoare_throw hoare_if fair_bind park)
qed

lemma job_threw_total: "\<exists>rep w'. job_threw env job claimed lease run e w = (Inr rep, w') \<and> fair_report rep"
  by (auto simp: job_threw_def comp_defs split: option.splits sum.splits prod.splits)

lemma dispatch_job_total: "\<exists>rep w'. dispatch_job env classify lease_ms job run w = (Inr rep, w') \<and> fair_report rep"
proof -
  obtain res w1 where claim: "claim_job env (jr_job_token run) (sj_id job) lease_ms w = (res, w1)" by force
  show ?thesis
  proof (cases res)
    case (Inl e)
    then show ?thesis using claim job_threw_total [of env job None "[]" run e w1] by (simp add: dispatch_job_def)
  next
    case (Inr c)
    show ?thesis
    proof (cases c)
      case None
      then show ?thesis using claim Inr by (simp add: dispatch_job_def)
    next
      case (Some j)
      let ?lease = "case sj_lease j of Some t \<Rightarrow> t | None \<Rightarrow> []"
      obtain out w2 where body: "run_claimed_job env classify job j ?lease run w1 = (out, w2)" by force
      show ?thesis
      proof (cases out)
        case (Inl e)
        then show ?thesis
          using claim Inr Some body job_threw_total [of env job "Some j" ?lease run e w2]
          by (simp add: dispatch_job_def catch_c_def Let_def)
      next
        case (Inr rep)
        then show ?thesis
          using claim \<open>res = Inr c\<close> Some body hoareD [OF fair_run_claimed_job TrueI body]
          by (simp add: dispatch_job_def catch_c_def Let_def)
      qed
    qed
  qed
qed

text \<open>The retry tick isolates the jobs from each other: whatever calls fail while a job is
  processed, the loop goes on, returns one item per due job, and its counters add up to the items
  that were not skipped because another worker holds the job.\<close>

theorem retry_tick_isolates_jobs:
  "\<exists>counts items w'. dispatch_jobs env classify lease_ms runs due acc w = (Inr (counts, snd acc @ items), w') \<and>
     length items = length due \<and>
     handled counts = handled (fst acc) + length (filter (\<lambda>i. snd i \<noteq> Rd_Claim_Skipped) items)"
proof (induction due arbitrary: acc w)
  case Nil
  then show ?case by (cases acc) (simp add: return_c_def)
next
  case (Cons job due)
  obtain out d bump w1 where step: "dispatch_job env classify lease_ms job (runs job) w = (Inr (out, d, bump), w1)"
    and fair: "fair_report (out, d, bump)"
    using dispatch_job_total [of env classify lease_ms job "runs job" w] by auto
  obtain counts items w' where rest: "dispatch_jobs env classify lease_ms runs due (bump (fst acc), snd acc @ [(out, d)]) w1 =
        (Inr (counts, (snd acc @ [(out, d)]) @ items), w')" "length items = length due"
      "handled counts = handled (bump (fst acc)) + length (filter (\<lambda>i. snd i \<noteq> Rd_Claim_Skipped) items)"
    using Cons.IH [of "(bump (fst acc), snd acc @ [(out, d)])" w1] by auto
  have "handled (bump (fst acc)) = handled (fst acc) + (if d = Rd_Claim_Skipped then 0 else 1)"
    using fair by (simp add: fair_report_def)
  then show ?case
    using step rest by (intro exI [of _ counts] exI [of _ "(out, d) # items"] exI [of _ w']) (simp add: bind_c_def)
qed

section \<open>A claimed job is parked\<close>

text \<open>The database answers, and the row with this id belongs to the lease.\<close>

definition holds_job :: "rp_env \<Rightarrow> nat \<Rightarrow> string \<Rightarrow> rp_world \<Rightarrow> bool" where
  "holds_job env i t w \<longleftrightarrow> n_replies w = [] \<and> list_ex (\<lambda>j. sj_id j = i) (rp_jobs w) \<and>
     (\<forall>j\<in>set (rp_jobs w). sj_id j = i \<longrightarrow> sj_platform j = re_platform env \<and> sj_lease j = Some t)"

lemma holds_job_update:
  assumes "holds_job env i t w"
    and f: "\<And>j. sj_id (f j) = sj_id j" "\<And>j. sj_platform (f j) = sj_platform j" "\<And>j. sj_lease (f j) = sj_lease j"
  shows "holds_job env i t (w\<lparr>rp_jobs := sql_update P f (rp_jobs w)\<rparr>)"
proof -
  define g where "g j = (if P j then f j else j)" for j
  have g: "sj_id (g j) = sj_id j" "sj_platform (g j) = sj_platform j" "sj_lease (g j) = sj_lease j" for j
    by (simp_all add: f g_def)
  have "sql_update P f (rp_jobs w) = map g (rp_jobs w)" by (simp add: sql_update_def g_def)
  then show ?thesis using assms(1) g by (simp add: holds_job_def list_ex_iff)
qed

lemma next_job_id_fresh: "j \<in> set jobs \<Longrightarrow> sj_id j < next_job_id jobs"
proof -
  have "j \<in> set jobs \<Longrightarrow> sj_id j \<le> foldr max (map sj_id jobs) 0" by (induction jobs) auto
  then show "j \<in> set jobs \<Longrightarrow> sj_id j < next_job_id jobs" by (simp add: next_job_id_def)
qed

lemma holds_job_snoc:
  assumes "holds_job env i t w" "sj_id j = next_job_id (rp_jobs w)"
  shows "holds_job env i t (w\<lparr>rp_jobs := rp_jobs w @ [j]\<rparr>)"
  using assms next_job_id_fresh by (fastforce simp: holds_job_def list_ex_iff)

lemma holds_job_quiet:
  "(\<And>w. rp_jobs (snd (f w)) = rp_jobs w) \<Longrightarrow> (\<And>w. n_replies (snd (f w)) = n_replies w) \<Longrightarrow> keeps (holds_job env i t) (ask f)"
  by (rule keeps_answered) (simp_all add: holds_job_def)

lemma holds_job_finish: "keeps (holds_job env i t) (finish_claim env' t' ext user d f g)"
  unfolding finish_claim_def
  by (intro keeps_rules holds_job_quiet) (simp_all add: update_learner_def update_platform_def)

lemma holds_job_update_jobs:
  assumes "\<And>j. sj_id (f j) = sj_id j" "\<And>j. sj_platform (f j) = sj_platform j" "\<And>j. sj_lease (f j) = sj_lease j"
  shows "holds_job env i t w \<Longrightarrow> holds_job env i t (snd (update_jobs P f w))"
  unfolding update_jobs_def snd_conv by (rule holds_job_update) (simp_all add: assms)

lemma sent_job_frame [simp]:
  "sj_id (sent_job now j) = sj_id j" "sj_platform (sent_job now j) = sj_platform j" "sj_lease (sent_job now j) = sj_lease j"
  "sj_status (sent_job now j) = Job_Sent"
  by (simp_all add: sent_job_def)

lemma holds_job_outbox: "keeps (holds_job env i t) (mark_outbox_sent env' mp opts)"
  unfolding mark_outbox_sent_def mark_sent_by_external_user_exam_date_def date_call_def
  by (intro keeps_rules keeps_answered holds_job_update_jobs) (simp_all add: holds_job_def)

lemma holds_job_record:
  "keeps (holds_job env i t) (record_retryable_failure env' ext user exam first_date mx next_at err cause)"
proof -
  have reply: "n_replies w = []" if "holds_job env i t w" for w using that by (simp add: holds_job_def)
  show ?thesis
    unfolding record_retryable_failure_def date_call_def Let_def
    by (intro keeps_rules keeps_answered [OF reply])
      (auto intro!: holds_job_update holds_job_snoc)
qed

lemmas holds_job_rules = keeps_rules holds_job_quiet holds_job_finish holds_job_outbox holds_job_record

lemma holds_job_send: "keeps (holds_job env i t) (claim_and_send env' t' mp opts delivery)"
proof -
  have release: "keeps (holds_job env i t) (release_if_claimed env' mp opts lease)" for lease
    unfolding release_if_claimed_def release_scheduled_report_claim_def by (intro holds_job_rules)
  have queue: "keeps (holds_job env i t) (queue_retry env' mp opts err cause)" for err cause
    unfolding queue_retry_def by (intro holds_job_rules)
  have deliver: "keeps (holds_job env i t) (deliver_report env' mp opts lease delivery)" for lease
    unfolding deliver_report_def mark_scheduled_report_claim_sent_def
    by (intro holds_job_rules release queue) (simp add: holds_job_def)
  have gen: "keeps (holds_job env i t) (generate_and_send env' mp opts lease delivery)" for lease
    unfolding generate_and_send_def generation_failed_def delivery_threw_def Let_def
    by (intro holds_job_rules release queue deliver)
  have claim: "keeps (holds_job env i t) (try_claim_scheduled_report env' t' ext user d)" for ext user d
    unfolding try_claim_scheduled_report_def
    by (intro holds_job_rules) (simp_all add: claim_learner_def claim_platform_def Let_def split: prod.splits)
  have guard: "keeps (holds_job env i t) (already_sent env' mp opts)"
    unfolding already_sent_def has_sent_scheduled_report_on_def has_any_platform_sent_report_on_def
    by (intro holds_job_rules) simp_all
  show ?thesis
    unfolding claim_and_send_def mark_scheduled_report_claim_sent_def
    by (intro holds_job_rules guard claim gen)
qed

definition parked :: "nat \<Rightarrow> rp_world \<Rightarrow> bool" where
  "parked i w \<longleftrightarrow> list_ex (\<lambda>j. sj_id j = i) (rp_jobs w) \<and>
     (\<forall>j\<in>set (rp_jobs w). sj_id j = i \<longrightarrow> sj_status j = Job_Sent \<or> sj_status j = Job_Failed)"

lemma update_jobs_parks:
  assumes "holds_job env i t w" "\<And>j. sj_id j = i \<Longrightarrow> sj_platform j = re_platform env \<Longrightarrow> sj_lease j = Some t \<Longrightarrow> P j"
    and f: "\<And>j. sj_id (f j) = sj_id j" "\<And>j. sj_status (f j) = Job_Sent \<or> sj_status (f j) = Job_Failed"
  shows "parked i (snd (update_jobs P f w))"
proof -
  define g where "g j = (if P j then (f j)\<lparr>sj_updated := rp_now w\<rparr> else j)" for j
  have rows: "rp_jobs (snd (update_jobs P f w)) = map g (rp_jobs w)"
    by (simp add: update_jobs_def sql_update_def g_def)
  have id: "sj_id (g j) = sj_id j" for j by (simp add: g_def f)
  have "sj_status (g j) = Job_Sent \<or> sj_status (g j) = Job_Failed" if "j \<in> set (rp_jobs w)" "sj_id j = i" for j
  proof -
    have "P j" using assms(1,2) that by (simp add: holds_job_def)
    then show ?thesis using f(2) by (simp add: g_def)
  qed
  then show ?thesis using assms(1) by (simp add: parked_def rows id list_ex_iff holds_job_def)
qed

lemma mark_job_failed_parks:
  assumes "holds_job env i t w"
  shows "\<exists>w'. mark_job_failed env i (Some t) err n next_at final cause w = (Inr (), w') \<and> parked i w'"
proof -
  have "n_replies w = []" using assms by (simp add: holds_job_def)
  then show ?thesis
    unfolding mark_job_failed_def ask_def
    by (auto simp: case_prod_unfold intro!: update_jobs_parks [OF assms])
qed

lemma mark_job_sent_parks:
  assumes "holds_job env i t w"
  shows "\<exists>w'. mark_job_sent env i t w = (Inr (), w') \<and> parked i w'"
proof -
  have "n_replies w = []" using assms by (simp add: holds_job_def)
  then show ?thesis
    unfolding mark_job_sent_def ask_def
    by (auto simp: case_prod_unfold intro!: update_jobs_parks [OF assms])
qed

lemma hoare_park_failed:
  "hoare (holds_job env i t) (bind_c (mark_job_failed env i (Some t) err n next_at final cause) (\<lambda>_. return_c rep)) (\<lambda>_. parked i) E"
proof (rule hoareI)
  fix w assume "holds_job env i t w"
  then obtain w' where "mark_job_failed env i (Some t) err n next_at final cause w = (Inr (), w')" "parked i w'"
    using mark_job_failed_parks by blast
  then show "case bind_c (mark_job_failed env i (Some t) err n next_at final cause) (\<lambda>_. return_c rep) w of
      (Inl e, w') \<Rightarrow> E e w' | (Inr a, w') \<Rightarrow> parked i w'"
    by (simp add: bind_c_def return_c_def)
qed

lemma hoare_park_sent:
  "hoare (holds_job env i t) (bind_c (mark_job_sent env i t) (\<lambda>_. return_c rep)) (\<lambda>_. parked i) E"
proof (rule hoareI)
  fix w assume "holds_job env i t w"
  then obtain w' where "mark_job_sent env i t w = (Inr (), w')" "parked i w'" using mark_job_sent_parks by blast
  then show "case bind_c (mark_job_sent env i t) (\<lambda>_. return_c rep) w of (Inl e, w') \<Rightarrow> E e w' | (Inr a, w') \<Rightarrow> parked i w'"
    by (simp add: bind_c_def return_c_def)
qed

lemma hoare_get_pre: "(\<And>w0. hoare P (k w0) Q E) \<Longrightarrow> hoare P (get_c k) Q E"
  by (auto simp: hoare_def get_c_def)

lemma hoare_park_job:
  assumes "one_outcome r"
  shows "hoare (holds_job env (sj_id job) lease) (park_job env job lease run r) (\<lambda>_. parked (sj_id job)) E"
proof -
  have "cr_sent r > 0 \<or> cr_skipped r > 0 \<or> cr_claim_skipped r > 0 \<or> cr_deferred r > 0 \<or> cr_window_closed r > 0 \<or> cr_failures r \<noteq> []"
    using assms by (auto simp: one_outcome_def)
  then show ?thesis
    unfolding park_job_def Let_def
    by (intro hoare_get_pre hoare_if hoare_park_sent hoare_park_failed) blast
qed

lemma hoare_park_unlinked:
  "hoare (holds_job env (sj_id job) lease) (park_unlinked env job lease run link) (\<lambda>_. parked (sj_id job)) E"
  unfolding park_unlinked_def by (intro hoare_get_pre hoare_if hoare_park_failed)

lemma hoare_run_claimed_job:
  "hoare (holds_job env (sj_id job) lease) (run_claimed_job env classify job claimed lease run)
     (\<lambda>_. parked (sj_id job)) (\<lambda>_. holds_job env (sj_id job) lease)"
proof -
  have send: "hoare (holds_job env (sj_id job) lease) (claim_and_send env t mp opts delivery)
      (\<lambda>r w. holds_job env (sj_id job) lease w \<and> one_outcome r) (\<lambda>_. holds_job env (sj_id job) lease)" for t mp opts delivery
    by (rule hoare_conseq [OF hoare_conj [OF holds_job_send [unfolded keeps_def] accounted_claim_and_send]]) simp_all
  have park: "hoare (\<lambda>w. holds_job env (sj_id job) lease w \<and> one_outcome r) (park_job env job lease run r)
      (\<lambda>_. parked (sj_id job)) (\<lambda>_. holds_job env (sj_id job) lease)" for r
    using hoare_park_job by (cases "one_outcome r") (simp_all add: hoare_def)
  show ?thesis
    unfolding run_claimed_job_def
    by (cases "jr_link run") (auto intro!: hoare_throw hoare_if hoare_park_unlinked hoare_bind [OF send park])
qed

lemma claim_job_holds:
  assumes "n_replies w = []" "keyed sj_id (rp_jobs w)" "job \<in> set (rp_jobs w)"
    and "sj_platform job = re_platform env" "sj_status job = Job_Failed"
  obtains c w1 where "claim_job env t (sj_id job) lease_ms w = (Inr (Some c), w1)" "sj_id c = sj_id job" "sj_lease c = Some t"
    "holds_job env (sj_id job) t w1"
proof -
  let ?P = "\<lambda>j. sj_id j = sj_id job \<and> sj_platform j = re_platform env \<and> sj_status j = Job_Failed"
  let ?f = "\<lambda>j. j\<lparr>sj_status := Job_Processing, sj_lease := Some t, sj_expires := Some (rp_now w + lease_ms)\<rparr>"
  have only: "j = job" if "j \<in> set (rp_jobs w)" "sj_id j = sj_id job" for j
    using keyed_unique [OF assms(2) that(1) assms(3)] that(2) by simp
  obtain q where q: "find ?P (rp_jobs w) = Some q"
    using assms(3-5) by (cases "find ?P (rp_jobs w)") (auto simp: find_None_iff)
  then have "q \<in> set (rp_jobs w) \<and> sj_id q = sj_id job" using find_SomeD [OF q] by blast
  then have "q = job" using only by blast
  moreover have "holds_job env (sj_id job) t (w\<lparr>rp_jobs := sql_update ?P ?f (rp_jobs w)\<rparr>)"
    unfolding holds_job_def
  proof (intro conjI ballI impI)
    show "list_ex (\<lambda>j. sj_id j = sj_id job) (rp_jobs (w\<lparr>rp_jobs := sql_update ?P ?f (rp_jobs w)\<rparr>))"
    proof -
      have "?f job \<in> set (sql_update ?P ?f (rp_jobs w))" using assms(3-5) by (simp add: set_sql_update)
      then show ?thesis unfolding list_ex_iff by (intro bexI [of _ "?f job"]) simp_all
    qed
    fix j assume "j \<in> set (rp_jobs (w\<lparr>rp_jobs := sql_update ?P ?f (rp_jobs w)\<rparr>))" and id: "sj_id j = sj_id job"
    then have "j = ?f job" using only assms(4,5) by (auto simp: set_sql_update)
    then show "sj_platform j = re_platform env" "sj_lease j = Some t" using assms(4) by simp_all
  qed (simp add: assms(1))
  ultimately show ?thesis
    using q assms(1) by (intro that [of "?f job" "w\<lparr>rp_jobs := sql_update ?P ?f (rp_jobs w)\<rparr>"]) (simp_all add: claim_job_def ask_def Let_def)
qed

text \<open>C14: While the database answers, the retry dispatcher never leaves a job it claimed in
  \<open>processing\<close>: whatever the link lookup, the generation and the delivery do, the job ends as sent
  or failed.\<close>

theorem retry_job_is_parked:
  assumes "dispatch_job env classify lease_ms job run w = (res, w')"
    and "n_replies w = []" "keyed sj_id (rp_jobs w)" "job \<in> set (rp_jobs w)"
    and "sj_platform job = re_platform env" "sj_status job = Job_Failed" "jr_job_token run \<noteq> []"
  shows "parked (sj_id job) w'"
proof -
  let ?t = "jr_job_token run"
  obtain c w1 where claim: "claim_job env ?t (sj_id job) lease_ms w = (Inr (Some c), w1)" "sj_id c = sj_id job" "sj_lease c = Some ?t"
    and holds: "holds_job env (sj_id job) ?t w1"
    by (rule claim_job_holds [OF assms(2-6)])
  have threw: "hoare (holds_job env (sj_id job) ?t) (job_threw env job (Some c) ?t run e) (\<lambda>_. parked (sj_id job)) (\<lambda>_ _. False)" for e
  proof (rule hoareI)
    fix w2 assume "holds_job env (sj_id job) ?t w2"
    from mark_job_failed_parks [OF this]
    show "case job_threw env job (Some c) ?t run e w2 of (Inl e, w') \<Rightarrow> False | (Inr a, w') \<Rightarrow> parked (sj_id job) w'"
      using assms(7) claim(2)
      by (auto simp: job_threw_def bind_c_def get_c_def catch_c_def return_c_def split: sum.splits prod.splits)
         (metis Inr_not_Inl Pair_inject snd_conv)+
  qed
  have "hoare (holds_job env (sj_id job) ?t)
      (catch_c (run_claimed_job env classify job c ?t run) (job_threw env job (Some c) ?t run)) (\<lambda>_. parked (sj_id job)) (\<lambda>_ _. False)"
    by (rule hoare_catch [OF hoare_run_claimed_job threw])
  moreover have "catch_c (run_claimed_job env classify job c ?t run) (job_threw env job (Some c) ?t run) w1 = (res, w')"
    using assms(1) claim by (simp add: dispatch_job_def Let_def)
  ultimately show ?thesis using holds by (auto dest!: hoareD split: sum.splits)
qed

section \<open>Concrete runs\<close>

definition sample_job :: send_job where
  "sample_job = \<lparr>sj_id = 1, sj_platform = ''discord'', sj_ext = ''e'', sj_user = None, sj_exam = ''2026-02-01'',
     sj_first = ''2026-01-05'', sj_status = Job_Failed, sj_retries = 1, sj_max = 3, sj_next = Some 0, sj_error = None,
     sj_cause = None, sj_sent_at = None, sj_lease = None, sj_expires = None, sj_updated = 0\<rparr>"

definition sample_job_run :: "user_id option \<Rightarrow> job_run" where
  "sample_job_run user = \<lparr>jr_job_token = ''j'', jr_claim_token = ''t'', jr_jitter = 0, jr_link = Inr (Some (None, user)),
     jr_generate = Inr (), jr_delivery = sample_ok\<rparr>"

definition sample_dispatch :: "user_id option \<Rightarrow> (string + job_report) \<times> rp_world" where
  "sample_dispatch user =
     dispatch_job (sample_env ''discord'') (\<lambda>e. \<lparr>ce_kind = Kind_Failure, ce_message = e, ce_cause = None\<rparr>) 600000
       sample_job (sample_job_run user) (sample_world\<lparr>rp_jobs := [sample_job]\<rparr>)"

theorem retry_job_is_parked_witness: "parked 1 (snd (sample_dispatch (Some 7)))"
proof -
  have "parked (sj_id sample_job) (snd (sample_dispatch (Some 7)))"
    by (rule retry_job_is_parked [OF prod.collapse [symmetric, of "sample_dispatch (Some 7)", unfolded sample_dispatch_def],
          folded sample_dispatch_def])
      (simp_all add: sample_world_def sample_job_def sample_env_def sample_job_run_def keyed_def)
  then show ?thesis by (simp add: sample_job_def)
qed

text \<open>A retry job whose account link has no learner id is closed as sent although nothing was
  delivered: the send is skipped for such a link, and the dispatcher takes every skip as a delivery
  by another path.\<close>

theorem unlinked_learner_job_lost:
  "map sj_status (rp_jobs (snd (sample_dispatch None))) = [Job_Sent] \<and> rp_deliveries (snd (sample_dispatch None)) = [] \<and>
   rp_learner (snd (sample_dispatch None)) = []"
  by code_simp

end
