(* ===== verification/Study_Reminder.thy ===== *)
theory Study_Reminder
  imports Db_Calls Webhook_Inbox
begin

text \<open>
  The study reminder jobs (\<open>packages/study-reminder-shared\<close>): the table \<open>study_reminder_jobs\<close>,
  the statements of \<open>TypeormStudyReminderJobRepository\<close>, the SQL predicates the statements share
  (\<open>utils/job-predicates.ts\<close>), the cancellation on an ownership change
  (\<open>infrastructure/study-reminder-ownership.ts\<close>) and the schedule arithmetic
  (\<open>utils/schedule.ts\<close>).

  A row carries one column the table does not have: \<open>j_gen\<close> is a history variable that counts how
  often the row was reopened, so that ``one reminder per schedule generation'' can be stated.
  Mapping generations are the values of a \<open>bigint\<close> column, so they are integers here and the
  comparison through \<open>BigInt\<close> never throws. Error texts are stored as given (masking and
  truncation of the text are not modelled).
\<close>

section \<open>The table\<close>

datatype reminder_status = RJ_Pending | RJ_Processing | RJ_Sent | RJ_Failed | RJ_Cancelled

record reminder_job =
  j_id :: nat
  j_platform :: string
  j_ext :: ext_id
  j_user :: "user_id option"
  j_mgen :: "int option"
  j_session :: string
  j_scheduled :: millis
  j_remind :: millis
  j_topic :: "string option"
  j_status :: reminder_status
  j_retry :: nat
  j_max :: nat
  j_next_retry :: "millis option"
  j_error :: "string option"
  j_sent_at :: "millis option"
  j_lease :: "string option"
  j_lease_exp :: "millis option"
  j_record :: "string option"
  j_key :: "string option"
  j_delivery :: "delivery_outcome option"
  j_started :: "millis option"
  j_created :: millis
  j_updated :: millis
  j_gen :: nat

type_synonym jobs = "reminder_job list"

text \<open>The unique index of the entity.\<close>

definition job_index :: "reminder_job \<Rightarrow> string \<times> ext_id \<times> string" where
  "job_index r = (j_platform r, j_ext r, j_session r)"

abbreviation job_at :: "jobs \<Rightarrow> nat \<Rightarrow> reminder_job option" where
  "job_at rows i \<equiv> find (\<lambda>r. j_id r = i) rows"

section \<open>Shared predicates\<close>

definition dispatch_predicate :: "reminder_job \<Rightarrow> bool" where
  "dispatch_predicate r \<longleftrightarrow>
     (j_status r = RJ_Pending \<or> (j_status r = RJ_Failed \<and> j_retry r < j_max r)) \<and>
     (j_delivery r = None \<or> (j_delivery r = Some Not_Sent \<and> j_retry r < j_max r)) \<and>
     j_record r = None"

definition terminal_failure_predicate :: "reminder_job \<Rightarrow> bool" where
  "terminal_failure_predicate r \<longleftrightarrow>
     (j_status r = RJ_Failed \<and> j_retry r \<ge> j_max r) \<or>
     (j_status r \<in> {RJ_Pending, RJ_Failed} \<and> j_delivery r \<in> {Some Ambiguous, Some Rate_Limited})"

definition terminal_retention_predicate :: "reminder_job \<Rightarrow> bool" where
  "terminal_retention_predicate r \<longleftrightarrow>
     (j_status r \<in> {RJ_Cancelled, RJ_Failed} \<and> j_retry r \<ge> j_max r) \<or>
     (j_status r \<in> {RJ_Pending, RJ_Failed} \<and> j_delivery r \<in> {Some Ambiguous, Some Rate_Limited})"

definition is_terminal_delivery_outcome :: "delivery_outcome option \<Rightarrow> bool" where
  "is_terminal_delivery_outcome oc \<longleftrightarrow> oc \<in> {Some Sent, Some Ambiguous, Some Rate_Limited}"

definition is_terminal_stored_failure :: "reminder_job \<Rightarrow> bool" where
  "is_terminal_stored_failure r \<longleftrightarrow>
     is_terminal_delivery_outcome (j_delivery r) \<or> (j_delivery r = Some Not_Sent \<and> j_retry r \<ge> j_max r)"

section \<open>Upsert\<close>

record upsert_input =
  ui_platform :: string
  ui_ext :: ext_id
  ui_user :: "user_id option"
  ui_mgen :: "int option"
  ui_session :: string
  ui_scheduled :: millis
  ui_remind :: millis
  ui_topic :: "string option"
  ui_max :: nat

definition input_index :: "upsert_input \<Rightarrow> string \<times> ext_id \<times> string" where
  "input_index x = (ui_platform x, ui_ext x, ui_session x)"

definition input_key :: "upsert_input \<Rightarrow> string" where
  "input_key x = ui_platform x @ ''|'' @ ui_ext x @ ''|'' @ ui_session x"

definition entity_key :: "reminder_job \<Rightarrow> string" where
  "entity_key r = j_platform r @ ''|'' @ j_ext r @ ''|'' @ j_session r"

definition build_new_entity :: "nat \<Rightarrow> millis \<Rightarrow> upsert_input \<Rightarrow> reminder_job" where
  "build_new_entity i now x =
     \<lparr>j_id = i, j_platform = ui_platform x, j_ext = ui_ext x, j_user = ui_user x, j_mgen = ui_mgen x,
      j_session = ui_session x, j_scheduled = ui_scheduled x, j_remind = ui_remind x, j_topic = ui_topic x,
      j_status = RJ_Pending, j_retry = 0, j_max = ui_max x, j_next_retry = None, j_error = None,
      j_sent_at = None, j_lease = None, j_lease_exp = None, j_record = None, j_key = None,
      j_delivery = None, j_started = None, j_created = now, j_updated = now, j_gen = 0\<rparr>"

definition nvl :: "'a option \<Rightarrow> 'a option \<Rightarrow> 'a option" where
  "nvl a b = (case a of None \<Rightarrow> b | Some _ \<Rightarrow> a)"

definition has_schedule_changed :: "reminder_job \<Rightarrow> upsert_input \<Rightarrow> bool" where
  "has_schedule_changed e x \<longleftrightarrow>
     j_scheduled e \<noteq> ui_scheduled x \<or> j_remind e \<noteq> ui_remind x \<or> ui_topic x \<noteq> j_topic e"

definition is_older_generation :: "int option \<Rightarrow> int option \<Rightarrow> bool" where
  "is_older_generation existing incoming =
     (case (existing, incoming) of (Some g, Some h) \<Rightarrow> h < g | _ \<Rightarrow> False)"

definition owner_changed :: "reminder_job \<Rightarrow> upsert_input \<Rightarrow> bool" where
  "owner_changed e x \<longleftrightarrow>
     (ui_mgen x \<noteq> None \<and> j_mgen e \<noteq> ui_mgen x) \<or> (ui_user x \<noteq> None \<and> j_user e \<noteq> ui_user x)"

definition reopen_to_pending :: "upsert_input \<Rightarrow> reminder_job \<Rightarrow> reminder_job" where
  "reopen_to_pending x e =
     e\<lparr>j_user := nvl (ui_user x) (j_user e), j_mgen := nvl (ui_mgen x) (j_mgen e),
       j_scheduled := ui_scheduled x, j_remind := ui_remind x, j_topic := nvl (ui_topic x) (j_topic e),
       j_max := ui_max x, j_status := RJ_Pending, j_retry := 0, j_sent_at := None, j_error := None,
       j_next_retry := None, j_lease := None, j_lease_exp := None, j_record := None, j_key := None,
       j_delivery := None, j_started := None, j_gen := Suc (j_gen e)\<rparr>"

text \<open>The terminal failure keeps its outcome; the other pending and failed rows are refreshed.\<close>

definition keep_terminal :: "upsert_input \<Rightarrow> reminder_job \<Rightarrow> reminder_job" where
  "keep_terminal x e =
     e\<lparr>j_user := nvl (ui_user x) (j_user e), j_max := ui_max x,
       j_status := (if j_delivery e = Some Not_Sent then RJ_Failed else j_status e)\<rparr>"

definition refresh_in_place :: "bool \<Rightarrow> upsert_input \<Rightarrow> reminder_job \<Rightarrow> reminder_job" where
  "refresh_in_place reopen_only x e =
     (let e1 = e\<lparr>j_user := nvl (ui_user x) (j_user e), j_mgen := nvl (ui_mgen x) (j_mgen e),
                j_scheduled := ui_scheduled x, j_remind := ui_remind x, j_topic := nvl (ui_topic x) (j_topic e),
                j_max := ui_max x\<rparr>
      in if reopen_only then
           (if j_status e1 = RJ_Failed then e1\<lparr>j_status := RJ_Pending, j_next_retry := None, j_error := None\<rparr>
            else e1)
         else e1\<lparr>j_status := RJ_Pending, j_retry := 0, j_error := None, j_next_retry := None\<rparr>)"

definition apply_existing :: "bool \<Rightarrow> upsert_input \<Rightarrow> reminder_job \<Rightarrow> reminder_job" where
  "apply_existing reopen_only x e =
     (let changed = has_schedule_changed e x in
      if is_older_generation (j_mgen e) (ui_mgen x) then e
      else case j_status e of
        RJ_Sent \<Rightarrow> if \<not> changed then e else reopen_to_pending x e
      | RJ_Processing \<Rightarrow>
          if owner_changed e x then e
          else if reopen_only \<and> \<not> changed then e
          else reopen_to_pending x e
      | RJ_Cancelled \<Rightarrow> reopen_to_pending x e
      | _ \<Rightarrow>
          if changed then reopen_to_pending x e
          else if is_terminal_stored_failure e then keep_terminal x e
          else refresh_in_place reopen_only x e)"

text \<open>\<open>manager.save\<close> writes, and stamps the row, only when a column differs.\<close>

definition save_entity :: "millis \<Rightarrow> reminder_job \<Rightarrow> reminder_job \<Rightarrow> reminder_job" where
  "save_entity now e e' = (if e' = e then e else e'\<lparr>j_updated := now\<rparr>)"

text \<open>
  The transaction: the rows of the inputs are locked and read once, then every input is inserted
  or applied to its row of that snapshot. A second input for a session inserted by the same batch
  hits the unique index, and the transaction is rolled back.
\<close>

fun upsert_loop :: "bool \<Rightarrow> millis \<Rightarrow> nat list \<Rightarrow> upsert_input list \<Rightarrow> nat \<times> jobs \<Rightarrow> string + (nat \<times> jobs)" where
  "upsert_loop reopen_only now snapshot [] db = Inr db"
| "upsert_loop reopen_only now snapshot (x # xs) (next_id, rows) =
     (case find (\<lambda>r. entity_key r = input_key x \<and> j_id r \<in> set snapshot) rows of
        None \<Rightarrow>
          if list_ex (\<lambda>r. job_index r = input_index x) rows then Inl ''duplicate key''
          else upsert_loop reopen_only now snapshot xs
                 (Suc next_id, rows @ [build_new_entity next_id now x])
      | Some e \<Rightarrow>
          upsert_loop reopen_only now snapshot xs
            (next_id, sql_update (\<lambda>r. j_id r = j_id e) (\<lambda>r. save_entity now r (apply_existing reopen_only x r)) rows))"

definition upsert_pending_jobs :: "bool \<Rightarrow> millis \<Rightarrow> upsert_input list \<Rightarrow> nat \<times> jobs \<Rightarrow> string + (nat \<times> jobs)" where
  "upsert_pending_jobs reopen_only now inputs db =
     (if inputs = [] then Inr db
      else upsert_loop reopen_only now
             (map j_id (filter (\<lambda>r. job_index r \<in> input_index ` set inputs) (snd db))) inputs db)"

section \<open>Claim and completion\<close>

definition find_due_reminders :: "string \<Rightarrow> millis \<Rightarrow> int \<Rightarrow> jobs \<Rightarrow> jobs" where
  "find_due_reminders platform now min_lead rows =
     take 50 (sort_key j_remind
       (filter (\<lambda>r. dispatch_predicate r \<and> j_platform r = platform \<and> j_remind r \<le> now \<and>
                    j_scheduled r > now + min_lead * 60 * 1000 \<and>
                    (case j_next_retry r of None \<Rightarrow> True | Some t \<Rightarrow> t \<le> now)) rows))"

definition claim_reminder :: "string \<Rightarrow> millis \<Rightarrow> millis \<Rightarrow> nat \<Rightarrow> string \<Rightarrow> jobs \<Rightarrow> reminder_job option \<times> jobs" where
  "claim_reminder platform now lease_ms i token rows =
     (let (hit, rows') = update_where j_id (\<lambda>r. j_platform r = platform \<and> dispatch_predicate r)
            (\<lambda>r. r\<lparr>j_status := RJ_Processing, j_lease := Some token, j_lease_exp := Some (now + lease_ms),
                  j_started := Some now, j_delivery := None\<rparr>) i rows
      in (if hit then job_at rows' i else None, rows'))"

text \<open>\<open>WHERE id = .. AND lease_token = .. AND status = 'processing'\<close>.\<close>

definition owns :: "string \<Rightarrow> reminder_job \<Rightarrow> bool" where
  "owns token r \<longleftrightarrow> j_lease r = Some token \<and> j_status r = RJ_Processing"

definition mark_sent :: "millis \<Rightarrow> string option \<Rightarrow> string option \<Rightarrow> nat \<Rightarrow> string \<Rightarrow> jobs \<Rightarrow> bool \<times> jobs" where
  "mark_sent now rec_text key i token rows =
     update_where j_id (owns token)
       (\<lambda>r. r\<lparr>j_status := RJ_Sent, j_sent_at := Some now, j_next_retry := None, j_error := None,
             j_delivery := Some Sent, j_lease := None, j_lease_exp := None, j_started := None,
             j_record := nvl rec_text (j_record r), j_key := nvl key (j_key r), j_updated := now\<rparr>) i rows"

definition mark_delivery_key :: "millis \<Rightarrow> string \<Rightarrow> nat \<Rightarrow> string \<Rightarrow> jobs \<Rightarrow> bool \<times> jobs" where
  "mark_delivery_key now key i token rows =
     update_where j_id (owns token) (\<lambda>r. r\<lparr>j_key := Some key, j_updated := now\<rparr>) i rows"

record failure_params =
  fp_error :: string
  fp_retry :: nat
  fp_next :: "millis option"
  fp_terminal :: bool
  fp_delivery :: delivery_outcome

definition mark_failed :: "millis \<Rightarrow> failure_params \<Rightarrow> nat \<Rightarrow> string \<Rightarrow> jobs \<Rightarrow> bool \<times> jobs" where
  "mark_failed now p i token rows =
     update_where j_id (owns token)
       (\<lambda>r. r\<lparr>j_status := RJ_Failed, j_retry := fp_retry p, j_error := Some (fp_error p),
             j_next_retry := (if fp_terminal p then None else fp_next p), j_delivery := Some (fp_delivery p),
             j_lease := None, j_lease_exp := None, j_started := None, j_updated := now\<rparr>) i rows"

text \<open>The columns every cancellation clears.\<close>

definition cancel_row :: "string option \<Rightarrow> millis \<Rightarrow> reminder_job \<Rightarrow> reminder_job" where
  "cancel_row reason now r =
     r\<lparr>j_status := RJ_Cancelled, j_next_retry := None, j_lease := None, j_lease_exp := None,
       j_started := None, j_record := None, j_key := None, j_delivery := None,
       j_error := nvl reason (j_error r), j_updated := now\<rparr>"

definition mark_cancelled :: "millis \<Rightarrow> string option \<Rightarrow> nat \<Rightarrow> string \<Rightarrow> jobs \<Rightarrow> bool \<times> jobs" where
  "mark_cancelled now reason i token rows =
     update_where j_id (owns token) (cancel_row (if reason = Some [] then None else reason) now) i rows"

section \<open>Cancellation, recovery and retention\<close>

definition default_stale_cancel_statuses :: "reminder_status list" where
  "default_stale_cancel_statuses = [RJ_Pending, RJ_Failed]"

definition cancel_stale_jobs ::
    "millis \<Rightarrow> string \<Rightarrow> ext_id \<Rightarrow> string list \<Rightarrow> millis option \<Rightarrow> reminder_status list option \<Rightarrow> jobs \<Rightarrow> nat \<times> jobs" where
  "cancel_stale_jobs now platform ext keys horizon statuses rows =
     (let P = (\<lambda>r. j_platform r = platform \<and> j_ext r = ext \<and>
                   j_status r \<in> set (case statuses of None \<Rightarrow> default_stale_cancel_statuses | Some ss \<Rightarrow> ss) \<and>
                   (keys = [] \<or> j_session r \<notin> set keys) \<and>
                   (case horizon of None \<Rightarrow> True | Some h \<Rightarrow> j_scheduled r \<le> h))
      in (sql_count P rows, sql_update P (cancel_row None now) rows))"

definition cancel_pending_jobs_for_user :: "millis \<Rightarrow> string \<Rightarrow> ext_id \<Rightarrow> string \<Rightarrow> jobs \<Rightarrow> nat \<times> jobs" where
  "cancel_pending_jobs_for_user now platform ext reason rows =
     (let P = (\<lambda>r. j_platform r = platform \<and> j_ext r = ext \<and> j_status r \<in> {RJ_Pending, RJ_Processing, RJ_Failed})
      in (sql_count P rows, sql_update P (cancel_row (Some reason) now) rows))"

definition cancel_jobs_from_other_platforms ::
    "millis \<Rightarrow> user_id \<Rightarrow> string \<Rightarrow> reminder_status list option \<Rightarrow> jobs \<Rightarrow> nat \<times> jobs" where
  "cancel_jobs_from_other_platforms now user platform statuses rows =
     (if user = 0 then (0, rows)
      else let P = (\<lambda>r. j_user r = Some user \<and> j_platform r \<noteq> platform \<and>
                        j_status r \<in> set (case statuses of None \<Rightarrow> default_stale_cancel_statuses | Some ss \<Rightarrow> ss))
           in (sql_count P rows, sql_update P (cancel_row None now) rows))"

definition cancel_for_ownership_change ::
    "millis \<Rightarrow> string \<Rightarrow> ext_id \<Rightarrow> int option \<Rightarrow> string option \<Rightarrow> jobs \<Rightarrow> nat \<times> jobs" where
  "cancel_for_ownership_change now platform ext generation reason rows =
     (let P = (\<lambda>r. j_platform r = platform \<and> j_ext r = ext \<and> j_status r \<in> {RJ_Pending, RJ_Processing, RJ_Failed} \<and>
                   (case generation of None \<Rightarrow> True
                    | Some g \<Rightarrow> (case j_mgen r of None \<Rightarrow> True | Some h \<Rightarrow> h < g)))
      in (sql_count P rows,
          sql_update P (cancel_row (Some (case reason of None \<Rightarrow> ''mapping_ownership_changed'' | Some x \<Rightarrow> x)) now) rows))"

definition lease_over :: "millis \<Rightarrow> millis \<Rightarrow> reminder_job \<Rightarrow> bool" where
  "lease_over now older_than r \<longleftrightarrow>
     (case j_lease_exp r of
        Some x \<Rightarrow> x < now
      | None \<Rightarrow> (case j_started r of Some s \<Rightarrow> s | None \<Rightarrow> j_updated r) \<le> older_than)"

definition reset_row :: "reminder_status \<Rightarrow> millis \<Rightarrow> reminder_job \<Rightarrow> reminder_job" where
  "reset_row target now r =
     r\<lparr>j_status := target, j_delivery := Some Ambiguous, j_next_retry := None, j_lease := None,
       j_lease_exp := None, j_started := None, j_updated := now\<rparr>"

definition reset_stuck_reminders :: "millis \<Rightarrow> string \<Rightarrow> millis \<Rightarrow> reminder_status \<Rightarrow> jobs \<Rightarrow> nat \<times> jobs" where
  "reset_stuck_reminders now platform older_than target rows =
     (let P = (\<lambda>r. j_status r = RJ_Processing \<and> j_platform r = platform \<and> lease_over now older_than r)
      in (sql_count P rows, sql_update P (reset_row target now) rows))"

definition delete_sent_jobs :: "string \<Rightarrow> millis option \<Rightarrow> jobs \<Rightarrow> nat \<times> jobs" where
  "delete_sent_jobs platform older_than rows =
     (let P = (\<lambda>r. j_status r = RJ_Sent \<and> j_platform r = platform \<and>
                   (case older_than of None \<Rightarrow> True
                    | Some t \<Rightarrow> (case j_sent_at r of None \<Rightarrow> False | Some s \<Rightarrow> s < t)))
      in (sql_count P rows, sql_delete P rows))"

definition delete_terminal_jobs_older_than :: "string \<Rightarrow> millis \<Rightarrow> jobs \<Rightarrow> nat \<times> jobs" where
  "delete_terminal_jobs_older_than platform older_than rows =
     (let P = (\<lambda>r. terminal_retention_predicate r \<and> j_updated r < older_than \<and> j_platform r = platform)
      in (sql_count P rows, sql_delete P rows))"

section \<open>Queries\<close>

definition min_option :: "'a::linorder list \<Rightarrow> 'a option" where
  "min_option xs = (case xs of [] \<Rightarrow> None | y # ys \<Rightarrow> Some (fold min ys y))"

definition actionable_at :: "millis \<Rightarrow> reminder_job \<Rightarrow> millis option" where
  "actionable_at now r =
     (case j_next_retry r of
        Some t \<Rightarrow> if t > now then Some t else if j_remind r > now then Some (j_remind r) else None
      | None \<Rightarrow> if j_remind r > now then Some (j_remind r) else None)"

definition find_next_due_time :: "millis \<Rightarrow> string option \<Rightarrow> jobs \<Rightarrow> millis option" where
  "find_next_due_time now platform rows =
     min_option (List.map_filter (actionable_at now)
       (filter (\<lambda>r. dispatch_predicate r \<and> (case platform of None \<Rightarrow> True | Some p \<Rightarrow> j_platform r = p)) rows))"

definition count_jobs_by_status :: "string option \<Rightarrow> jobs \<Rightarrow> reminder_status \<Rightarrow> nat" where
  "count_jobs_by_status platform rows st =
     sql_count (\<lambda>r. j_status r = st \<and> (case platform of None \<Rightarrow> True | Some p \<Rightarrow> j_platform r = p)) rows"

definition count_terminal_failed_reminders :: "millis \<Rightarrow> jobs \<Rightarrow> nat" where
  "count_terminal_failed_reminders since rows = sql_count (\<lambda>r. terminal_failure_predicate r \<and> j_updated r \<ge> since) rows"

definition count_stuck_processing :: "millis \<Rightarrow> jobs \<Rightarrow> nat" where
  "count_stuck_processing older_than rows = sql_count (\<lambda>r. j_status r = RJ_Processing \<and> j_updated r \<le> older_than) rows"

definition find_terminal_failed_since :: "millis \<Rightarrow> nat \<Rightarrow> jobs \<Rightarrow> jobs" where
  "find_terminal_failed_since since limit rows =
     take limit (rev (sort_key j_updated (filter (\<lambda>r. terminal_failure_predicate r \<and> j_updated r \<ge> since) rows)))"

definition find_stuck_processing :: "millis \<Rightarrow> nat option \<Rightarrow> jobs \<Rightarrow> jobs" where
  "find_stuck_processing older_than limit rows =
     (let found = sort_key j_updated (filter (\<lambda>r. j_status r = RJ_Processing \<and> j_updated r \<le> older_than) rows)
      in case limit of Some n \<Rightarrow> if n = 0 then found else take n found | None \<Rightarrow> found)"

section \<open>Schedule arithmetic\<close>

definition compute_remind_at :: "millis \<Rightarrow> int \<Rightarrow> millis" where
  "compute_remind_at scheduled minutes_before = scheduled - minutes_before * 60 * 1000"

definition minutes_until_session :: "millis \<Rightarrow> millis \<Rightarrow> rat" where
  "minutes_until_session scheduled now = of_int (scheduled - now) / (1000 * 60)"

definition is_session_started :: "millis \<Rightarrow> int \<Rightarrow> millis \<Rightarrow> bool" where
  "is_session_started scheduled min_lead now \<longleftrightarrow> minutes_until_session scheduled now \<le> of_int min_lead"


section \<open>The lease of a job\<close>

text \<open>The repository's statements follow the lease discipline of the durable tables.\<close>

datatype job_finish = Fin_Sent millis "string option" "string option" | Fin_Failed millis failure_params
  | Fin_Cancelled millis "string option"

fun finish_job :: "job_finish \<Rightarrow> nat \<Rightarrow> string \<Rightarrow> jobs \<Rightarrow> bool \<times> jobs" where
  "finish_job (Fin_Sent now rec_text key) i token rows = mark_sent now rec_text key i token rows"
| "finish_job (Fin_Failed now p) i token rows = mark_failed now p i token rows"
| "finish_job (Fin_Cancelled now reason) i token rows = mark_cancelled now reason i token rows"

definition job_owner :: "reminder_job \<Rightarrow> string option" where
  "job_owner r = (if j_status r = RJ_Processing then j_lease r else None)"

lemma owns_owner: "owns t r \<longleftrightarrow> job_owner r = Some t"
  by (auto simp: owns_def job_owner_def)

text \<open>The recovery statement, seen at one job.\<close>

definition reset_one :: "millis \<times> string \<times> millis \<Rightarrow> nat \<Rightarrow> jobs \<Rightarrow> bool \<times> jobs" where
  "reset_one x i rows = (case x of (now, platform, older_than) \<Rightarrow>
     update_where j_id (\<lambda>r. j_status r = RJ_Processing \<and> j_platform r = platform \<and> lease_over now older_than r)
       (reset_row RJ_Failed now) i rows)"

definition claim_one :: "string \<times> millis \<times> millis \<Rightarrow> nat \<Rightarrow> string \<Rightarrow> jobs \<Rightarrow> bool \<times> jobs" where
  "claim_one x i token rows = (case x of (platform, now, lease_ms) \<Rightarrow>
     (fst (claim_reminder platform now lease_ms i token rows) \<noteq> None, snd (claim_reminder platform now lease_ms i token rows)))"

lemma claim_one_update:
  "claim_one (platform, now, lease_ms) i token rows =
    update_where j_id (\<lambda>r. j_platform r = platform \<and> dispatch_predicate r)
      (\<lambda>r. r\<lparr>j_status := RJ_Processing, j_lease := Some token, j_lease_exp := Some (now + lease_ms),
            j_started := Some now, j_delivery := None\<rparr>) i rows"
proof -
  have "job_at rows i \<noteq> None" if "matches j_id P i rows" for P
    using that by (auto simp: matches_def list_ex_iff find_None_iff)
  then show ?thesis
    by (auto simp: claim_one_def claim_reminder_def update_where_def case_prod_unfold Let_def
        find_update_where [unfolded update_where_def snd_conv])
qed

fun finish_patch :: "job_finish \<Rightarrow> reminder_job \<Rightarrow> reminder_job" where
  "finish_patch (Fin_Sent now rec_text key) r =
     r\<lparr>j_status := RJ_Sent, j_sent_at := Some now, j_next_retry := None, j_error := None,
       j_delivery := Some Sent, j_lease := None, j_lease_exp := None, j_started := None,
       j_record := nvl rec_text (j_record r), j_key := nvl key (j_key r), j_updated := now\<rparr>"
| "finish_patch (Fin_Failed now p) r =
     r\<lparr>j_status := RJ_Failed, j_retry := fp_retry p, j_error := Some (fp_error p),
       j_next_retry := (if fp_terminal p then None else fp_next p), j_delivery := Some (fp_delivery p),
       j_lease := None, j_lease_exp := None, j_started := None, j_updated := now\<rparr>"
| "finish_patch (Fin_Cancelled now reason) r = cancel_row (if reason = Some [] then None else reason) now r"

lemma finish_job_update: "finish_job a i token rows = update_where j_id (owns token) (finish_patch a) i rows"
  by (cases a) (auto simp: mark_sent_def mark_failed_def mark_cancelled_def
      intro!: arg_cong [where f = "\<lambda>f. update_where j_id (owns token) f i rows"] ext)

lemma patch_id [simp]: "j_id (finish_patch a r) = j_id r" "j_id (cancel_row reason now r) = j_id r"
    "j_id (reset_row target now r) = j_id r" "j_gen (finish_patch a r) = j_gen r"
    "j_gen (cancel_row reason now r) = j_gen r" "j_gen (reset_row target now r) = j_gen r"
  by (cases a; simp add: cancel_row_def reset_row_def)+

lemma patch_status [simp]: "j_status (finish_patch a r) \<noteq> RJ_Processing"
    "j_status (cancel_row reason now r) = RJ_Cancelled" "j_status (reset_row target now r) = target"
  by (cases a; simp add: cancel_row_def reset_row_def)+

interpretation reminder_lease: leased_table j_id job_owner claim_one finish_job reset_one
proof (unfold_locales, goal_cases)
  case (1 rows c i t)
  then show ?case by (cases c) (simp add: claim_one_update update_where_keyed)
next
  case (2 rows a i t)
  then show ?case by (simp add: finish_job_update update_where_keyed)
next
  case (3 rows x i)
  then show ?case by (cases x) (simp add: reset_one_def update_where_keyed)
next
  case (4 rows c i t rows')
  obtain platform now lease_ms where c: "c = (platform, now, lease_ms)" by (cases c)
  from 4(2) show ?case unfolding c claim_one_update
    by (rule update_where_hit [where owner = job_owner, OF 4(1), rotated]) (simp_all add: job_owner_def)
next
  case (5 c i t rows rows')
  then show ?case by (cases c) (auto simp: claim_one_update dest: update_where_miss)
next
  case (6 rows a i t rows')
  from 6(2) show ?case unfolding finish_job_update
    by (rule update_where_hit [where owner = job_owner, OF 6(1), rotated])
       (simp_all add: owner_at_def owns_owner, simp_all add: job_owner_def)
next
  case (7 a i t rows rows')
  then show ?case unfolding finish_job_update by (rule update_where_miss)
next
  case (8 rows x i rows')
  obtain now platform older where x: "x = (now, platform, older)" by (cases x)
  from 8(2) show ?case unfolding x reset_one_def prod.case
    by (rule update_where_hit [where owner = job_owner, OF 8(1), rotated]) (simp_all add: job_owner_def)
next
  case (9 x i rows rows')
  then show ?case by (cases x) (auto simp: reset_one_def dest: update_where_miss)
qed

section \<open>What the statements do to a settled job\<close>

text \<open>A row is closed when no claim can take it in its present generation.\<close>

definition job_closed :: "reminder_job \<Rightarrow> bool" where
  "job_closed r = (case j_status r of
      RJ_Sent \<Rightarrow> True
    | RJ_Cancelled \<Rightarrow> True
    | RJ_Processing \<Rightarrow> False
    | _ \<Rightarrow> is_terminal_delivery_outcome (j_delivery r))"

lemma dispatchable_not_closed: "dispatch_predicate r \<Longrightarrow> \<not> job_closed r \<and> j_status r \<noteq> RJ_Processing"
  by (auto simp: dispatch_predicate_def job_closed_def is_terminal_delivery_outcome_def)

text \<open>
  The changes other parties make to a row: none; a new generation; or, within the generation, a
  row that is not in processing and is closed if the row was closed or in processing.
\<close>

definition external :: "reminder_job \<Rightarrow> reminder_job \<Rightarrow> bool" where
  "external r r' \<longleftrightarrow> j_id r' = j_id r \<and>
     (r' = r \<or>
      j_status r' \<noteq> RJ_Processing \<and>
      (j_gen r < j_gen r' \<or> (j_gen r' = j_gen r \<and> (job_closed r \<or> j_status r = RJ_Processing \<longrightarrow> job_closed r'))))"

lemma external_refl [simp]: "external r r"
  by (simp add: external_def)

lemma external_trans: "external r r' \<Longrightarrow> external r' r'' \<Longrightarrow> external r r''"
  unfolding external_def by (auto simp: less_trans)

lemma external_id: "external r r' \<Longrightarrow> j_id r' = j_id r"
  by (simp add: external_def)

lemma external_idle: "external r r' \<Longrightarrow> j_status r \<noteq> RJ_Processing \<Longrightarrow> j_status r' \<noteq> RJ_Processing"
  by (auto simp: external_def)

lemma external_cancel [simp]: "external r (cancel_row reason now r)"
  by (simp add: external_def job_closed_def)

lemma external_reset [simp]: "target \<in> {RJ_Pending, RJ_Failed} \<Longrightarrow> external r (reset_row target now r)"
  by (auto simp: external_def job_closed_def reset_row_def is_terminal_delivery_outcome_def)

lemma external_reopen [simp]: "external r (reopen_to_pending x r)"
  by (simp add: external_def reopen_to_pending_def)

lemma external_keep_terminal:
  "j_status r \<in> {RJ_Pending, RJ_Failed} \<Longrightarrow> external r (keep_terminal x r)"
  by (auto simp: external_def keep_terminal_def job_closed_def is_terminal_delivery_outcome_def)

lemma external_refresh:
  "j_status r \<in> {RJ_Pending, RJ_Failed} \<Longrightarrow> \<not> is_terminal_stored_failure r \<Longrightarrow> external r (refresh_in_place b x r)"
  by (auto simp: external_def refresh_in_place_def job_closed_def is_terminal_stored_failure_def Let_def)

lemma external_apply: "external r (apply_existing b x r)"
  by (auto simp: apply_existing_def Let_def external_keep_terminal external_refresh split: reminder_status.split)

lemma closed_stamp [simp]: "job_closed (r\<lparr>j_updated := now\<rparr>) = job_closed r"
  by (cases "j_status r") (simp_all add: job_closed_def)

lemma external_stamp: "external r r' \<Longrightarrow> external r (save_entity now r r')"
  by (auto simp: external_def save_entity_def)

text \<open>An upsert batch changes the rows it finds that way and appends fresh rows.\<close>

lemma list_all2_external_update:
  "(\<And>r. external r (f r)) \<Longrightarrow> list_all2 external rows (sql_update P f rows)"
  by (induction rows) auto

lemma list_all2_external_trans:
  "list_all2 external xs ys \<Longrightarrow> list_all2 external ys zs \<Longrightarrow> list_all2 external xs zs"
  by (rule list_all2_trans [OF external_trans])

lemma external_ids: "list_all2 external xs ys \<Longrightarrow> map j_id ys = map j_id xs"
  by (induction rule: list_all2_induct) (simp_all add: external_id)

lemma upsert_loop_shape:
  assumes "upsert_loop b now snap xs (n, rows) = Inr (n', rows')"
  shows "\<exists>kept news. rows' = kept @ news \<and> list_all2 external rows kept \<and>
    list_all (\<lambda>r. j_status r \<noteq> RJ_Processing) news \<and> map j_id news = [n..<n'] \<and> n \<le> n'"
  using assms
proof (induction xs arbitrary: n rows)
  case Nil
  then show ?case by (auto intro!: exI [of _ "[]"] list.rel_refl)
next
  case (Cons x xs)
  show ?case
  proof (cases "find (\<lambda>r. entity_key r = input_key x \<and> j_id r \<in> set snap) rows")
    case None
    let ?new = "build_new_entity n now x"
    have "upsert_loop b now snap xs (Suc n, rows @ [?new]) = Inr (n', rows')"
      using Cons.prems None by (auto split: if_splits)
    from Cons.IH [OF this] obtain kept news where
      r: "rows' = kept @ news" "list_all2 external (rows @ [?new]) kept"
        "list_all (\<lambda>r. j_status r \<noteq> RJ_Processing) news" "map j_id news = [Suc n..<n']" "Suc n \<le> n'" by blast
    then obtain kept1 new1 where k: "kept = kept1 @ [new1]" "list_all2 external rows kept1" "external ?new new1"
      by (auto simp: list_all2_append1 list_all2_Cons1)
    have "map j_id (new1 # news) = [n..<n']"
      using r(4,5) external_id [OF k(3)] by (simp add: build_new_entity_def upt_rec [of n])
    moreover have "j_status new1 \<noteq> RJ_Processing"
      using external_idle [OF k(3)] by (simp add: build_new_entity_def)
    ultimately show ?thesis
      using r k by (intro exI [of _ kept1] exI [of _ "new1 # news"]) simp
  next
    case (Some e)
    let ?rows = "sql_update (\<lambda>r. j_id r = j_id e) (\<lambda>r. save_entity now r (apply_existing b x r)) rows"
    have "upsert_loop b now snap xs (n, ?rows) = Inr (n', rows')" using Cons.prems Some by simp
    from Cons.IH [OF this] obtain kept news where
      r: "rows' = kept @ news" "list_all2 external ?rows kept"
        "list_all (\<lambda>r. j_status r \<noteq> RJ_Processing) news" "map j_id news = [n..<n']" "n \<le> n'" by blast
    moreover have "list_all2 external rows ?rows"
      by (rule list_all2_external_update) (simp add: external_stamp external_apply)
    ultimately show ?thesis using list_all2_external_trans by blast
  qed
qed

lemma upsert_shape:
  assumes "upsert_pending_jobs b now inputs (n, rows) = Inr (n', rows')"
  obtains kept news where "rows' = kept @ news" "list_all2 external rows kept"
    "\<And>r. r \<in> set news \<Longrightarrow> j_status r \<noteq> RJ_Processing" "map j_id news = [n..<n']" "n \<le> n'"
proof (cases "inputs = []")
  case True
  then show ?thesis using assms that [of rows "[]"] by (simp add: upsert_pending_jobs_def list.rel_refl)
next
  case False
  then have "upsert_loop b now (map j_id (filter (\<lambda>r. job_index r \<in> input_index ` set inputs) rows)) inputs (n, rows)
      = Inr (n', rows')"
    using assms by (simp add: upsert_pending_jobs_def)
  from upsert_loop_shape [OF this] show ?thesis using that by (auto simp: list_all_iff)
qed

end
