(* ===== verification/Paging.thy ===== *)
theory Paging
  imports Bot_Prelude
begin

text \<open>
  The two loops the scheduled jobs share: \<open>runBatched\<close>-style slicing of a work list
  (\<open>packages/scheduler-core/src/utils/batch.utils.ts\<close>, and the same loop in the reminder
  dispatcher), and the keyset-paged scan \<open>iterateMappingPages\<close>
  (\<open>packages/bot-common/src/utils/paging.utils.ts\<close>) over the pages of
  \<open>TypeormMappingReader.findActiveMappingsPage\<close>. Both loops are written without a bound, so they
  are partial functions: \<open>None\<close> is a loop that never ends. Also the producer concurrency that
  bounds the slices (\<open>packages/llm-agent/src/execution/background-admission-capacity.ts\<close>).
\<close>

section \<open>Slices\<close>

partial_function (option) batches :: "nat \<Rightarrow> nat \<Rightarrow> 'a list \<Rightarrow> 'a list list option" where
  "batches limit i xs =
     (if i < length xs then Option.bind (batches limit (i + limit) xs) (\<lambda>bs. Some (take limit (drop i xs) # bs))
      else Some [])"

lemmas batches_code [code] = batches.simps

lemma batches_drop:
  assumes "0 < limit"
  shows "\<exists>bs. batches limit i xs = Some bs \<and> concat bs = drop i xs \<and> (\<forall>b\<in>set bs. b \<noteq> [] \<and> length b \<le> limit)"
proof (induction "length xs - i" arbitrary: i rule: less_induct)
  case less
  show ?case
  proof (cases "i < length xs")
    case True
    then have "length xs - (i + limit) < length xs - i" using assms by simp
    from less [OF this] obtain bs where
      bs: "batches limit (i + limit) xs = Some bs" "concat bs = drop (i + limit) xs" "\<forall>b\<in>set bs. b \<noteq> [] \<and> length b \<le> limit"
      by blast
    have "take limit (drop i xs) @ drop (i + limit) xs = drop i xs"
      by (metis add.commute append_take_drop_id drop_drop)
    then show ?thesis using True bs assms by (subst batches.simps) auto
  qed (simp add: batches.simps)
qed

text \<open>With a limit of zero the loop spins on the first index.\<close>

lemma batches_zero:
  assumes "xs \<noteq> []"
  shows "batches 0 0 xs = None"
proof (rule ccontr)
  assume "batches 0 0 xs \<noteq> None"
  then obtain bs where bs: "batches 0 0 xs = Some bs" by auto
  have step: "batches 0 0 xs = Option.bind (batches 0 0 xs) (\<lambda>bs. Some ([] # bs))"
    using assms by (subst batches.simps) simp
  have "Some bs = Some ([] # bs)" using step unfolding bs by simp
  then show False by simp
qed

section \<open>The producer concurrency\<close>

record admission_config =
  ac_max_concurrent :: int
  ac_max_queue :: int
  ac_wait_ms :: int
  ac_timeout_ms :: int

definition positive_integer :: "string \<Rightarrow> int \<Rightarrow> string + int" where
  "positive_integer name v = (if v \<le> 0 then Inl (name @ '' must be a positive number'') else Inr v)"

definition non_negative_integer :: "string \<Rightarrow> int \<Rightarrow> string + int" where
  "non_negative_integer name v = (if v < 0 then Inl (name @ '' must be a non-negative number'') else Inr v)"

definition calculate_background_admission_capacity :: "admission_config \<Rightarrow> string + int" where
  "calculate_background_admission_capacity c =
     (case positive_integer ''maxConcurrent'' (ac_max_concurrent c) of Inl e \<Rightarrow> Inl e | Inr slots \<Rightarrow>
     (case non_negative_integer ''maxQueueDepth'' (ac_max_queue c) of Inl e \<Rightarrow> Inl e | Inr depth \<Rightarrow>
     (case non_negative_integer ''backgroundAdmissionWaitMs'' (ac_wait_ms c) of Inl e \<Rightarrow> Inl e | Inr wait \<Rightarrow>
     (case positive_integer ''requestTimeoutMs'' (ac_timeout_ms c) of Inl e \<Rightarrow> Inl e | Inr timeout \<Rightarrow>
       Inr (slots + min depth (max 0 (wait * slots div timeout)))))))"

definition resolve_background_producer_concurrency ::
    "admission_config \<Rightarrow> bool \<Rightarrow> string \<Rightarrow> int option \<Rightarrow> string + int" where
  "resolve_background_producer_concurrency c enabled name configured =
     (case calculate_background_admission_capacity c of Inl e \<Rightarrow> Inl e | Inr capacity \<Rightarrow>
     (case (case configured of None \<Rightarrow> Inr capacity | Some v \<Rightarrow> positive_integer (name @ '' concurrency'') v) of
        Inl e \<Rightarrow> Inl e
      | Inr v \<Rightarrow>
          if \<not> enabled then Inr v
          else if v > capacity then Inl (name @ '' concurrency exceeds background admission capacity'')
          else Inr v))"

text \<open>The cap never exceeds what the admission queue can drain in the wait budget.\<close>

lemma admission_capacity_bounds:
  assumes "calculate_background_admission_capacity c = Inr cap"
  shows "0 < ac_max_concurrent c" "ac_max_concurrent c \<le> cap" "cap \<le> ac_max_concurrent c + ac_max_queue c"
    "(cap - ac_max_concurrent c) * ac_timeout_ms c \<le> ac_wait_ms c * ac_max_concurrent c"
proof -
  note defs = calculate_background_admission_capacity_def positive_integer_def non_negative_integer_def
  have c: "0 < ac_max_concurrent c" "0 \<le> ac_max_queue c" "0 \<le> ac_wait_ms c" "0 < ac_timeout_ms c"
    and cap: "cap = ac_max_concurrent c + min (ac_max_queue c) (max 0 (ac_wait_ms c * ac_max_concurrent c div ac_timeout_ms c))"
    using assms by (auto simp: defs split: if_splits)
  have nonneg: "0 \<le> ac_wait_ms c * ac_max_concurrent c div ac_timeout_ms c"
    using c by (simp add: pos_imp_zdiv_nonneg_iff)
  show "0 < ac_max_concurrent c" "ac_max_concurrent c \<le> cap" "cap \<le> ac_max_concurrent c + ac_max_queue c"
    using c cap nonneg by auto
  have "(cap - ac_max_concurrent c) * ac_timeout_ms c
      \<le> (ac_wait_ms c * ac_max_concurrent c div ac_timeout_ms c) * ac_timeout_ms c"
    using c cap nonneg by (intro mult_right_mono) auto
  also have "\<dots> \<le> ac_wait_ms c * ac_max_concurrent c"
    using c by (metis div_mult_mod_eq add_increasing2 pos_mod_sign le_add_same_cancel1)
  finally show "(cap - ac_max_concurrent c) * ac_timeout_ms c \<le> ac_wait_ms c * ac_max_concurrent c" .
qed

lemma producer_concurrency_positive:
  assumes "resolve_background_producer_concurrency c enabled name configured = Inr v"
  shows "0 < v"
  using assms admission_capacity_bounds
  by (fastforce simp: resolve_background_producer_concurrency_def positive_integer_def split: sum.splits option.splits if_splits)

section \<open>Keyset pages\<close>

record ('i, 'c) page =
  pg_items :: "'i list"
  pg_next :: "'c option"

partial_function (option) iterate_mapping_pages ::
    "('c option \<Rightarrow> ('i, 'c) page) \<Rightarrow> ('i list \<Rightarrow> 's \<Rightarrow> bool \<times> 's) \<Rightarrow> 'c option \<Rightarrow> 's \<Rightarrow> 's option" where
  "iterate_mapping_pages fetch on_page cursor s =
     (if pg_items (fetch cursor) = [] then Some s
      else if fst (on_page (pg_items (fetch cursor)) s) then Some (snd (on_page (pg_items (fetch cursor)) s))
      else (case pg_next (fetch cursor) of
              None \<Rightarrow> Some (snd (on_page (pg_items (fetch cursor)) s))
            | Some c \<Rightarrow> iterate_mapping_pages fetch on_page (Some c) (snd (on_page (pg_items (fetch cursor)) s))))"

lemmas iterate_mapping_pages_code [code] = iterate_mapping_pages.simps

text \<open>\<open>WHERE .. AND id > cursor ORDER BY id ASC LIMIT n\<close>, with the last id as continuation of a full page.\<close>

definition find_active_mappings_page ::
    "('r \<Rightarrow> nat) \<Rightarrow> ('r \<Rightarrow> bool) \<Rightarrow> 'r list \<Rightarrow> nat \<Rightarrow> nat option \<Rightarrow> ('r, nat) page" where
  "find_active_mappings_page key active rows limit cursor =
     (let found = take limit (sort_key key (filter (\<lambda>r. key r > (case cursor of None \<Rightarrow> 0 | Some c \<Rightarrow> c) \<and> active r) rows))
      in \<lparr>pg_items = found,
          pg_next = (if found \<noteq> [] \<and> length found = limit then Some (key (last found)) else None)\<rparr>)"

text \<open>The rows behind a cursor, in key order.\<close>

definition behind :: "('r \<Rightarrow> nat) \<Rightarrow> ('r \<Rightarrow> bool) \<Rightarrow> 'r list \<Rightarrow> nat \<Rightarrow> 'r list" where
  "behind key active rows c = filter (\<lambda>r. key r > c \<and> active r) (sort_key key rows)"

lemma filter_sort_key: "filter P (sort_key f xs) = sort_key f (filter P xs)"
  by (simp add: filter_sort)

lemma behind_after_page:
  assumes "keyed key rows" "n = length ys" "behind key active rows c = ys @ zs" "ys \<noteq> []"
  shows "behind key active rows (key (last ys)) = zs"
proof -
  have sorted: "sorted (map key (behind key active rows c))" "distinct (map key (behind key active rows c))"
    using assms(1) by (auto simp: behind_def sorted_filter keyed_def distinct_map inj_on_def)
  let ?k = "key (last ys)"
  have ys: "key y \<le> ?k" if y: "y \<in> set ys" for y
  proof -
    have "sorted (map key ys)" using sorted(1) assms(3) by (simp add: sorted_append)
    moreover obtain i where "i < length ys" "ys ! i = y" using y by (auto simp: in_set_conv_nth)
    ultimately show ?thesis
      using assms(4) by (auto simp: last_conv_nth sorted_iff_nth_mono)
  qed
  have zs: "?k < key z" if "z \<in> set zs" for z
  proof -
    have "last ys \<in> set ys" using assms(4) by simp
    then have "?k \<le> key z" "?k \<noteq> key z"
      using sorted that assms(3) by (force simp: sorted_append)+
    then show ?thesis by simp
  qed
  have c: "c < ?k" using assms(3,4) last_in_set [OF assms(4)] by (force simp: behind_def dest: arg_cong [of _ _ set])
  have "behind key active rows ?k = filter (\<lambda>r. ?k < key r) (behind key active rows c)"
    using c by (auto simp: behind_def intro!: filter_cong)
  also have "\<dots> = zs" using ys zs by (auto simp: assms(3) filter_empty_conv not_less intro!: filter_True)
  finally show ?thesis .
qed

lemma page_items:
  "pg_items (find_active_mappings_page key active rows limit cursor) =
     take limit (behind key active rows (case cursor of None \<Rightarrow> 0 | Some c \<Rightarrow> c))"
  by (simp add: find_active_mappings_page_def behind_def filter_sort_key Let_def)

lemma page_next:
  "pg_next (find_active_mappings_page key active rows limit cursor) =
     (let found = pg_items (find_active_mappings_page key active rows limit cursor)
      in if found \<noteq> [] \<and> length found = limit then Some (key (last found)) else None)"
  by (simp add: find_active_mappings_page_def Let_def)

lemma scan_from:
  assumes "keyed key rows" "0 < limit"
  shows "\<exists>pages. iterate_mapping_pages (find_active_mappings_page key active rows limit) (\<lambda>items s. (False, handle items s)) cursor s
      = Some (fold handle pages s) \<and>
    concat pages = behind key active rows (case cursor of None \<Rightarrow> 0 | Some c \<Rightarrow> c) \<and>
    (\<forall>p\<in>set pages. p \<noteq> [] \<and> length p \<le> limit)"
proof (induction "length (behind key active rows (case cursor of None \<Rightarrow> 0 | Some c \<Rightarrow> c))" arbitrary: cursor s rule: less_induct)
  case less
  let ?rest = "behind key active rows (case cursor of None \<Rightarrow> 0 | Some c \<Rightarrow> c)"
  let ?items = "take limit ?rest"
  show ?case
  proof (cases "?rest = []")
    case True
    then show ?thesis
      by (subst iterate_mapping_pages.simps) (auto simp: page_items intro!: exI [of _ "[]"])
  next
    case ne: False
    then have items: "?items \<noteq> []" using assms(2) by simp
    show ?thesis
    proof (cases "length ?items = limit")
      case False
      then have "?items = ?rest" by simp
      then show ?thesis using False items
        by (subst iterate_mapping_pages.simps) (auto simp: page_items page_next Let_def intro!: exI [of _ "[?rest]"])
    next
      case True
      let ?c = "key (last ?items)"
      have rest: "behind key active rows ?c = drop limit ?rest"
        by (rule behind_after_page [OF assms(1) refl _ items]) simp
      moreover have "length (drop limit ?rest) < length ?rest" using ne assms(2) by simp
      ultimately obtain pages where
        "iterate_mapping_pages (find_active_mappings_page key active rows limit) (\<lambda>items s. (False, handle items s)) (Some ?c) (handle ?items s)
           = Some (fold handle pages (handle ?items s))"
        "concat pages = drop limit ?rest" "\<forall>p\<in>set pages. p \<noteq> [] \<and> length p \<le> limit"
        using less [of "Some ?c" "handle ?items s"] by auto
      then show ?thesis using True items
        by (subst iterate_mapping_pages.simps) (auto simp: page_items page_next Let_def intro!: exI [of _ "?items # pages"])
    qed
  qed
qed

text \<open>C30: Every active mapping is handed to the page handler exactly once, in the order of the ids, in
  pages of at most the requested size, and the scan ends; so a full sync reaches every linked
  learner. (Mapping ids are positive.)\<close>

theorem mapping_scan_complete:
  assumes "keyed key rows" "0 < limit" "\<forall>r\<in>set rows. 0 < key r"
  shows "\<exists>pages. iterate_mapping_pages (find_active_mappings_page key active rows limit)
        (\<lambda>items s. (False, handle items s)) None s = Some (fold handle pages s) \<and>
    concat pages = filter active (sort_key key rows) \<and> distinct (concat pages) \<and>
    (\<forall>p\<in>set pages. p \<noteq> [] \<and> length p \<le> limit)"
proof -
  have "behind key active rows 0 = filter active (sort_key key rows)"
    using assms(3) by (auto simp: behind_def intro!: filter_cong)
  moreover have "distinct rows" using assms(1) by (simp add: keyed_def distinct_map)
  ultimately show ?thesis using scan_from [OF assms(1,2), of active handle None s] by auto
qed

theorem mapping_scan_complete_witness:
  "\<exists>pages. iterate_mapping_pages (find_active_mappings_page fst snd [(3::nat, True), (1, True), (2, False)] 1)
        (\<lambda>items s. (False, s + length items)) None 0 = Some (fold (\<lambda>items s. s + length items) pages 0) \<and>
    concat pages = [(1 :: nat, True), (3, True)]"
  using mapping_scan_complete [of fst "[(3::nat, True), (1, True), (2, False)]" 1 snd "\<lambda>items s. s + length items" 0]
  by (auto simp: keyed_def)

end
