(* ===== verification/Reminder_Dispatch.thy ===== *)
theory Reminder_Dispatch
  imports Study_Reminder Js_Strings Paging
begin

text \<open>
  The dispatcher of study reminders (\<open>services/study-reminder-dispatch.service.ts\<close>) together with
  the delivery fence of the repository (\<open>withOwnedDelivery\<close>), running beside other workers.

  The world holds the job table, the account links and the links' tombstones. \<open>rd_provider\<close> and
  \<open>rd_tally\<close> are the local variables of the running dispatcher. \<open>rd_phase\<close>, \<open>rd_used\<close> and
  \<open>rd_sends\<close> are history variables: the job and phase of every lease token, the tokens handed out,
  and every call of the message provider. \<open>rd_others\<close> is the schedule of the other parties: before
  each database call of the dispatcher, the next list of moves of it is played. A move is one
  statement of another worker, of a calendar sync, of a cancellation, of the recovery, of the
  retention or of the account link code.

  The answers of the message sender, of the link probe and of the text generator are given per
  job (\<open>reminder_run\<close>); they are arbitrary. The callbacks of \<open>DISPATCH_HOOKS\<close> other than the text
  generator only count and do not throw.
\<close>

section \<open>The world\<close>

record link_row =
  ln_platform :: string
  ln_ext :: ext_id
  ln_user :: "user_id option"
  ln_state :: "string option"
  ln_gen :: "int option"
  ln_status :: "string option"

datatype phase = Working | Acked

record send_event =
  sv_job :: nat
  sv_gen :: nat
  sv_session :: string
  sv_scheduled :: millis
  sv_ext :: ext_id
  sv_user :: user_id
  sv_mgen :: int
  sv_link :: "link_row option"
  sv_outcome :: delivery_outcome

record rem_tally =
  ta_claimed :: nat
  ta_sent :: nat
  ta_cancelled :: nat
  ta_retried :: nat
  ta_failed :: nat
  ta_failures :: "(nat \<times> ext_id \<times> string) list"

definition zero_tally :: rem_tally where
  "zero_tally = \<lparr>ta_claimed = 0, ta_sent = 0, ta_cancelled = 0, ta_retried = 0, ta_failed = 0, ta_failures = []\<rparr>"

text \<open>The parameters of the fenced delivery of one claimed job.\<close>

record delivery_params =
  dp_platform :: string
  dp_job :: nat
  dp_token :: string
  dp_ext :: ext_id
  dp_user :: user_id
  dp_mgen :: int
  dp_key :: string

datatype rem_move =
    M_Claim string millis nat string
  | M_Deliver delivery_params bool delivery_outcome
  | M_Finish job_finish string
  | M_Crash string
  | M_Upsert bool "upsert_input list"
  | M_Cancel_Stale string ext_id "string list" "millis option" "reminder_status list option"
  | M_Cancel_User string ext_id string
  | M_Cancel_Others user_id string "reminder_status list option"
  | M_Cancel_Owner string ext_id "int option" "string option"
  | M_Reset string millis bool
  | M_Delete_Sent string "millis option"
  | M_Delete_Terminal string millis
  | M_Links "link_row list"
  | M_Tombstone "string \<times> string"
  | M_Clock millis

record rem_world = net +
  rd_rows :: jobs
  rd_next :: nat
  rd_links :: "link_row list"
  rd_tombs :: "(string \<times> string) list"
  rd_now :: millis
  rd_provider :: "delivery_outcome option"
  rd_tally :: rem_tally
  rd_phase :: "string \<Rightarrow> (nat \<times> phase) option"
  rd_used :: "string list"
  rd_sends :: "send_event list"
  rd_others :: "rem_move list list"

section \<open>The delivery fence\<close>

definition has_status_column :: "string \<Rightarrow> bool" where
  "has_status_column platform \<longleftrightarrow> platform = ''messenger''"

text \<open>\<open>ORDER BY id DESC LIMIT 1\<close>; the links are in the order of their ids.\<close>

definition latest_link :: "string \<Rightarrow> ext_id \<Rightarrow> link_row list \<Rightarrow> link_row option" where
  "latest_link platform ext links = find (\<lambda>l. ln_platform l = platform \<and> ln_ext l = ext) (rev links)"

definition link_state_of :: "link_row \<Rightarrow> string" where
  "link_state_of l = (case ln_state l of None \<Rightarrow> ''active'' | Some s \<Rightarrow> s)"

definition fence_reason :: "(ext_id \<Rightarrow> string) \<Rightarrow> delivery_params \<Rightarrow> rem_world \<Rightarrow> string option" where
  "fence_reason hash p w =
     (case latest_link (dp_platform p) (dp_ext p) (rd_links w) of
        None \<Rightarrow>
          Some (if (dp_platform p, hash (dp_ext p)) \<in> set (rd_tombs w) then ''locally_unlinked'' else ''link_status_unknown'')
      | Some l \<Rightarrow>
          if has_status_column (dp_platform p) \<and> ln_status l \<noteq> Some ''ACTIVE'' then Some ''locally_unlinked''
          else if link_state_of l = ''confirmed-revoked'' then Some ''link_revoked''
          else if link_state_of l = ''locally-unlinked'' then Some ''locally_unlinked''
          else if link_state_of l \<noteq> ''active'' then Some ''link_status_unknown''
          else if ln_gen l = None then Some ''mapping_generation_missing''
          else if (case ln_user l of None \<Rightarrow> 0 | Some u \<Rightarrow> u) \<noteq> dp_user p \<or> ln_gen l \<noteq> Some (dp_mgen p)
          then Some ''mapping_ownership_changed''
          else None)"

definition holds_reminder :: "delivery_params \<Rightarrow> jobs \<Rightarrow> bool" where
  "holds_reminder p rows = matches j_id (\<lambda>r. j_platform r = dp_platform p \<and> owns (dp_token p) r) (dp_job p) rows"

text \<open>
  The key is persisted and the provider is called while the mapping row and the job row are
  locked. A transaction that fails to commit loses the key, not the message.
\<close>

definition persist_key :: "delivery_params \<Rightarrow> millis \<Rightarrow> jobs \<Rightarrow> jobs" where
  "persist_key p now rows =
     snd (update_where j_id (\<lambda>r. j_platform r = dp_platform p \<and> owns (dp_token p) r)
       (\<lambda>r. r\<lparr>j_key := nvl (j_key r) (Some (dp_key p)), j_updated := now\<rparr>) (dp_job p) rows)"

definition deliver_reminder :: "delivery_params \<Rightarrow> bool \<Rightarrow> delivery_outcome \<Rightarrow> rem_world \<Rightarrow> rem_world" where
  "deliver_reminder p committed oc w =
     w\<lparr>rd_rows := (if committed then persist_key p (rd_now w) (rd_rows w) else rd_rows w),
       rd_sends := \<lparr>sv_job = dp_job p,
                    sv_gen = (case job_at (rd_rows w) (dp_job p) of None \<Rightarrow> 0 | Some r \<Rightarrow> j_gen r),
                    sv_session = (case job_at (rd_rows w) (dp_job p) of None \<Rightarrow> [] | Some r \<Rightarrow> j_session r),
                    sv_scheduled = (case job_at (rd_rows w) (dp_job p) of None \<Rightarrow> 0 | Some r \<Rightarrow> j_scheduled r),
                    sv_ext = dp_ext p, sv_user = dp_user p, sv_mgen = dp_mgen p,
                    sv_link = latest_link (dp_platform p) (dp_ext p) (rd_links w),
                    sv_outcome = oc\<rparr> # rd_sends w,
       rd_phase := (if oc = Not_Sent then rd_phase w else (rd_phase w)(dp_token p \<mapsto> (dp_job p, Acked)))\<rparr>"

section \<open>The moves of the other parties\<close>

definition fence_open :: "delivery_params \<Rightarrow> rem_world \<Rightarrow> bool" where
  "fence_open p w \<longleftrightarrow> fence_reason id p w = None"

fun finish_allowed :: "phase \<Rightarrow> job_finish \<Rightarrow> bool" where
  "finish_allowed Acked (Fin_Failed now p) = (fp_delivery p \<noteq> Not_Sent)"
| "finish_allowed _ _ = True"

fun play :: "rem_move \<Rightarrow> rem_world \<Rightarrow> rem_world" where
  "play (M_Claim platform lease_ms i t) w =
     (if t \<in> set (rd_used w) then w
      else case claim_reminder platform (rd_now w) lease_ms i t (rd_rows w) of
             (None, rows) \<Rightarrow> w\<lparr>rd_used := t # rd_used w\<rparr>
           | (Some r, rows) \<Rightarrow>
               w\<lparr>rd_rows := rows, rd_phase := (rd_phase w)(t \<mapsto> (i, Working)), rd_used := t # rd_used w\<rparr>)"
| "play (M_Deliver p committed oc) w =
     (if rd_phase w (dp_token p) = Some (dp_job p, Working) \<and> fence_open p w \<and> holds_reminder p (rd_rows w)
      then deliver_reminder p committed oc w else w)"
| "play (M_Finish a t) w =
     (case rd_phase w t of
        Some (i, ph) \<Rightarrow>
          if finish_allowed ph a then w\<lparr>rd_rows := snd (finish_job a i t (rd_rows w))\<rparr> else w
      | None \<Rightarrow> w)"
| "play (M_Crash t) w = w\<lparr>rd_phase := (rd_phase w)(t := None)\<rparr>"
| "play (M_Upsert b inputs) w =
     (case upsert_pending_jobs b (rd_now w) inputs (rd_next w, rd_rows w) of
        Inl e \<Rightarrow> w
      | Inr (n, rows) \<Rightarrow> w\<lparr>rd_rows := rows, rd_next := n\<rparr>)"
| "play (M_Cancel_Stale platform ext keys horizon statuses) w =
     w\<lparr>rd_rows := snd (cancel_stale_jobs (rd_now w) platform ext keys horizon statuses (rd_rows w))\<rparr>"
| "play (M_Cancel_User platform ext reason) w =
     w\<lparr>rd_rows := snd (cancel_pending_jobs_for_user (rd_now w) platform ext reason (rd_rows w))\<rparr>"
| "play (M_Cancel_Others user platform statuses) w =
     w\<lparr>rd_rows := snd (cancel_jobs_from_other_platforms (rd_now w) user platform statuses (rd_rows w))\<rparr>"
| "play (M_Cancel_Owner platform ext g reason) w =
     w\<lparr>rd_rows := snd (cancel_for_ownership_change (rd_now w) platform ext g reason (rd_rows w))\<rparr>"
| "play (M_Reset platform older_than to_pending) w =
     w\<lparr>rd_rows := snd (reset_stuck_reminders (rd_now w) platform older_than
          (if to_pending then RJ_Pending else RJ_Failed) (rd_rows w))\<rparr>"
| "play (M_Delete_Sent platform older_than) w =
     w\<lparr>rd_rows := snd (delete_sent_jobs platform older_than (rd_rows w))\<rparr>"
| "play (M_Delete_Terminal platform older_than) w =
     w\<lparr>rd_rows := snd (delete_terminal_jobs_older_than platform older_than (rd_rows w))\<rparr>"
| "play (M_Links links) w = w\<lparr>rd_links := links\<rparr>"
| "play (M_Tombstone x) w = w\<lparr>rd_tombs := x # rd_tombs w\<rparr>"
| "play (M_Clock t) w = w\<lparr>rd_now := t\<rparr>"

fun move_token :: "rem_move \<Rightarrow> string option" where
  "move_token (M_Claim platform lease_ms i t) = Some t"
| "move_token (M_Deliver p committed oc) = Some (dp_token p)"
| "move_token (M_Finish a t) = Some t"
| "move_token (M_Crash t) = Some t"
| "move_token _ = None"

definition interfere :: "rem_world \<Rightarrow> rem_world" where
  "interfere w = (case rd_others w of [] \<Rightarrow> w | ms # rest \<Rightarrow> fold play ms (w\<lparr>rd_others := rest\<rparr>))"

definition db :: "(rem_world \<Rightarrow> 'a \<times> rem_world) \<Rightarrow> (rem_world, 'a) comp" where
  "db f = bind_c (local_c interfere) (\<lambda>_. ask f)"

section \<open>Processing one job\<close>

datatype link_probe = Pb_Throws string | Pb_Null | Pb_Word string | Pb_Owner string "user_id option" "int option"

record rem_env =
  sr_platform :: string
  sr_lease_ms :: millis
  sr_stuck_ms :: millis
  sr_min_lead :: int
  sr_backoff_minutes :: int
  sr_flat :: bool
  sr_probe :: bool
  sr_classify :: "string \<Rightarrow> reminder_job \<Rightarrow> (bool \<times> string) option"
  sr_is_terminal :: "string \<Rightarrow> bool option"
  sr_hash :: "ext_id \<Rightarrow> string"
  sr_limit :: nat

record reminder_run =
  ru_token :: string
  ru_probe1 :: link_probe
  ru_probe2 :: link_probe
  ru_text :: "string + string"
  ru_uuid :: string
  ru_send :: "string + delivery_outcome"
  ru_lock_timeout :: bool
  ru_commits :: bool
  ru_jitter :: rat

definition tally :: "(rem_tally \<Rightarrow> rem_tally) \<Rightarrow> (rem_world, unit) comp" where
  "tally f = local_c (\<lambda>w. w\<lparr>rd_tally := f (rd_tally w)\<rparr>)"

definition tally_claimed :: "rem_tally \<Rightarrow> rem_tally" where "tally_claimed t = t\<lparr>ta_claimed := Suc (ta_claimed t)\<rparr>"
definition tally_sent :: "rem_tally \<Rightarrow> rem_tally" where "tally_sent t = t\<lparr>ta_sent := Suc (ta_sent t)\<rparr>"
definition tally_cancelled :: "rem_tally \<Rightarrow> rem_tally" where "tally_cancelled t = t\<lparr>ta_cancelled := Suc (ta_cancelled t)\<rparr>"

definition tally_failed :: "reminder_job \<Rightarrow> string \<Rightarrow> rem_tally \<Rightarrow> rem_tally" where
  "tally_failed c e t = t\<lparr>ta_failed := Suc (ta_failed t), ta_failures := ta_failures t @ [(j_id c, j_ext c, e)]\<rparr>"

definition tally_retried :: "reminder_job \<Rightarrow> string \<Rightarrow> rem_tally \<Rightarrow> rem_tally" where
  "tally_retried c e t = t\<lparr>ta_retried := Suc (ta_retried t), ta_failures := ta_failures t @ [(j_id c, j_ext c, e)]\<rparr>"

definition claim_call :: "rem_env \<Rightarrow> nat \<Rightarrow> string \<Rightarrow> (rem_world, reminder_job option) comp" where
  "claim_call env i t = db (\<lambda>w.
     case claim_reminder (sr_platform env) (rd_now w) (sr_lease_ms env) i t (rd_rows w) of
       (None, rows) \<Rightarrow> (None, w\<lparr>rd_used := t # rd_used w\<rparr>)
     | (Some c, rows) \<Rightarrow>
         (Some c, w\<lparr>rd_rows := rows, rd_phase := (rd_phase w)(t \<mapsto> (i, Working)), rd_used := t # rd_used w\<rparr>))"

definition finish_call :: "(millis \<Rightarrow> job_finish) \<Rightarrow> nat \<Rightarrow> string \<Rightarrow> (rem_world, bool) comp" where
  "finish_call a i t = db (\<lambda>w.
     case finish_job (a (rd_now w)) i t (rd_rows w) of (ok, rows) \<Rightarrow> (ok, w\<lparr>rd_rows := rows\<rparr>))"

definition mark_cancelled_call :: "string \<Rightarrow> reminder_job \<Rightarrow> string \<Rightarrow> (rem_world, unit) comp" where
  "mark_cancelled_call reason c t =
     bind_c (finish_call (\<lambda>now. Fin_Cancelled now (Some reason)) (j_id c) t) (\<lambda>_. tally tally_cancelled)"

definition cancel_for_fence :: "string \<Rightarrow> reminder_job \<Rightarrow> string \<Rightarrow> (rem_world, bool) comp" where
  "cancel_for_fence reason c t = bind_c (mark_cancelled_call reason c t) (\<lambda>_. return_c False)"

definition check_state :: "reminder_job \<Rightarrow> string \<Rightarrow> string \<Rightarrow> (rem_world, bool) comp \<Rightarrow> (rem_world, bool) comp" where
  "check_state c t state active =
     (if state = ''active'' then active
      else if state = ''confirmed-revoked'' then cancel_for_fence ''link_revoked'' c t
      else if state = ''locally-unlinked'' then cancel_for_fence ''locally_unlinked'' c t
      else throw_c (''link status unavailable ('' @ state @ '')''))"

definition check_mapping_before_send :: "rem_env \<Rightarrow> link_probe \<Rightarrow> reminder_job \<Rightarrow> string \<Rightarrow> (rem_world, bool) comp" where
  "check_mapping_before_send env probe c t =
     (if \<not> sr_probe env then return_c True
      else case probe of
        Pb_Throws e \<Rightarrow> throw_c e
      | Pb_Null \<Rightarrow> return_c True
      | Pb_Word state \<Rightarrow> check_state c t state (cancel_for_fence ''mapping_generation_missing'' c t)
      | Pb_Owner state user g \<Rightarrow>
          check_state c t state
            (if j_user c = None \<or> j_mgen c = None \<or> user = None \<or> user = Some 0 \<or> g = None
             then cancel_for_fence ''mapping_generation_missing'' c t
             else if user \<noteq> j_user c \<or> g \<noteq> j_mgen c then cancel_for_fence ''mapping_ownership_changed'' c t
             else return_c True))"

datatype fence_result = Denied string | Delivered delivery_outcome "string option"

definition reminder_send_result :: "string + delivery_outcome \<Rightarrow> delivery_outcome \<times> string option" where
  "reminder_send_result r = (case r of Inl e \<Rightarrow> (Not_Sent, Some e) | Inr oc \<Rightarrow> (oc, None))"

definition with_owned_delivery :: "rem_env \<Rightarrow> delivery_params \<Rightarrow> reminder_run \<Rightarrow> (rem_world, fence_result) comp" where
  "with_owned_delivery env p run =
     (if ru_lock_timeout run then return_c (Denied ''ownership_lock_timeout'')
      else bind_c (db (\<lambda>w.
        case fence_reason (sr_hash env) p w of
          Some reason \<Rightarrow> (Denied reason, w)
        | None \<Rightarrow>
            if \<not> holds_reminder p (rd_rows w) then (Denied ''lease_lost'', w)
            else case reminder_send_result (ru_send run) of (oc, err) \<Rightarrow>
              (Delivered oc err,
               (deliver_reminder p (ru_commits run) oc w)\<lparr>rd_provider := (case ru_send run of Inl _ \<Rightarrow> rd_provider w | Inr x \<Rightarrow> Some x)\<rparr>)))
        (\<lambda>r. case r of
           Denied reason \<Rightarrow> return_c r
         | Delivered oc err \<Rightarrow> if ru_commits run then return_c r else throw_c ''commit failed''))"

definition failed_with :: "string \<Rightarrow> nat \<Rightarrow> delivery_outcome \<Rightarrow> millis \<Rightarrow> job_finish" where
  "failed_with e retry oc now =
     Fin_Failed now \<lparr>fp_error = e, fp_retry = retry, fp_next = None, fp_terminal = True, fp_delivery = oc\<rparr>"

text \<open>A terminal outcome is persisted if the database lets us, and counted either way.\<close>

definition close_terminal :: "string \<Rightarrow> nat \<Rightarrow> delivery_outcome \<Rightarrow> reminder_job \<Rightarrow> string \<Rightarrow> (rem_world, unit) comp" where
  "close_terminal e retry oc c t =
     bind_c (catch_c (finish_call (failed_with e retry oc) (j_id c) t) (\<lambda>_. return_c False))
       (\<lambda>_. tally (tally_failed c e))"

definition outcome_error :: "delivery_outcome \<Rightarrow> string" where
  "outcome_error oc = (if oc = Ambiguous then ''ambiguous delivery - not auto-retried'' else ''outbound_rate_limited'')"

definition fence_threw :: "string \<Rightarrow> reminder_job \<Rightarrow> string \<Rightarrow> (rem_world, fence_result option) comp" where
  "fence_threw e c t = get_c (\<lambda>w.
     case rd_provider w of
       Some oc \<Rightarrow>
         if oc \<noteq> Not_Sent then
           bind_c (close_terminal
               (if oc = Ambiguous then ''ambiguous delivery - ownership finalization failed''
                else if oc = Rate_Limited then ''outbound_rate_limited''
                else ''delivery acknowledged but ownership finalization failed: '' @ e)
               (max (j_retry c + 1) (j_max c)) oc c t)
             (\<lambda>_. return_c None)
         else throw_c e
     | None \<Rightarrow> throw_c e)"

definition settle_sent :: "reminder_job \<Rightarrow> string \<Rightarrow> string \<Rightarrow> (rem_world, unit) comp" where
  "settle_sent c t key =
     bind_c (catch_c (bind_c (finish_call (\<lambda>now. Fin_Sent now (Some ''sent'') (Some key)) (j_id c) t) (\<lambda>ok. return_c (Some ok)))
        (\<lambda>e. bind_c (close_terminal (''delivery acknowledged but finalization failed: '' @ e) (j_retry c + 1) Ambiguous c t)
               (\<lambda>_. return_c None)))
       (\<lambda>r. if r = Some True then tally tally_sent else return_c ())"

definition settle_outcome :: "delivery_outcome \<Rightarrow> string option \<Rightarrow> reminder_job \<Rightarrow> string \<Rightarrow> string \<Rightarrow> (rem_world, unit) comp" where
  "settle_outcome oc err c t key =
     (case oc of
        Sent \<Rightarrow> settle_sent c t key
      | Not_Sent \<Rightarrow> throw_c (case err of Some e \<Rightarrow> e | None \<Rightarrow> ''outbound not_sent'')
      | _ \<Rightarrow> close_terminal (outcome_error oc) (j_retry c + 1) oc c t)"

definition job_params :: "rem_env \<Rightarrow> reminder_job \<Rightarrow> string \<Rightarrow> user_id \<Rightarrow> int \<Rightarrow> string \<Rightarrow> delivery_params" where
  "job_params env c t u g key =
     \<lparr>dp_platform = sr_platform env, dp_job = j_id c, dp_token = t, dp_ext = j_ext c, dp_user = u, dp_mgen = g, dp_key = key\<rparr>"

definition delivery_key_of :: "reminder_job \<Rightarrow> string \<Rightarrow> string" where
  "delivery_key_of c uuid = (case j_key c of Some k \<Rightarrow> k | None \<Rightarrow> ''reminder:'' @ nat_str (j_id c) @ '':'' @ uuid)"

definition fenced_send :: "rem_env \<Rightarrow> reminder_run \<Rightarrow> reminder_job \<Rightarrow> string \<Rightarrow> (rem_world, unit) comp" where
  "fenced_send env run c t =
     (case (j_user c, j_mgen c) of
        (Some u, Some g) \<Rightarrow>
          (let key = delivery_key_of c (ru_uuid run) in
           bind_c (catch_c (bind_c (with_owned_delivery env (job_params env c t u g key) run) (\<lambda>r. return_c (Some r)))
                    (\<lambda>e. fence_threw e c t))
             (\<lambda>r. case r of
                None \<Rightarrow> return_c ()
              | Some (Denied reason) \<Rightarrow>
                  if reason \<in> {''mapping_ownership_changed'', ''mapping_generation_missing'', ''link_revoked'', ''locally_unlinked''}
                  then bind_c (cancel_for_fence reason c t) (\<lambda>_. return_c ())
                  else if reason = ''lease_lost'' then return_c ()
                  else throw_c (''mapping fence unavailable ('' @ reason @ '')'')
              | Some (Delivered oc err) \<Rightarrow> settle_outcome oc err c t key))
      | _ \<Rightarrow> bind_c (cancel_for_fence ''mapping_generation_missing'' c t) (\<lambda>_. return_c ()))"

definition dormant_reason :: string where
  "dormant_reason = ''recipient dormant (web inactivity)''"

definition attempt_job :: "rem_env \<Rightarrow> millis \<Rightarrow> user_id list \<Rightarrow> reminder_run \<Rightarrow> reminder_job \<Rightarrow> string \<Rightarrow> (rem_world, unit) comp" where
  "attempt_job env now dormant run c t =
     bind_c (check_mapping_before_send env (ru_probe1 run) c t) (\<lambda>go.
       if \<not> go then return_c ()
       else if (case j_user c of None \<Rightarrow> False | Some u \<Rightarrow> u \<in> set dormant) then mark_cancelled_call dormant_reason c t
       else if is_session_started (j_scheduled c) (sr_min_lead env) now then mark_cancelled_call ''session already started'' c t
       else case ru_text run of
         Inl e \<Rightarrow> throw_c e
       | Inr text \<Rightarrow>
           bind_c (check_mapping_before_send env (ru_probe2 run) c t) (\<lambda>go2.
             if \<not> go2 then return_c () else fenced_send env run c t))"

definition nominal_backoff_ms :: "rem_env \<Rightarrow> nat \<Rightarrow> int" where
  "nominal_backoff_ms env retries =
     (let ms = sr_backoff_minutes env * 60 * 1000 in if sr_flat env then ms else ms * 2 ^ retries)"

definition attempt_failed :: "rem_env \<Rightarrow> millis \<Rightarrow> reminder_run \<Rightarrow> reminder_job \<Rightarrow> string \<Rightarrow> string \<Rightarrow> (rem_world, unit) comp" where
  "attempt_failed env now run c t e =
     (let cl = sr_classify env e c;
          final = (case cl of Some x \<Rightarrow> fst x
                      | None \<Rightarrow> (case sr_is_terminal env e of Some b \<Rightarrow> b | None \<Rightarrow> j_retry c + 1 \<ge> j_max c));
          msg = (case cl of Some x \<Rightarrow> snd x | None \<Rightarrow> e);
          n = j_retry c + 1;
          next_at = (if final then None
                     else Some \<lfloor>of_int now + jittered_delay_ms (nominal_backoff_ms env (j_retry c)) (ru_jitter run)\<rfloor>)
      in bind_c (finish_call (\<lambda>ts. Fin_Failed ts
             \<lparr>fp_error = msg, fp_retry = (if final then max n (j_max c) else n), fp_next = next_at,
              fp_terminal = final, fp_delivery = Not_Sent\<rparr>) (j_id c) t)
           (\<lambda>_. tally (if final then tally_failed c msg else tally_retried c msg)))"

definition run_claimed :: "rem_env \<Rightarrow> millis \<Rightarrow> user_id list \<Rightarrow> reminder_run \<Rightarrow> reminder_job \<Rightarrow> string \<Rightarrow> (rem_world, unit) comp" where
  "run_claimed env now dormant run c t =
     bind_c (tally tally_claimed) (\<lambda>_.
       if j_delivery c \<in> {Some Ambiguous, Some Rate_Limited} then
         close_terminal (outcome_error (the (j_delivery c))) (max (j_retry c + 1) (j_max c)) (the (j_delivery c)) c t
       else if j_delivery c = Some Sent \<or> (j_record c \<noteq> None \<and> j_record c \<noteq> Some []) then
         bind_c (finish_call (\<lambda>ts. Fin_Sent ts None None) (j_id c) t)
           (\<lambda>ok. if ok then tally tally_sent else return_c ())
       else catch_c (attempt_job env now dormant run c t) (attempt_failed env now run c t))"

definition process_job :: "rem_env \<Rightarrow> millis \<Rightarrow> user_id list \<Rightarrow> reminder_run \<Rightarrow> nat \<Rightarrow> (rem_world, unit) comp" where
  "process_job env now dormant run i =
     bind_c (local_c (\<lambda>w. w\<lparr>rd_provider := None\<rparr>)) (\<lambda>_.
     bind_c (claim_call env i (ru_token run)) (\<lambda>claimed.
       case claimed of
         None \<Rightarrow> return_c ()
       | Some c \<Rightarrow> run_claimed env now dormant run c (case j_lease c of None \<Rightarrow> [] | Some x \<Rightarrow> x)))"

section \<open>A dispatch run\<close>

record dispatch_result =
  di_tally :: rem_tally
  di_reset :: nat
  di_next_due :: "millis option"

text \<open>\<open>Promise.allSettled\<close>: a job that throws does not disturb the others.\<close>

fun run_jobs :: "rem_env \<Rightarrow> millis \<Rightarrow> user_id list \<Rightarrow> (nat \<Rightarrow> reminder_run) \<Rightarrow> nat list \<Rightarrow> (rem_world, unit) comp" where
  "run_jobs env now dormant runs [] = return_c ()"
| "run_jobs env now dormant runs (i # is) =
     bind_c (catch_c (process_job env now dormant (runs i) i) (\<lambda>_. return_c ())) (\<lambda>_. run_jobs env now dormant runs is)"

definition unique_user_ids :: "jobs \<Rightarrow> user_id list" where
  "unique_user_ids due = remdups (filter (\<lambda>u. u \<noteq> 0) (List.map_filter j_user due))"

definition dormant_users :: "(user_id list \<Rightarrow> string + user_id list) option \<Rightarrow> jobs \<Rightarrow> user_id list" where
  "dormant_users flt due =
     (case flt of
        None \<Rightarrow> []
      | Some f \<Rightarrow>
          if unique_user_ids due = [] then []
          else case f (unique_user_ids due) of Inl e \<Rightarrow> [] | Inr ids \<Rightarrow> ids)"

text \<open>
  A result \<open>None\<close> is a run whose batch loop never ends. The jobs of a batch run concurrently; here
  they run in order, with the statements of the others as interference.
\<close>

definition dispatch_found ::
    "rem_env \<Rightarrow> millis \<Rightarrow> user_id list \<Rightarrow> (nat \<Rightarrow> reminder_run) \<Rightarrow> nat \<Rightarrow> jobs \<Rightarrow> (rem_world, dispatch_result option) comp" where
  "dispatch_found env now dormant runs reset due =
     (case batches (sr_limit env) 0 due of
        None \<Rightarrow> return_c None
      | Some bs \<Rightarrow>
          bind_c (run_jobs env now dormant runs (map j_id (concat bs))) (\<lambda>_.
          bind_c (catch_c (db (\<lambda>w. (find_next_due_time now (Some (sr_platform env)) (rd_rows w), w))) (\<lambda>_. return_c None)) (\<lambda>next_due.
          get_c (\<lambda>w. return_c (Some \<lparr>di_tally = rd_tally w, di_reset = reset, di_next_due = next_due\<rparr>)))))"

definition dispatch_due_reminders ::
    "rem_env \<Rightarrow> (user_id list \<Rightarrow> string + user_id list) option \<Rightarrow> (nat \<Rightarrow> reminder_run) \<Rightarrow> (rem_world, dispatch_result option) comp" where
  "dispatch_due_reminders env flt runs = get_c (\<lambda>w0.
     let now = rd_now w0 in
     bind_c (local_c (\<lambda>w. w\<lparr>rd_tally := zero_tally\<rparr>)) (\<lambda>_.
     bind_c (db (\<lambda>w. case reset_stuck_reminders (rd_now w) (sr_platform env) (now - sr_stuck_ms env) RJ_Failed (rd_rows w) of
                       (n, rows) \<Rightarrow> (n, w\<lparr>rd_rows := rows\<rparr>))) (\<lambda>reset.
     bind_c (db (\<lambda>w. (find_due_reminders (sr_platform env) now (sr_min_lead env) (rd_rows w), w))) (\<lambda>due.
       dispatch_found env now (dormant_users flt due) runs reset due))))"

end
