(* ===== verification/Reminder_Workers.thy ===== *)
theory Reminder_Workers
  imports Reminder_Dispatch
begin

text \<open>
  Any number of reminder workers beside calendar syncs, cancellations, recovery, retention and
  changes of the account links. The invariant relates, for one job, its row, the workers that hold
  it and the acknowledged sends so far; every move keeps it. The dispatcher's code, run on any
  world with any interference, only makes such moves, so the guarantees hold for the code.
\<close>

section \<open>The invariant\<close>

definition acks :: "send_event list \<Rightarrow> nat \<Rightarrow> nat list" where
  "acks l i = map sv_gen (filter (\<lambda>e. sv_job e = i \<and> sv_outcome e \<noteq> Not_Sent) l)"

lemma acks_Nil [simp]: "acks [] i = []"
  and acks_Cons [simp]: "acks (e # l) i = (if sv_job e = i \<and> sv_outcome e \<noteq> Not_Sent then sv_gen e # acks l i else acks l i)"
  by (simp_all add: acks_def)

definition busy :: "(string \<Rightarrow> (nat \<times> phase) option) \<Rightarrow> nat \<Rightarrow> reminder_job \<Rightarrow> bool" where
  "busy phase i r \<longleftrightarrow> (\<exists>t. owns t r \<and> phase t = Some (i, Working))"

definition job_ok ::
    "(string \<Rightarrow> (nat \<times> phase) option) \<Rightarrow> string list \<Rightarrow> nat list \<Rightarrow> nat \<Rightarrow> reminder_job option \<Rightarrow> bool" where
  "job_ok phase used gens i ro \<longleftrightarrow> distinct gens \<and>
     (\<forall>r. ro = Some r \<longrightarrow>
        (\<forall>g\<in>set gens. g \<le> j_gen r) \<and>
        (j_gen r \<in> set gens \<longrightarrow> job_closed r \<or> (j_status r = RJ_Processing \<and> \<not> busy phase i r)) \<and>
        (\<forall>t. owns t r \<longrightarrow> t \<in> set used \<and> (\<forall>k ph. phase t = Some (k, ph) \<longrightarrow> k = i)))"

abbreviation entry_ok :: "rem_world \<Rightarrow> jobs \<Rightarrow> nat \<Rightarrow> bool" where
  "entry_ok w rows i \<equiv> job_ok (rd_phase w) (rd_used w) (acks (rd_sends w) i) i (job_at rows i)"

definition rem_inv :: "rem_world \<Rightarrow> bool" where
  "rem_inv w \<longleftrightarrow> keyed j_id (rd_rows w) \<and>
     (\<forall>r\<in>set (rd_rows w). j_id r < rd_next w) \<and>
     (\<forall>e\<in>set (rd_sends w). sv_job e < rd_next w) \<and>
     (\<forall>t k ph. rd_phase w t = Some (k, ph) \<longrightarrow> t \<in> set (rd_used w) \<and> k < rd_next w) \<and>
     (\<forall>i. entry_ok w (rd_rows w) i)"

lemma rem_invD:
  assumes "rem_inv w"
  shows "keyed j_id (rd_rows w)" "r \<in> set (rd_rows w) \<Longrightarrow> j_id r < rd_next w"
    "e \<in> set (rd_sends w) \<Longrightarrow> sv_job e < rd_next w"
    "rd_phase w t = Some (k, ph) \<Longrightarrow> t \<in> set (rd_used w)" "rd_phase w t = Some (k, ph) \<Longrightarrow> k < rd_next w"
    "entry_ok w (rd_rows w) i"
  using assms unfolding rem_inv_def by blast+

lemma find_append: "find P (xs @ ys) = (case find P xs of None \<Rightarrow> find P ys | Some x \<Rightarrow> Some x)"
  by (induction xs) auto

lemma job_at_id: "job_at rows i = Some r \<Longrightarrow> j_id r = i \<and> r \<in> set rows"
  by (auto simp: find_Some_iff)

lemma rem_inv_rows:
  assumes "rem_inv w" "keyed j_id rows" "\<And>r. r \<in> set rows \<Longrightarrow> j_id r < n" "rd_next w \<le> n"
    "\<And>i. entry_ok w rows i"
  shows "rem_inv (w\<lparr>rd_rows := rows, rd_next := n\<rparr>)"
proof -
  have "k < n \<and> t \<in> set (rd_used w)" if "rd_phase w t = Some (k, ph)" for t k ph
    using rem_invD(4,5) [OF assms(1) that] assms(4) by simp
  moreover have "sv_job e < n" if "e \<in> set (rd_sends w)" for e
    using rem_invD(3) [OF assms(1) that] assms(4) by simp
  ultimately show ?thesis using assms(2,3,5) unfolding rem_inv_def by auto
qed

lemma job_ok_mono: "job_ok phase used gens i ro \<Longrightarrow> job_ok phase used gens i None"
  by (simp add: job_ok_def)

lemma job_ok_external:
  assumes "job_ok phase used gens i (Some r)" "external r r'"
  shows "job_ok phase used gens i (Some r')"
proof (cases "r' = r")
  case False
  then have idle: "j_status r' \<noteq> RJ_Processing"
    and gen: "j_gen r < j_gen r' \<or> (j_gen r' = j_gen r \<and> (job_closed r \<or> j_status r = RJ_Processing \<longrightarrow> job_closed r'))"
    using assms(2) by (auto simp: external_def)
  then have "\<not> owns t r'" for t by (simp add: owns_def)
  then show ?thesis using assms(1) gen unfolding job_ok_def by fastforce
qed (use assms in simp)

lemma external_at:
  assumes "list_all2 external rows rows'"
  shows "(job_at rows i = None \<and> job_at rows' i = None) \<or>
    (\<exists>r r'. job_at rows i = Some r \<and> job_at rows' i = Some r' \<and> external r r')"
  using assms by (induction rule: list_all2_induct) (auto simp: external_id)

lemma keyed_map_id: "map j_id ys = map j_id xs \<Longrightarrow> keyed j_id xs \<Longrightarrow> keyed j_id ys"
  by (simp add: keyed_def)

lemma same_ids_bound: "map j_id ys = map j_id xs \<Longrightarrow> (\<And>r. r \<in> set xs \<Longrightarrow> j_id r < n) \<Longrightarrow> r \<in> set ys \<Longrightarrow> j_id r < n"
  by (metis imageE image_eqI set_map)

lemma entry_ok_external:
  "entry_ok w rows i \<Longrightarrow> list_all2 external rows rows' \<Longrightarrow> entry_ok w rows' i"
  using external_at [of rows rows' i] job_ok_external by fastforce

lemma rem_inv_external:
  assumes "rem_inv w" "list_all2 external (rd_rows w) rows"
  shows "rem_inv (w\<lparr>rd_rows := rows\<rparr>)"
proof -
  have ids: "map j_id rows = map j_id (rd_rows w)" by (rule external_ids [OF assms(2)])
  then have "j_id r < rd_next w" if "r \<in> set rows" for r
    using same_ids_bound [OF ids] rem_invD(2) [OF assms(1)] that by blast
  then have "rem_inv (w\<lparr>rd_rows := rows, rd_next := rd_next w\<rparr>)"
    using keyed_map_id [OF ids rem_invD(1) [OF assms(1)]] entry_ok_external [OF rem_invD(6) [OF assms(1)] assms(2)]
    by (intro rem_inv_rows [OF assms(1)]) simp_all
  then show ?thesis by simp
qed

lemma rem_inv_delete:
  assumes "rem_inv w"
  shows "rem_inv (w\<lparr>rd_rows := sql_delete P (rd_rows w)\<rparr>)"
proof -
  have "rem_inv (w\<lparr>rd_rows := sql_delete P (rd_rows w), rd_next := rd_next w\<rparr>)"
  proof (rule rem_inv_rows [OF assms])
    show "keyed j_id (sql_delete P (rd_rows w))"
      using rem_invD(1) [OF assms] by (simp add: keyed_delete)
    fix i
    show "entry_ok w (sql_delete P (rd_rows w)) i"
      using rem_invD(6) [OF assms, of i] find_sql_delete [OF rem_invD(1) [OF assms], of i P] job_ok_mono
      by (auto split: option.splits if_splits)
  qed (use rem_invD(2) [OF assms] in auto)
  then show ?thesis by simp
qed

lemma rem_inv_upsert:
  assumes "rem_inv w" "upsert_pending_jobs b now inputs (rd_next w, rd_rows w) = Inr (n, rows)"
  shows "rem_inv (w\<lparr>rd_rows := rows, rd_next := n\<rparr>)"
proof -
  obtain kept news where s: "rows = kept @ news" "list_all2 external (rd_rows w) kept"
    "\<And>r. r \<in> set news \<Longrightarrow> j_status r \<noteq> RJ_Processing" "map j_id news = [rd_next w..<n]" "rd_next w \<le> n"
    using upsert_shape [OF assms(2)] by blast
  have kept: "map j_id kept = map j_id (rd_rows w)" by (rule external_ids [OF s(2)])
  have newid: "rd_next w \<le> j_id r \<and> j_id r < n" if "r \<in> set news" for r
    using that arg_cong [OF s(4), of set] by auto
  have keptid: "j_id r < rd_next w" if "r \<in> set kept" for r
    using same_ids_bound [OF kept] rem_invD(2) [OF assms(1)] that by blast
  have "entry_ok w (kept @ news) i" for i
  proof (cases "job_at kept i")
    case (Some r)
    then have "job_at (kept @ news) i = Some r" by (simp add: find_append)
    then show ?thesis using entry_ok_external [OF rem_invD(6) [OF assms(1)] s(2), of i] Some by simp
  next
    case None
    then have at: "job_at (kept @ news) i = job_at news i" by (simp add: find_append)
    show ?thesis
    proof (cases "job_at news i")
      case None
      then show ?thesis using at rem_invD(6) [OF assms(1), of i] job_ok_mono by simp
    next
      case (Some r)
      then have r: "r \<in> set news" "j_id r = i" using job_at_id by blast+
      then have "acks (rd_sends w) i = []"
        using newid [OF r(1)] rem_invD(3) [OF assms(1)] by (fastforce simp: acks_def filter_empty_conv)
      then show ?thesis using at Some s(3) [OF r(1)] by (simp add: job_ok_def owns_def)
    qed
  qed
  moreover have "keyed j_id (kept @ news)"
  proof -
    have "x < rd_next w" if "x \<in> set (map j_id kept)" for x using that keptid by auto
    then have "set (map j_id kept) \<inter> set (map j_id news) = {}" unfolding s(4) by fastforce
    then show ?thesis using rem_invD(1) [OF assms(1)] unfolding keyed_def map_append distinct_append kept s(4) by simp
  qed
  ultimately show ?thesis
    unfolding s(1) using keptid newid s(5) by (intro rem_inv_rows [OF assms(1)]) (auto intro: less_le_trans)
qed

text \<open>A worker's own statements.\<close>

lemma entry_ok_update:
  assumes "rem_inv w" "\<And>r. j_id (f r) = j_id r"
    "\<And>r. job_at (rd_rows w) i = Some r \<Longrightarrow> P r \<Longrightarrow> job_ok (rd_phase w) (rd_used w) (acks (rd_sends w) i) i (Some (f r))"
  shows "rem_inv (w\<lparr>rd_rows := snd (update_where j_id P f i (rd_rows w))\<rparr>)"
proof -
  let ?rows = "snd (update_where j_id P f i (rd_rows w))"
  have ids: "map j_id ?rows = map j_id (rd_rows w)"
    by (simp add: update_where_def sql_update_def assms(2))
  have "entry_ok w ?rows k" for k
    using rem_invD(6) [OF assms(1), of k] assms(3)
    by (cases "job_at (rd_rows w) i") (auto simp: find_update_where assms(2))
  then have "rem_inv (w\<lparr>rd_rows := ?rows, rd_next := rd_next w\<rparr>)"
    using keyed_map_id [OF ids rem_invD(1) [OF assms(1)]] same_ids_bound [OF ids rem_invD(2) [OF assms(1)]]
    by (intro rem_inv_rows [OF assms(1)]) simp_all
  then show ?thesis by simp
qed

lemma closed_finish: "finish_allowed Acked a \<Longrightarrow> job_closed (finish_patch a r)"
  by (cases a) (auto simp: job_closed_def cancel_row_def is_terminal_delivery_outcome_def intro: delivery_outcome.exhaust)

lemma rem_inv_finish:
  assumes "rem_inv w" "rd_phase w t = Some (i, ph)" "finish_allowed ph a"
  shows "rem_inv (w\<lparr>rd_rows := snd (finish_job a i t (rd_rows w))\<rparr>)"
  unfolding finish_job_update
proof (rule entry_ok_update [OF assms(1)])
  fix r assume r: "job_at (rd_rows w) i = Some r" "owns t r"
  have ok: "job_ok (rd_phase w) (rd_used w) (acks (rd_sends w) i) i (Some r)"
    using rem_invD(6) [OF assms(1), of i] r(1) by simp
  have "job_closed (finish_patch a r)" if "j_gen r \<in> set (acks (rd_sends w) i)"
  proof -
    have "\<not> job_closed r" using r(2) by (simp add: owns_def job_closed_def)
    then have "\<not> busy (rd_phase w) i r" using ok that by (simp add: job_ok_def)
    then have "ph = Acked" using r(2) assms(2) by (cases ph) (auto simp: busy_def)
    then show ?thesis using assms(3) closed_finish by simp
  qed
  moreover have "\<not> owns u (finish_patch a r)" for u by (simp add: owns_def)
  ultimately show "job_ok (rd_phase w) (rd_used w) (acks (rd_sends w) i) i (Some (finish_patch a r))"
    using ok by (simp add: job_ok_def)
qed simp

lemma job_ok_phase:
  assumes "job_ok phase used gens i ro" "\<And>t k ph. phase' t = Some (k, ph) \<Longrightarrow> phase t = Some (k, ph)"
  shows "job_ok phase' used gens i ro"
proof -
  have "busy phase' i r \<Longrightarrow> busy phase i r" for r using assms(2) by (auto simp: busy_def)
  then show ?thesis using assms unfolding job_ok_def by blast
qed

lemma rem_inv_crash:
  assumes "rem_inv w"
  shows "rem_inv (w\<lparr>rd_phase := (rd_phase w)(t := None)\<rparr>)"
proof -
  have "job_ok ((rd_phase w)(t := None)) (rd_used w) (acks (rd_sends w) i) i (job_at (rd_rows w) i)" for i
    by (rule job_ok_phase [OF rem_invD(6) [OF assms]]) (simp split: if_splits)
  then show ?thesis using assms unfolding rem_inv_def by simp
qed

lemma rem_inv_use: "rem_inv w \<Longrightarrow> rem_inv (w\<lparr>rd_used := t # rd_used w\<rparr>)"
  unfolding rem_inv_def job_ok_def by auto

definition claimed_row :: "millis \<Rightarrow> millis \<Rightarrow> string \<Rightarrow> reminder_job \<Rightarrow> reminder_job" where
  "claimed_row now lease_ms t r =
     r\<lparr>j_status := RJ_Processing, j_lease := Some t, j_lease_exp := Some (now + lease_ms), j_started := Some now, j_delivery := None\<rparr>"

lemma claim_some:
  assumes "claim_reminder platform now lease_ms i t rows = (Some c, rows')" "keyed j_id rows"
  shows "\<exists>r. job_at rows i = Some r \<and> j_platform r = platform \<and> dispatch_predicate r \<and> c = claimed_row now lease_ms t r"
    "job_at rows' k = (if k = i then Some c else job_at rows k)" "map j_id rows' = map j_id rows"
proof -
  let ?P = "\<lambda>r. j_platform r = platform \<and> dispatch_predicate r"
  have hit: "matches j_id ?P i rows" "rows' = snd (update_where j_id ?P (claimed_row now lease_ms t) i rows)" "job_at rows' i = Some c"
    using assms(1) by (auto simp: claim_reminder_def claimed_row_def [abs_def] update_where_def split: if_splits)
  have f: "j_id (claimed_row now lease_ms t r) = j_id r" for r by (simp add: claimed_row_def)
  obtain r where r: "job_at rows i = Some r" "?P r" using matches_keyed [OF assms(2)] hit(1) by auto
  then have "job_at rows' i = Some (claimed_row now lease_ms t r)" by (simp add: hit(2) find_update_where f)
  with r hit(3) show "\<exists>r. job_at rows i = Some r \<and> j_platform r = platform \<and> dispatch_predicate r \<and> c = claimed_row now lease_ms t r"
    by simp
  show "job_at rows' k = (if k = i then Some c else job_at rows k)"
    using hit(3) by (simp add: hit(2) find_update_where f)
  show "map j_id rows' = map j_id rows" by (simp add: hit(2) update_where_def sql_update_def f)
qed

lemma rem_inv_claim:
  assumes "rem_inv w" "t \<notin> set (rd_used w)" "claim_reminder platform now lease_ms i t (rd_rows w) = (Some c, rows)"
  shows "rem_inv (w\<lparr>rd_rows := rows, rd_phase := (rd_phase w)(t \<mapsto> (i, Working)), rd_used := t # rd_used w\<rparr>)"
proof -
  note claimed = claim_some [OF assms(3) rem_invD(1) [OF assms(1)]]
  obtain r where r: "job_at (rd_rows w) i = Some r" "dispatch_predicate r" "c = claimed_row now lease_ms t r"
    using claimed(1) by blast
  note at = claimed(2) and ids = claimed(3)
  let ?phase = "(rd_phase w)(t \<mapsto> (i, Working))"
  have idle: "\<not> owns t q" if "job_at (rd_rows w) k = Some q" for k q
    using rem_invD(6) [OF assms(1), of k] that assms(2) by (auto simp: job_ok_def)
  have "job_ok ?phase (t # rd_used w) (acks (rd_sends w) k) k (job_at rows k)" for k
  proof (cases "k = i")
    case True
    have "j_gen r \<notin> set (acks (rd_sends w) i)"
      using rem_invD(6) [OF assms(1), of i] r(1) dispatchable_not_closed [OF r(2)] by (auto simp: job_ok_def)
    then show ?thesis
      using True rem_invD(6) [OF assms(1), of i] r(1) by (auto simp: at job_ok_def r(3) owns_def claimed_row_def)
  next
    case False
    show ?thesis
    proof (cases "job_at (rd_rows w) k")
      case None
      then show ?thesis using False rem_invD(6) [OF assms(1), of k] by (simp add: at job_ok_def)
    next
      case (Some q)
      have eq: "owns u q \<Longrightarrow> ?phase u = rd_phase w u" for u using idle [OF Some] by (cases "u = t") simp_all
      have "busy ?phase k q = busy (rd_phase w) k q"
        unfolding busy_def by (rule ex_cong1) (use eq in \<open>blast intro: trans sym\<close>)
      then show ?thesis using False rem_invD(6) [OF assms(1), of k] eq Some by (simp add: at job_ok_def)
    qed
  qed
  moreover have "i < rd_next w" using rem_invD(2) [OF assms(1)] job_at_id [OF r(1)] by blast
  ultimately show ?thesis
    using assms(1) keyed_map_id [OF ids] same_ids_bound [OF ids rem_invD(2) [OF assms(1)]]
    unfolding rem_inv_def by (auto split: if_splits)
qed

lemma rem_inv_send:
  assumes "rem_inv w" "rd_phase w t = Some (i, Working)" "job_at (rd_rows w) i = Some r" "owns t r"
    "sv_job e = i" "sv_gen e = j_gen r"
  shows "rem_inv (w\<lparr>rd_sends := e # rd_sends w,
    rd_phase := (if sv_outcome e = Not_Sent then rd_phase w else (rd_phase w)(t \<mapsto> (i, Acked)))\<rparr>)"
proof -
  let ?phase = "if sv_outcome e = Not_Sent then rd_phase w else (rd_phase w)(t \<mapsto> (i, Acked))"
  have i: "i < rd_next w" using rem_invD(5) [OF assms(1,2)] .
  have ok: "job_ok (rd_phase w) (rd_used w) (acks (rd_sends w) i) i (Some r)"
    using rem_invD(6) [OF assms(1), of i] assms(3) by simp
  have fresh: "j_gen r \<notin> set (acks (rd_sends w) i)"
    using ok assms(2,4) by (auto simp: job_ok_def busy_def owns_def job_closed_def)
  have calm: "\<not> busy ((rd_phase w)(t \<mapsto> (i, Acked))) i r"
    using assms(4) by (auto simp: busy_def owns_def split: if_splits)
  have "job_ok ?phase (rd_used w) (acks (e # rd_sends w) k) k (job_at (rd_rows w) k)" for k
  proof (cases "sv_outcome e = Not_Sent")
    case True
    then show ?thesis using rem_invD(6) [OF assms(1), of k] by simp
  next
    case ack: False
    show ?thesis
    proof (cases "k = i")
      case True
      then show ?thesis
        using ack ok fresh calm assms(3-6) by (auto simp: job_ok_def owns_def split: if_splits)
    next
      case False
      have "busy ((rd_phase w)(t \<mapsto> (i, Acked))) k q \<Longrightarrow> busy (rd_phase w) k q" for q
        by (auto simp: busy_def split: if_splits)
      moreover have "\<not> owns t q" if "job_at (rd_rows w) k = Some q" for q
        using rem_invD(6) [OF assms(1), of k] that assms(2) False by (auto simp: job_ok_def)
      ultimately show ?thesis
        using rem_invD(6) [OF assms(1), of k] False ack assms(5) unfolding job_ok_def by (auto split: if_splits)
    qed
  qed
  then show ?thesis using assms(1,2,5) i unfolding rem_inv_def by (auto split: if_splits)
qed

lemma holds_reminderD:
  assumes "holds_reminder p rows" "keyed j_id rows"
  obtains r where "job_at rows (dp_job p) = Some r" "owns (dp_token p) r" "j_platform r = dp_platform p"
  using assms by (auto simp: holds_reminder_def matches_keyed)

lemma persist_key_inv:
  assumes "rem_inv w"
  shows "rem_inv (w\<lparr>rd_rows := persist_key p now (rd_rows w)\<rparr>)"
  unfolding persist_key_def
proof (rule entry_ok_update [OF assms])
  fix r assume r: "job_at (rd_rows w) (dp_job p) = Some r"
  let ?r = "r\<lparr>j_key := nvl (j_key r) (Some (dp_key p)), j_updated := now\<rparr>"
  have "job_closed ?r = job_closed r" by (cases "j_status r") (simp_all add: job_closed_def)
  then show "job_ok (rd_phase w) (rd_used w) (acks (rd_sends w) (dp_job p)) (dp_job p) (Some ?r)"
    using rem_invD(6) [OF assms, of "dp_job p"] r by (simp add: job_ok_def owns_def busy_def)
qed simp

lemma rem_inv_deliver:
  assumes "rem_inv w" "rd_phase w (dp_token p) = Some (dp_job p, Working)" "holds_reminder p (rd_rows w)"
  shows "rem_inv (deliver_reminder p committed oc w)"
proof -
  obtain r where r: "job_at (rd_rows w) (dp_job p) = Some r" "owns (dp_token p) r"
    using holds_reminderD [OF assms(3) rem_invD(1) [OF assms(1)]] .
  let ?rows = "if committed then persist_key p (rd_now w) (rd_rows w) else rd_rows w"
  let ?w = "w\<lparr>rd_rows := ?rows\<rparr>"
  let ?e = "\<lparr>sv_job = dp_job p, sv_gen = j_gen r, sv_session = j_session r, sv_scheduled = j_scheduled r, sv_ext = dp_ext p, sv_user = dp_user p, sv_mgen = dp_mgen p,
      sv_link = latest_link (dp_platform p) (dp_ext p) (rd_links w), sv_outcome = oc\<rparr>"
  obtain r' where r': "job_at ?rows (dp_job p) = Some r'" "owns (dp_token p) r'" "j_gen r' = j_gen r"
    using r by (cases committed; cases "j_platform r = dp_platform p") (simp_all add: persist_key_def find_update_where owns_def)
  have "rem_inv ?w" using assms(1) persist_key_inv by simp
  moreover have "deliver_reminder p committed oc w = ?w\<lparr>rd_sends := ?e # rd_sends ?w,
      rd_phase := (if sv_outcome ?e = Not_Sent then rd_phase ?w else (rd_phase ?w)(dp_token p \<mapsto> (dp_job p, Acked)))\<rparr>"
    by (simp add: deliver_reminder_def r(1))
  ultimately show ?thesis
    using rem_inv_send [of ?w "dp_token p" "dp_job p" r' ?e] assms(2) r' by simp
qed

lemma rem_inv_frame [simp]:
  "rem_inv (w\<lparr>rd_links := links\<rparr>) = rem_inv w" "rem_inv (w\<lparr>rd_tombs := tombs\<rparr>) = rem_inv w"
  "rem_inv (w\<lparr>rd_now := now\<rparr>) = rem_inv w" "rem_inv (w\<lparr>rd_others := others\<rparr>) = rem_inv w"
  "rem_inv (w\<lparr>rd_provider := pr\<rparr>) = rem_inv w" "rem_inv (w\<lparr>rd_tally := ta\<rparr>) = rem_inv w"
  "rem_inv (w\<lparr>n_replies := rs\<rparr>) = rem_inv w"
  by (simp_all add: rem_inv_def)

lemma play_inv: "rem_inv w \<Longrightarrow> rem_inv (play m w)"
proof (cases m)
  case (M_Claim platform lease_ms i t)
  assume "rem_inv w"
  then show ?thesis
    using M_Claim rem_inv_use rem_inv_claim by (auto split: prod.splits option.splits)
next
  case (M_Upsert b inputs)
  assume "rem_inv w"
  then show ?thesis using M_Upsert rem_inv_upsert by (auto split: sum.splits)
qed (auto simp: rem_inv_deliver rem_inv_crash rem_inv_finish rem_inv_delete delete_sent_jobs_def
      delete_terminal_jobs_older_than_def Let_def cancel_stale_jobs_def cancel_pending_jobs_for_user_def
      cancel_jobs_from_other_platforms_def cancel_for_ownership_change_def reset_stuck_reminders_def
      intro!: rem_inv_external list_all2_external_update split: option.splits)

lemma plays_inv: "rem_inv w \<Longrightarrow> rem_inv (fold play ms w)"
  by (induction ms arbitrary: w) (simp_all add: play_inv)

section \<open>The dispatcher only makes moves\<close>

text \<open>What remains of the world without the dispatcher's local state and the schedules.\<close>

definition core :: "rem_world \<Rightarrow> rem_world" where
  "core w = w\<lparr>n_replies := [], rd_others := [], rd_provider := None, rd_tally := zero_tally\<rparr>"

lemma core_simps [simp]:
  "rd_rows (core w) = rd_rows w" "rd_next (core w) = rd_next w" "rd_links (core w) = rd_links w"
  "rd_tombs (core w) = rd_tombs w" "rd_now (core w) = rd_now w" "rd_phase (core w) = rd_phase w"
  "rd_used (core w) = rd_used w" "rd_sends (core w) = rd_sends w"
  by (simp_all add: core_def)

lemma core_frame [simp]:
  "core (w\<lparr>n_replies := rs\<rparr>) = core w" "core (w\<lparr>rd_others := others\<rparr>) = core w"
  "core (w\<lparr>rd_provider := pr\<rparr>) = core w" "core (w\<lparr>rd_tally := ta\<rparr>) = core w"
  by (simp_all add: core_def)

lemma core_update:
  "core (w\<lparr>rd_rows := rows\<rparr>) = (core w)\<lparr>rd_rows := rows\<rparr>" "core (w\<lparr>rd_next := n\<rparr>) = (core w)\<lparr>rd_next := n\<rparr>"
  "core (w\<lparr>rd_links := links\<rparr>) = (core w)\<lparr>rd_links := links\<rparr>" "core (w\<lparr>rd_tombs := tombs\<rparr>) = (core w)\<lparr>rd_tombs := tombs\<rparr>"
  "core (w\<lparr>rd_now := now\<rparr>) = (core w)\<lparr>rd_now := now\<rparr>" "core (w\<lparr>rd_phase := phase\<rparr>) = (core w)\<lparr>rd_phase := phase\<rparr>"
  "core (w\<lparr>rd_used := used\<rparr>) = (core w)\<lparr>rd_used := used\<rparr>" "core (w\<lparr>rd_sends := sends\<rparr>) = (core w)\<lparr>rd_sends := sends\<rparr>"
  by (simp_all add: core_def)

lemma fence_core [simp]: "fence_reason hash p (core w) = fence_reason hash p w" "fence_open p (core w) = fence_open p w"
  by (simp_all add: fence_reason_def fence_open_def)

lemma core_deliver: "core (deliver_reminder p committed oc w) = deliver_reminder p committed oc (core w)"
  by (simp add: deliver_reminder_def core_update)

lemma play_core: "core (play m w) = play m (core w)"
  by (cases m) (auto simp: core_update core_deliver split: prod.splits option.splits sum.splits)

lemma play_local [simp]:
  "n_replies (play m w) = n_replies w" "rd_others (play m w) = rd_others w" "rd_provider (play m w) = rd_provider w"
  "rd_tally (play m w) = rd_tally w"
  by (cases m; auto simp: deliver_reminder_def split: prod.splits option.splits sum.splits)+

lemma play_other:
  "move_token m \<noteq> Some t \<Longrightarrow> rd_phase (play m w) t = rd_phase w t"
  "move_token m \<noteq> Some t \<Longrightarrow> t \<in> set (rd_used (play m w)) \<longleftrightarrow> t \<in> set (rd_used w)"
  by (cases m; auto simp: deliver_reminder_def split: prod.splits option.splits sum.splits)+

definition reached :: "rem_world \<Rightarrow> rem_world \<Rightarrow> bool" where
  "reached w0 w \<longleftrightarrow> (\<exists>ms. core w = fold play ms (core w0))"

lemma reached_refl: "reached w w"
  unfolding reached_def by (rule exI [of _ "[]"]) simp

lemma reached_play: "reached w0 w \<Longrightarrow> reached w0 (play m w)"
  unfolding reached_def play_core by (metis fold_append fold_simps comp_apply)

lemma reached_core: "reached w0 w \<Longrightarrow> core w' = core w \<Longrightarrow> reached w0 w'"
  by (simp add: reached_def)

lemma reached_trans: "reached w0 w1 \<Longrightarrow> reached w1 w2 \<Longrightarrow> reached w0 w2"
  unfolding reached_def by (metis fold_append comp_apply)

lemma rem_inv_core [simp]: "rem_inv (core w) = rem_inv w"
  by (simp add: core_def)

lemma reached_inv: "reached w0 w \<Longrightarrow> rem_inv w0 \<Longrightarrow> rem_inv w"
  unfolding reached_def by (metis plays_inv rem_inv_core)

text \<open>The worker of token \<open>t\<close> is in a given phase, and no other party uses its token.\<close>

definition undisturbed :: "string \<Rightarrow> rem_world \<Rightarrow> bool" where
  "undisturbed t w \<longleftrightarrow> (\<forall>ms\<in>set (rd_others w). \<forall>m\<in>set ms. move_token m \<noteq> Some t)"

definition stands :: "rem_world \<Rightarrow> string \<Rightarrow> (nat \<times> phase) option \<Rightarrow> rem_world \<Rightarrow> bool" where
  "stands w0 t st w \<longleftrightarrow> reached w0 w \<and> rd_phase w t = st \<and> (st = None \<longrightarrow> t \<notin> set (rd_used w)) \<and> undisturbed t w"

lemma stands_reached: "stands w0 t st w \<Longrightarrow> reached w0 w"
  by (simp add: stands_def)

lemma stands_local [simp]:
  "stands w0 t st (w\<lparr>n_replies := rs\<rparr>) = stands w0 t st w" "stands w0 t st (w\<lparr>rd_provider := pr\<rparr>) = stands w0 t st w"
  "stands w0 t st (w\<lparr>rd_tally := ta\<rparr>) = stands w0 t st w"
  by (simp_all add: stands_def reached_def undisturbed_def)

lemma reached_local [simp]:
  "reached w0 (w\<lparr>n_replies := rs\<rparr>) = reached w0 w" "reached w0 (w\<lparr>rd_provider := pr\<rparr>) = reached w0 w"
  "reached w0 (w\<lparr>rd_tally := ta\<rparr>) = reached w0 w" "reached w0 (w\<lparr>rd_others := others\<rparr>) = reached w0 w"
  by (simp_all add: reached_def)

lemma stands_plays:
  "\<lbrakk>stands w0 t st w; \<And>m. m \<in> set ms \<Longrightarrow> move_token m \<noteq> Some t\<rbrakk> \<Longrightarrow>
   stands w0 t st (fold play ms w) \<and> rd_provider (fold play ms w) = rd_provider w"
proof (induction ms arbitrary: w)
  case (Cons m ms)
  have "stands w0 t st (play m w)"
    using Cons.prems play_other [of m t w] by (simp add: stands_def reached_play undisturbed_def)
  then show ?case using Cons.IH [of "play m w"] Cons.prems(2) by simp
qed simp

lemma interfere_stands:
  "stands w0 t st w \<Longrightarrow> stands w0 t st (interfere w)" "stands w0 t st w \<Longrightarrow> rd_provider (interfere w) = rd_provider w"
proof -
  assume st: "stands w0 t st w"
  have "stands w0 t st (interfere w) \<and> rd_provider (interfere w) = rd_provider w"
  proof (cases "rd_others w")
    case (Cons ms rest)
    then have "stands w0 t st (w\<lparr>rd_others := rest\<rparr>)" "\<And>m. m \<in> set ms \<Longrightarrow> move_token m \<noteq> Some t"
      using st by (auto simp: stands_def undisturbed_def)
    from stands_plays [OF this] show ?thesis using Cons by (simp add: interfere_def)
  qed (use st in \<open>simp add: interfere_def\<close>)
  then show "stands w0 t st (interfere w)" "rd_provider (interfere w) = rd_provider w" by simp_all
qed

lemma interfere_reached: "reached w0 w \<Longrightarrow> reached w0 (interfere w)"
proof -
  have "reached w0 w \<Longrightarrow> reached w0 (fold play ms w)" for ms w
    by (induction ms arbitrary: w) (simp_all add: reached_play)
  then show "reached w0 w \<Longrightarrow> reached w0 (interfere w)" by (simp add: interfere_def split: list.split)
qed

lemma hoare_ask_plain:
  assumes "\<And>w rs. P w \<Longrightarrow> P (w\<lparr>n_replies := rs\<rparr>)" "\<And>w e. P w \<Longrightarrow> E e w"
    "\<And>w e. P w \<Longrightarrow> E e (snd (f w))" "\<And>w. P w \<Longrightarrow> Q (fst (f w)) (snd (f w))"
  shows "hoare P (ask f) Q E"
  by (rule hoare_ask) (use assms in blast)+

lemma hoare_db: "(\<And>w. P w \<Longrightarrow> P (interfere w)) \<Longrightarrow> hoare P (ask f) Q E \<Longrightarrow> hoare P (db f) Q E"
  unfolding db_def by (rule hoare_bind [of _ _ "\<lambda>_. P"]) (simp_all add: hoare_local)

text \<open>The two situations of a claimed job: nothing acknowledged yet, and an acknowledged send.\<close>

definition pre_send :: "rem_world \<Rightarrow> string \<Rightarrow> nat \<Rightarrow> rem_world \<Rightarrow> bool" where
  "pre_send w0 t i w \<longleftrightarrow> stands w0 t (Some (i, Working)) w \<and> rd_provider w \<in> {None, Some Not_Sent}"

definition post_send :: "rem_world \<Rightarrow> string \<Rightarrow> nat \<Rightarrow> rem_world \<Rightarrow> bool" where
  "post_send w0 t i w \<longleftrightarrow> stands w0 t (Some (i, Acked)) w \<and> rd_provider w \<notin> {None, Some Not_Sent}"

lemma send_states_reached: "pre_send w0 t i w \<Longrightarrow> reached w0 w" "post_send w0 t i w \<Longrightarrow> reached w0 w"
  by (auto simp: pre_send_def post_send_def dest: stands_reached)

lemma send_states_interfere:
  "pre_send w0 t i w \<Longrightarrow> pre_send w0 t i (interfere w)" "post_send w0 t i w \<Longrightarrow> post_send w0 t i (interfere w)"
  using interfere_stands by (auto simp: pre_send_def post_send_def)

lemma send_states_local [simp]:
  "pre_send w0 t i (w\<lparr>n_replies := rs\<rparr>) = pre_send w0 t i w" "post_send w0 t i (w\<lparr>n_replies := rs\<rparr>) = post_send w0 t i w"
  "pre_send w0 t i (w\<lparr>rd_tally := ta\<rparr>) = pre_send w0 t i w" "post_send w0 t i (w\<lparr>rd_tally := ta\<rparr>) = post_send w0 t i w"
  by (simp_all add: pre_send_def post_send_def)

lemma play_finish:
  assumes "rd_phase w t = Some (i, ph)" "finish_allowed ph a"
  shows "w\<lparr>rd_rows := snd (finish_job a i t (rd_rows w))\<rparr> = play (M_Finish a t) w"
  using assms by simp

lemma stands_finish:
  assumes "stands w0 t (Some (i, ph)) w" "finish_allowed ph a"
  shows "stands w0 t (Some (i, ph)) (w\<lparr>rd_rows := snd (finish_job a i t (rd_rows w))\<rparr>)"
proof -
  have "reached w0 (w\<lparr>rd_rows := snd (finish_job a i t (rd_rows w))\<rparr>)"
    using play_finish [of w t i ph a] assms reached_play by (simp add: stands_def del: play.simps)
  then show ?thesis using assms(1) by (simp add: stands_def undisturbed_def)
qed

lemma hoare_finish_pre:
  "hoare (pre_send w0 t i) (finish_call a i t) (\<lambda>_. pre_send w0 t i) (\<lambda>_. pre_send w0 t i)"
  unfolding finish_call_def
  by (rule hoare_db, erule send_states_interfere, rule hoare_ask_plain)
     (auto simp: pre_send_def case_prod_unfold stands_finish)

lemma hoare_finish_post:
  assumes "\<And>now. finish_allowed Acked (a now)"
  shows "hoare (post_send w0 t i) (finish_call a i t) (\<lambda>_. post_send w0 t i) (\<lambda>_. post_send w0 t i)"
  unfolding finish_call_def
  by (rule hoare_db, erule send_states_interfere, rule hoare_ask_plain)
     (auto simp: post_send_def case_prod_unfold stands_finish assms)

lemma hoare_bump: "(\<And>w ta. P (w\<lparr>rd_tally := ta\<rparr>) = P w) \<Longrightarrow> hoare P (tally f) (\<lambda>_. P) E"
  unfolding tally_def by (rule hoare_local) simp

lemma hoare_cancel_pre:
  "hoare (pre_send w0 t (j_id c)) (mark_cancelled_call reason c t) (\<lambda>_. pre_send w0 t (j_id c)) (\<lambda>_. pre_send w0 t (j_id c))"
  unfolding mark_cancelled_call_def by (rule hoare_bind [OF hoare_finish_pre]) (rule hoare_bump, simp)

lemma hoare_fence_cancel:
  "hoare (pre_send w0 t (j_id c)) (cancel_for_fence reason c t) (\<lambda>_. pre_send w0 t (j_id c)) (\<lambda>_. pre_send w0 t (j_id c))"
  unfolding cancel_for_fence_def by (rule hoare_bind [OF hoare_cancel_pre]) (rule hoare_return)

lemma hoare_check:
  "hoare (pre_send w0 t (j_id c)) (check_mapping_before_send env probe c t) (\<lambda>_. pre_send w0 t (j_id c)) (\<lambda>_. pre_send w0 t (j_id c))"
  unfolding check_mapping_before_send_def check_state_def
  by (auto intro!: hoare_return hoare_throw hoare_fence_cancel split: link_probe.split)

lemma hoare_close_pre:
  "hoare (pre_send w0 t (j_id c)) (close_terminal e n oc c t) (\<lambda>_. pre_send w0 t (j_id c)) (\<lambda>_. pre_send w0 t (j_id c))"
  unfolding close_terminal_def
  by (rule hoare_bind [OF hoare_catch [OF hoare_finish_pre]]) (rule hoare_return hoare_bump, simp)+

lemma hoare_close_post:
  "oc \<noteq> Not_Sent \<Longrightarrow> hoare (post_send w0 t (j_id c)) (close_terminal e n oc c t) (\<lambda>_. post_send w0 t (j_id c)) (\<lambda>_. pre_send w0 t (j_id c))"
  unfolding close_terminal_def
  by (rule hoare_bind [OF hoare_catch [OF hoare_finish_post]])
     (auto simp: failed_with_def intro!: hoare_return hoare_bump)

lemma hoare_bump_done:
  "hoare (post_send w0 t i) (tally f) (\<lambda>_. reached w0) E" "hoare (post_send w0 t i) (return_c x) (\<lambda>_. reached w0) E"
  "hoare (pre_send w0 t i) (tally f) (\<lambda>_. reached w0) E" "hoare (pre_send w0 t i) (return_c x) (\<lambda>_. reached w0) E"
  by (simp_all add: tally_def hoare_local hoare_return send_states_reached)

text \<open>Every call that may fail after an acknowledged send is caught.\<close>

lemma hoare_settle_sent:
  "hoare (post_send w0 t (j_id c)) (settle_sent c t key) (\<lambda>_. reached w0) (\<lambda>_. pre_send w0 t (j_id c))"
  unfolding settle_sent_def
  by (rule hoare_bind [where R = "\<lambda>_. post_send w0 t (j_id c)"],
      rule hoare_catch [where R = "\<lambda>_. post_send w0 t (j_id c)"],
      rule hoare_bind [OF hoare_finish_post])
     (auto intro!: hoare_bump_done hoare_bind [OF hoare_close_post] intro: hoare_return)

lemma hoare_settle:
  "oc \<noteq> Not_Sent \<Longrightarrow>
   hoare (post_send w0 t (j_id c)) (settle_outcome oc err c t key) (\<lambda>_. reached w0) (\<lambda>_. pre_send w0 t (j_id c))"
  unfolding settle_outcome_def
  by (cases oc) (auto intro!: hoare_settle_sent intro: hoare_conseq [OF hoare_close_post] send_states_reached)

lemma fence_hash: "fence_reason hash p w = None \<longleftrightarrow> fence_open p w"
  by (simp add: fence_open_def fence_reason_def split: option.split)

lemma stands_deliver:
  assumes "stands w0 (dp_token p) (Some (dp_job p, Working)) w" "fence_open p w" "holds_reminder p (rd_rows w)"
  shows "stands w0 (dp_token p) (Some (dp_job p, if oc = Not_Sent then Working else Acked)) (deliver_reminder p committed oc w)"
proof -
  have "deliver_reminder p committed oc w = play (M_Deliver p committed oc) w" using assms by (simp add: stands_def)
  then have "reached w0 (deliver_reminder p committed oc w)" using assms(1) reached_play by (simp add: stands_def del: play.simps)
  then show ?thesis using assms(1) by (simp add: stands_def deliver_reminder_def undisturbed_def)
qed

definition send_state :: "rem_world \<Rightarrow> string \<Rightarrow> nat \<Rightarrow> delivery_outcome \<Rightarrow> rem_world \<Rightarrow> bool" where
  "send_state w0 t i oc = (if oc = Not_Sent then pre_send w0 t i else post_send w0 t i)"

lemma deliver_state:
  assumes "pre_send w0 (dp_token p) (dp_job p) w" "fence_open p w" "holds_reminder p (rd_rows w)"
    "reminder_send_result s = (oc, err)"
  shows "send_state w0 (dp_token p) (dp_job p) oc
    ((deliver_reminder p committed oc w)\<lparr>rd_provider := (case s of Inl _ \<Rightarrow> rd_provider w | Inr x \<Rightarrow> Some x)\<rparr>)"
  using stands_deliver [of w0 p w oc committed] assms
  by (auto simp: send_state_def pre_send_def post_send_def reminder_send_result_def split: sum.splits)

lemma hoare_owned:
  "hoare (pre_send w0 (dp_token p) (dp_job p)) (with_owned_delivery env p run)
     (\<lambda>r. case r of Denied reason \<Rightarrow> pre_send w0 (dp_token p) (dp_job p)
          | Delivered oc err \<Rightarrow> send_state w0 (dp_token p) (dp_job p) oc)
     (\<lambda>e w. pre_send w0 (dp_token p) (dp_job p) w \<or> post_send w0 (dp_token p) (dp_job p) w)"
proof (cases "ru_lock_timeout run")
  case True
  then show ?thesis by (simp add: with_owned_delivery_def hoare_return)
next
  case False
  let ?Q = "\<lambda>r. case r of Denied reason \<Rightarrow> pre_send w0 (dp_token p) (dp_job p)
      | Delivered oc err \<Rightarrow> send_state w0 (dp_token p) (dp_job p) oc"
  let ?E = "\<lambda>e w. pre_send w0 (dp_token p) (dp_job p) w \<or> post_send w0 (dp_token p) (dp_job p) w"
  let ?f = "\<lambda>w. case fence_reason (sr_hash env) p w of
      Some reason \<Rightarrow> (Denied reason, w)
    | None \<Rightarrow>
        if \<not> holds_reminder p (rd_rows w) then (Denied ''lease_lost'', w)
        else case reminder_send_result (ru_send run) of (oc, err) \<Rightarrow>
          (Delivered oc err,
           (deliver_reminder p (ru_commits run) oc w)\<lparr>rd_provider := (case ru_send run of Inl _ \<Rightarrow> rd_provider w | Inr x \<Rightarrow> Some x)\<rparr>)"
  have f: "?Q (fst (?f w)) (snd (?f w))" if "pre_send w0 (dp_token p) (dp_job p) w" for w
    using deliver_state [OF that, of "ru_send run"] that fence_hash [of "sr_hash env" p w]
    by (auto split: option.split prod.split)
  have QE: "?Q r w \<Longrightarrow> ?E e w" for r e w by (cases r) (auto simp: send_state_def split: if_splits)
  have "hoare (pre_send w0 (dp_token p) (dp_job p)) (db ?f) ?Q ?E"
    by (rule hoare_db, erule send_states_interfere, rule hoare_ask_plain, simp, simp, rule QE, erule f, erule f)
  moreover have "hoare (?Q r) (case r of Denied reason \<Rightarrow> return_c r
      | Delivered oc err \<Rightarrow> if ru_commits run then return_c r else throw_c ''commit failed'') ?Q ?E" for r
    by (cases r) (auto intro!: hoare_return hoare_throw simp: send_state_def split: if_splits)
  ultimately show ?thesis
    using False unfolding with_owned_delivery_def by (simp add: hoare_bind)
qed

lemma hoare_fence_threw:
  "hoare (\<lambda>w. pre_send w0 t (j_id c) w \<or> post_send w0 t (j_id c) w) (fence_threw e c t)
     (\<lambda>r w. r = None \<and> reached w0 w) (\<lambda>_. pre_send w0 t (j_id c))"
  unfolding fence_threw_def
proof (rule hoare_get)
  fix v
  show "hoare (\<lambda>w. (pre_send w0 t (j_id c) w \<or> post_send w0 t (j_id c) w) \<and> w = v)
    (case rd_provider v of
       Some oc \<Rightarrow>
         if oc \<noteq> Not_Sent then
           bind_c (close_terminal
               (if oc = Ambiguous then ''ambiguous delivery - ownership finalization failed''
                else if oc = Rate_Limited then ''outbound_rate_limited''
                else ''delivery acknowledged but ownership finalization failed: '' @ e)
               (max (j_retry c + 1) (j_max c)) oc c t) (\<lambda>_. return_c None)
         else throw_c e
     | None \<Rightarrow> throw_c e) (\<lambda>r w. r = None \<and> reached w0 w) (\<lambda>_. pre_send w0 t (j_id c))"
  proof (cases "rd_provider v \<in> {None, Some Not_Sent}")
    case True
    then show ?thesis by (auto intro!: hoare_throw simp: post_send_def)
  next
    case False
    then obtain oc where oc: "rd_provider v = Some oc" "oc \<noteq> Not_Sent" by auto
    show ?thesis unfolding oc(1)
      using oc by (auto simp: pre_send_def intro!: hoare_pre [OF hoare_bind [OF hoare_close_post]] hoare_return send_states_reached)
  qed
qed

lemma hoare_fenced_send:
  "hoare (pre_send w0 t (j_id c)) (fenced_send env run c t) (\<lambda>_. reached w0) (\<lambda>_. pre_send w0 t (j_id c))"
proof (cases "j_user c = None \<or> j_mgen c = None")
  case True
  then show ?thesis
    by (auto simp: fenced_send_def intro!: hoare_bind [OF hoare_fence_cancel] hoare_bump_done split: option.split)
next
  case False
  then obtain u g where ug: "j_user c = Some u" "j_mgen c = Some g" by auto
  define key where "key = delivery_key_of c (ru_uuid run)"
  define p where "p = job_params env c t u g key"
  have p: "dp_token p = t" "dp_job p = j_id c" by (simp_all add: p_def job_params_def)
  let ?R = "\<lambda>r. case r of None \<Rightarrow> reached w0
      | Some (Denied reason) \<Rightarrow> pre_send w0 t (j_id c)
      | Some (Delivered oc err) \<Rightarrow> send_state w0 t (j_id c) oc"
  have "hoare (pre_send w0 t (j_id c)) (catch_c (bind_c (with_owned_delivery env p run) (\<lambda>r. return_c (Some r)))
      (\<lambda>e. fence_threw e c t)) ?R (\<lambda>_. pre_send w0 t (j_id c))"
  proof (rule hoare_catch [where R = "\<lambda>_ w. pre_send w0 t (j_id c) w \<or> post_send w0 t (j_id c) w"])
    show "hoare (pre_send w0 t (j_id c)) (bind_c (with_owned_delivery env p run) (\<lambda>r. return_c (Some r))) ?R
        (\<lambda>_ w. pre_send w0 t (j_id c) w \<or> post_send w0 t (j_id c) w)"
      by (rule hoare_bind [OF hoare_owned [of w0 p env run, unfolded p]])
         (auto intro!: hoare_return split: fence_result.splits)
    show "hoare (\<lambda>w. pre_send w0 t (j_id c) w \<or> post_send w0 t (j_id c) w) (fence_threw e c t) ?R
        (\<lambda>_. pre_send w0 t (j_id c))" for e
      by (rule hoare_conseq [OF hoare_fence_threw]) auto
  qed
  moreover have "hoare (?R r) (case r of
        None \<Rightarrow> return_c ()
      | Some (Denied reason) \<Rightarrow>
          if reason \<in> {''mapping_ownership_changed'', ''mapping_generation_missing'', ''link_revoked'', ''locally_unlinked''}
          then bind_c (cancel_for_fence reason c t) (\<lambda>_. return_c ())
          else if reason = ''lease_lost'' then return_c ()
          else throw_c (''mapping fence unavailable ('' @ reason @ '')'')
      | Some (Delivered oc err) \<Rightarrow> settle_outcome oc err c t key)
      (\<lambda>_. reached w0) (\<lambda>_. pre_send w0 t (j_id c))" for r
  proof (cases r)
    case None
    then show ?thesis by (simp add: hoare_return)
  next
    case (Some x)
    show ?thesis
    proof (cases x)
      case (Denied reason)
      then show ?thesis unfolding Some
        by (auto intro!: hoare_bind [OF hoare_fence_cancel] hoare_bump_done hoare_throw)
    next
      case (Delivered oc err)
      then show ?thesis unfolding Some using hoare_settle [of oc w0 t c err key]
        by (cases "oc = Not_Sent") (auto simp: send_state_def settle_outcome_def intro!: hoare_throw)
    qed
  qed
  ultimately show ?thesis
    unfolding fenced_send_def ug prod.case option.case Let_def key_def [symmetric] p_def [symmetric] by (rule hoare_bind)
qed

lemma hoare_attempt:
  "hoare (pre_send w0 t (j_id c)) (attempt_job env now dormant run c t) (\<lambda>_. reached w0) (\<lambda>_. pre_send w0 t (j_id c))"
  unfolding attempt_job_def
  by (auto intro!: hoare_bind [OF hoare_check] hoare_bump_done hoare_throw hoare_fenced_send
      hoare_conseq [OF hoare_cancel_pre] dest: send_states_reached split: sum.split)

lemma hoare_finish_done: "hoare (pre_send w0 t i) (finish_call a i t) (\<lambda>_. pre_send w0 t i) (\<lambda>_. reached w0)"
  by (rule hoare_conseq [OF hoare_finish_pre]) (auto dest: send_states_reached)

lemma hoare_attempt_failed:
  "hoare (pre_send w0 t (j_id c)) (attempt_failed env now run c t e) (\<lambda>_. reached w0) (\<lambda>_. reached w0)"
  unfolding attempt_failed_def Let_def
  by (rule hoare_bind [OF hoare_finish_done]) (rule hoare_bump_done)

lemma hoare_claim:
  "hoare (\<lambda>w. stands w0 t None w \<and> rd_provider w = None \<and> rem_inv w) (claim_call env i t)
     (\<lambda>co w. case co of None \<Rightarrow> reached w0 w | Some c \<Rightarrow> j_lease c = Some t \<and> j_id c = i \<and> pre_send w0 t i w)
     (\<lambda>_. reached w0)"
  (is "hoare ?P _ ?Q _")
proof -
  let ?f = "\<lambda>w. case claim_reminder (sr_platform env) (rd_now w) (sr_lease_ms env) i t (rd_rows w) of
       (None, rows) \<Rightarrow> (None, w\<lparr>rd_used := t # rd_used w\<rparr>)
     | (Some c, rows) \<Rightarrow>
         (Some c, w\<lparr>rd_rows := rows, rd_phase := (rd_phase w)(t \<mapsto> (i, Working)), rd_used := t # rd_used w\<rparr>)"
  have move: "snd (?f w) = play (M_Claim (sr_platform env) (sr_lease_ms env) i t) w" if "?P w" for w
    using that by (auto simp: stands_def split: prod.splits option.splits)
  have f: "?Q (fst (?f w)) (snd (?f w))" and r: "reached w0 (snd (?f w))" if P: "?P w" for w
  proof -
    show r: "reached w0 (snd (?f w))" using move [OF P] P reached_play by (simp add: stands_def del: play.simps)
    obtain co rows where cl: "claim_reminder (sr_platform env) (rd_now w) (sr_lease_ms env) i t (rd_rows w) = (co, rows)"
      by (cases "claim_reminder (sr_platform env) (rd_now w) (sr_lease_ms env) i t (rd_rows w)")
    show "?Q (fst (?f w)) (snd (?f w))"
    proof (cases co)
      case None
      then show ?thesis using r cl by simp
    next
      case (Some c)
      then have c: "claim_reminder (sr_platform env) (rd_now w) (sr_lease_ms env) i t (rd_rows w) = (Some c, rows)" using cl by simp
      have "keyed j_id (rd_rows w)" using P rem_invD(1) by blast
      from claim_some(1) [OF c this] obtain r where "job_at (rd_rows w) i = Some r"
        "c = claimed_row (rd_now w) (sr_lease_ms env) t r" by blast
      then have "j_lease c = Some t" "j_id c = i" using job_at_id [where i = i] by (simp_all add: claimed_row_def)
      moreover have "pre_send w0 t i (snd (?f w))"
        using r P unfolding c by (simp add: pre_send_def stands_def undisturbed_def)
      ultimately show ?thesis unfolding c by simp
    qed
  qed
  have inv: "?P (interfere w)" if "?P w" for w
    using that interfere_stands(1) [of w0 t None w] interfere_stands(2) [of w0 t None w]
      reached_inv [OF interfere_reached [OF reached_refl], of w] by simp
  show ?thesis unfolding claim_call_def
    by (rule hoare_db, erule inv, rule hoare_ask_plain, simp, rule stands_reached, blast, erule r, erule f)
qed

lemma hoare_run_claimed:
  "hoare (pre_send w0 t (j_id c)) (run_claimed env now dormant run c t) (\<lambda>_. reached w0) (\<lambda>_. reached w0)"
  unfolding run_claimed_def
  by (rule hoare_bind [OF hoare_bump], simp)
     (auto intro!: hoare_catch [OF hoare_attempt] hoare_attempt_failed hoare_conseq [OF hoare_close_pre]
        hoare_bind [OF hoare_finish_done] hoare_bump_done dest: send_states_reached)

lemma hoare_guard: "(b \<Longrightarrow> hoare P m Q E) \<Longrightarrow> hoare (\<lambda>w. b \<and> P w) m Q E"
  by (simp add: hoare_def)

lemma process_job_reached:
  assumes "rem_inv w" "ru_token run \<notin> set (rd_used w)" "undisturbed (ru_token run) w"
  shows "reached w (snd (process_job env now dormant run i w))"
proof -
  let ?t = "ru_token run"
  let ?P = "\<lambda>v. stands w ?t None v \<and> rd_provider v = None \<and> rem_inv v"
  have idle: "rd_phase w ?t = None" using rem_invD(4) [OF assms(1)] assms(2) by (cases "rd_phase w ?t") auto
  have start: "hoare (\<lambda>v. v = w) (local_c (\<lambda>w. w\<lparr>rd_provider := None\<rparr>)) (\<lambda>_. ?P) (\<lambda>_. reached w)"
    by (rule hoare_local) (use assms idle in \<open>auto simp: stands_def reached_refl undisturbed_def\<close>)
  have body: "hoare (\<lambda>v. case co of None \<Rightarrow> reached w v | Some c \<Rightarrow> j_lease c = Some ?t \<and> j_id c = i \<and> pre_send w ?t i v)
      (case co of None \<Rightarrow> return_c () | Some c \<Rightarrow> run_claimed env now dormant run c (case j_lease c of None \<Rightarrow> [] | Some x \<Rightarrow> x))
      (\<lambda>_. reached w) (\<lambda>_. reached w)" for co
    using hoare_run_claimed [of w ?t] by (cases co) (auto intro!: hoare_return hoare_guard)
  have "hoare (\<lambda>v. v = w) (process_job env now dormant run i) (\<lambda>_. reached w) (\<lambda>_. reached w)"
    unfolding process_job_def by (rule hoare_bind [OF start hoare_bind [OF hoare_claim body]])
  from hoareD [OF this refl] show ?thesis by (cases "process_job env now dormant run i w") (auto split: sum.splits)
qed

section \<open>A dispatch run\<close>

text \<open>Tokens nobody has used or will use.\<close>

definition spare :: "string set \<Rightarrow> rem_world \<Rightarrow> bool" where
  "spare T w \<longleftrightarrow> (\<forall>t\<in>T. t \<notin> set (rd_used w) \<and> undisturbed t w)"

lemma spare_local [simp]:
  "spare T (w\<lparr>n_replies := rs\<rparr>) = spare T w" "spare T (w\<lparr>rd_provider := pr\<rparr>) = spare T w"
  "spare T (w\<lparr>rd_tally := ta\<rparr>) = spare T w" "spare T (w\<lparr>rd_rows := rows\<rparr>) = spare T w"
  "spare T (w\<lparr>rd_phase := phase\<rparr>) = spare T w" "spare T (w\<lparr>rd_next := n\<rparr>) = spare T w" "spare T (deliver_reminder p b oc w) = spare T w"
  by (simp_all add: spare_def undisturbed_def deliver_reminder_def)

lemma spare_use: "u \<notin> T \<Longrightarrow> spare T w \<Longrightarrow> spare T (w\<lparr>rd_used := u # rd_used w\<rparr>)"
  by (auto simp: spare_def undisturbed_def)

lemma spare_plays:
  "\<lbrakk>spare T w; \<And>m t. m \<in> set ms \<Longrightarrow> t \<in> T \<Longrightarrow> move_token m \<noteq> Some t\<rbrakk> \<Longrightarrow> spare T (fold play ms w)"
proof (induction ms arbitrary: w)
  case (Cons m ms)
  have "spare T (play m w)" using Cons.prems play_other(2) [of m] by (simp add: spare_def undisturbed_def)
  then show ?case using Cons by simp
qed simp

lemma spare_interfere:
  assumes "spare T w"
  shows "spare T (interfere w)"
proof (cases "rd_others w")
  case (Cons ms rest)
  then have "spare T (w\<lparr>rd_others := rest\<rparr>)" "\<And>m t. m \<in> set ms \<Longrightarrow> t \<in> T \<Longrightarrow> move_token m \<noteq> Some t"
    using assms by (auto simp: spare_def undisturbed_def)
  from spare_plays [OF this] show ?thesis using Cons by (simp add: interfere_def)
qed (use assms in \<open>simp add: interfere_def\<close>)

lemma keeps_db:
  "(\<And>w. I w \<Longrightarrow> I (interfere w)) \<Longrightarrow> (\<And>w rs. I w \<Longrightarrow> I (w\<lparr>n_replies := rs\<rparr>)) \<Longrightarrow> (\<And>w. I w \<Longrightarrow> I (snd (f w))) \<Longrightarrow> keeps I (db f)"
  unfolding keeps_def by (rule hoare_db, simp, rule hoare_ask_plain) simp_all

lemma spare_db: "(\<And>w. spare T w \<Longrightarrow> spare T (snd (f w))) \<Longrightarrow> keeps (spare T) (db f)"
  by (rule keeps_db) (simp_all add: spare_interfere)

lemma spare_finish: "keeps (spare T) (finish_call a i t)"
  unfolding finish_call_def by (rule spare_db) (simp add: case_prod_unfold)

lemma spare_bump: "keeps (spare T) (tally f)"
  unfolding tally_def by (rule keeps_local) simp

lemma spare_owned: "keeps (spare T) (with_owned_delivery env p run)"
  unfolding with_owned_delivery_def
  by (intro keeps_rules spare_db) (auto simp: case_prod_unfold intro!: keeps_rules split: option.split fence_result.split)

lemma spare_claim: "t \<notin> T \<Longrightarrow> keeps (spare T) (claim_call env i t)"
  unfolding claim_call_def
  by (rule spare_db) (auto simp: spare_def undisturbed_def split: prod.split option.split)

lemmas spare_rules = keeps_rules spare_finish spare_bump spare_owned

lemma spare_process:
  assumes "ru_token run \<notin> T"
  shows "keeps (spare T) (process_job env now dormant run i)"
proof -
  have close: "keeps (spare T) (close_terminal e n oc c t)" for e n oc c t
    unfolding close_terminal_def by (intro spare_rules)
  have cancel: "keeps (spare T) (mark_cancelled_call reason c t)" "keeps (spare T) (cancel_for_fence reason c t)" for reason c t
    unfolding cancel_for_fence_def mark_cancelled_call_def by (intro spare_rules)+
  have check: "keeps (spare T) (check_mapping_before_send env probe c t)" for probe c t
    unfolding check_mapping_before_send_def check_state_def
    by (auto intro!: spare_rules cancel split: link_probe.split)
  have settle: "keeps (spare T) (settle_outcome oc err c t key)" for oc err c t key
    unfolding settle_outcome_def settle_sent_def by (auto intro!: spare_rules close split: delivery_outcome.split)
  have send: "keeps (spare T) (fenced_send env run c t)" for c t
    unfolding fenced_send_def fence_threw_def Let_def
    by (auto intro!: spare_rules close cancel settle split: option.split fence_result.split)
  have attempt: "keeps (spare T) (attempt_job env now dormant run c t)" for c t
    unfolding attempt_job_def by (intro spare_rules check cancel send)
  have failed: "keeps (spare T) (attempt_failed env now run c t e)" for c t e
    unfolding attempt_failed_def Let_def by (intro spare_rules)
  have "keeps (spare T) (run_claimed env now dormant run c t)" for c t
    unfolding run_claimed_def by (intro spare_rules close attempt failed)
  then show ?thesis
    unfolding process_job_def by (intro spare_rules spare_claim assms) simp_all
qed

lemma run_jobs_reached:
  assumes "rem_inv w" "spare (ru_token ` runs ` set is) w" "inj_on (\<lambda>i. ru_token (runs i)) (set is)" "distinct is"
  shows "reached w (snd (run_jobs env now dormant runs is w))"
  using assms
proof (induction "is" arbitrary: w)
  case Nil
  then show ?case by (simp add: return_c_def reached_refl)
next
  case (Cons i "is")
  obtain res w1 where p: "process_job env now dormant (runs i) i w = (res, w1)"
    by (cases "process_job env now dormant (runs i) i w")
  have run: "run_jobs env now dormant runs (i # is) w = run_jobs env now dormant runs is w1"
    by (simp add: bind_c_def catch_c_def return_c_def p split: sum.split)
  have first: "reached w w1"
    using process_job_reached [OF Cons.prems(1), of "runs i" env now dormant i] Cons.prems(2) p
    by (simp add: spare_def)
  have "ru_token (runs i) \<notin> ru_token ` runs ` set is"
    using Cons.prems(3,4) by (auto simp: inj_on_def)
  then have "spare (ru_token ` runs ` set is) w1"
    using keepsD [OF spare_process _ p] Cons.prems(2) by (simp add: spare_def)
  then have "reached w1 (snd (run_jobs env now dormant runs is w1))"
    using Cons reached_inv [OF first] by (simp add: inj_on_def)
  then show ?case unfolding run using reached_trans [OF first] by blast
qed

lemma reached_db:
  assumes "\<And>w. reached w0 w \<Longrightarrow> (\<exists>m. snd (f w) = play m w) \<or> snd (f w) = w"
  shows "keeps (reached w0) (db f)"
  by (rule keeps_db) (use assms reached_play in \<open>fastforce simp: interfere_reached\<close>)+

lemma due_ids:
  assumes "keyed j_id rows" "batches limit 0 (find_due_reminders platform now lead rows) = Some bs"
  shows "distinct (map j_id (concat bs))"
proof (cases "0 < limit")
  case True
  have "distinct (map j_id (find_due_reminders platform now lead rows))"
    using assms(1) by (auto simp: find_due_reminders_def keyed_def distinct_map inj_on_def dest!: in_set_takeD intro!: distinct_take)
  then show ?thesis using batches_drop [OF True, of 0 "find_due_reminders platform now lead rows"] assms(2) by auto
next
  case False
  then have "find_due_reminders platform now lead rows = []" using batches_zero assms(2) by fastforce
  then show ?thesis using assms(2) by (simp add: batches.simps)
qed

lemma keeps_hoare: "keeps I m \<Longrightarrow> (\<And>w. P w \<Longrightarrow> I w) \<Longrightarrow> hoare P m (\<lambda>_. I) (\<lambda>_. I)"
  unfolding keeps_def by (rule hoare_pre)

lemma run_jobs_hoare:
  assumes "rem_inv w" "inj (\<lambda>i. ru_token (runs i))"
  shows "hoare (\<lambda>v. (reached w v \<and> spare (range (\<lambda>i. ru_token (runs i))) v) \<and> distinct is)
    (run_jobs env now dormant runs is) (\<lambda>_. reached w) (\<lambda>_. reached w)"
proof (rule hoareI)
  fix v assume v: "(reached w v \<and> spare (range (\<lambda>i. ru_token (runs i))) v) \<and> distinct is"
  then have "spare (ru_token ` runs ` set is) v" by (auto simp: spare_def)
  moreover have "inj_on (\<lambda>i. ru_token (runs i)) (set is)" using assms(2) inj_on_subset by blast
  ultimately have "reached v (snd (run_jobs env now dormant runs is v))"
    using run_jobs_reached [of v runs "is"] reached_inv assms(1) v by blast
  then have "reached w (snd (run_jobs env now dormant runs is v))" using v reached_trans by blast
  then show "case run_jobs env now dormant runs is v of (Inl e, v') \<Rightarrow> reached w v' | (Inr a, v') \<Rightarrow> reached w v'"
    by (cases "run_jobs env now dormant runs is v") (auto split: sum.split)
qed

lemma dispatch_found_hoare:
  assumes "rem_inv w" "inj (\<lambda>i. ru_token (runs i))"
  shows "hoare (\<lambda>v. (reached w v \<and> spare (range (\<lambda>i. ru_token (runs i))) v) \<and>
      (\<forall>bs. batches (sr_limit env) 0 due = Some bs \<longrightarrow> distinct (map j_id (concat bs))))
    (dispatch_found env now dormant runs reset due) (\<lambda>_. reached w) (\<lambda>_. reached w)"
proof (cases "batches (sr_limit env) 0 due")
  case None
  then show ?thesis by (auto simp: dispatch_found_def intro: hoare_return)
next
  case (Some bs)
  have tail: "keeps (reached w) (bind_c (catch_c (db (\<lambda>v. (find_next_due_time now p (rd_rows v), v))) (\<lambda>_. return_c None))
      (\<lambda>next_due. get_c (\<lambda>v. return_c (Some \<lparr>di_tally = rd_tally v, di_reset = reset, di_next_due = next_due\<rparr>))))" for p
    by (intro keeps_rules reached_db) simp
  show ?thesis unfolding dispatch_found_def Some option.case
    by (rule hoare_bind [OF hoare_pre [OF run_jobs_hoare [OF assms]] keeps_hoare [OF tail]]) simp_all
qed

lemma dispatch_reached:
  assumes "rem_inv w" "spare (range (\<lambda>i. ru_token (runs i))) w" "inj (\<lambda>i. ru_token (runs i))"
  shows "reached w (snd (dispatch_due_reminders env flt runs w))"
proof -
  let ?T = "range (\<lambda>i. ru_token (runs i))"
  let ?I = "\<lambda>v. reached w v \<and> spare ?T v"
  have inv: "rem_inv v" if "?I v" for v using that reached_inv assms(1) by blast
  have reset: "hoare ?I (db (\<lambda>v. case reset_stuck_reminders (rd_now v) (sr_platform env) older RJ_Failed (rd_rows v) of
      (n, rows) \<Rightarrow> (n, v\<lparr>rd_rows := rows\<rparr>))) (\<lambda>_. ?I) (\<lambda>_. reached w)" for older
  proof (rule hoare_db, simp add: interfere_reached spare_interfere, rule hoare_ask_plain)
    fix v assume "?I v"
    then show "?I (snd (case reset_stuck_reminders (rd_now v) (sr_platform env) older RJ_Failed (rd_rows v) of
        (n, rows) \<Rightarrow> (n, v\<lparr>rd_rows := rows\<rparr>)))"
      and "reached w (snd (case reset_stuck_reminders (rd_now v) (sr_platform env) older RJ_Failed (rd_rows v) of
        (n, rows) \<Rightarrow> (n, v\<lparr>rd_rows := rows\<rparr>)))"
      using reached_play [of w v "M_Reset (sr_platform env) older False"] by (simp_all add: case_prod_unfold)
  qed simp_all
  have due: "hoare ?I (db (\<lambda>v. (find_due_reminders (sr_platform env) now (sr_min_lead env) (rd_rows v), v)))
      (\<lambda>due v. ?I v \<and> (\<forall>bs. batches (sr_limit env) 0 due = Some bs \<longrightarrow> distinct (map j_id (concat bs)))) (\<lambda>_. reached w)" for now
    using due_ids [OF rem_invD(1) [OF inv]]
    by (intro hoare_db hoare_ask_plain) (auto simp: interfere_reached spare_interfere)
  have start: "hoare (\<lambda>v. v = w \<and> v = w0) (local_c (\<lambda>w. w\<lparr>rd_tally := zero_tally\<rparr>)) (\<lambda>_. ?I) (\<lambda>_. reached w)" for w0
    by (rule hoare_local) (use assms(2) in \<open>auto simp: reached_refl\<close>)
  have "hoare (\<lambda>v. v = w) (dispatch_due_reminders env flt runs) (\<lambda>_. reached w) (\<lambda>_. reached w)"
    unfolding dispatch_due_reminders_def Let_def
    by (rule hoare_get, rule hoare_bind [OF start hoare_bind [OF reset hoare_bind [OF due dispatch_found_hoare [OF assms(1,3)]]]])
  from hoareD [OF this refl] show ?thesis
    by (cases "dispatch_due_reminders env flt runs w") (auto split: sum.splits)
qed

end
