(* ===== verification/Reminder_Sync.thy ===== *)
theory Reminder_Sync
  imports Reminder_Workers
begin

text \<open>
  The calendar sync (\<open>services/study-reminder-sync.service.ts\<close>) and the worker's scheduled runs
  (\<open>services/study-reminder-worker.service.ts\<close>): the locked sync, the cleanup, the evening rollover
  and the adaptive dispatch loop. The upstream calendar, the canonical platform of a learner and the
  mapping pages are inputs; the statements run on the world of the dispatcher with interference.
\<close>

section \<open>Sync of one mapping\<close>

record user_link =
  ul_ext :: ext_id
  ul_user :: "user_id option"
  ul_mgen :: "int option"

record session =
  ss_key :: string
  ss_scheduled :: millis
  ss_topic :: "string option"

record sync_env =
  sy_platform :: string
  sy_max_retries :: nat
  sy_minutes_before :: int
  sy_horizon_hours :: int
  sy_stale_statuses :: "reminder_status list option"
  sy_hook :: "(user_id \<Rightarrow> string \<Rightarrow> (rem_world, nat option) comp) option"
  sy_canonical :: "user_id \<Rightarrow> string + string option"
  sy_sessions :: "ext_id \<Rightarrow> user_id \<Rightarrow> string + session list"

record sync_outcome =
  so_upserted :: nat
  so_cancelled :: nat
  so_skipped :: nat
  so_others :: nat
  so_failure :: "(ext_id \<times> string) option"

definition zero_outcome :: sync_outcome where
  "zero_outcome = \<lparr>so_upserted = 0, so_cancelled = 0, so_skipped = 0, so_others = 0, so_failure = None\<rparr>"

definition session_input :: "sync_env \<Rightarrow> user_link \<Rightarrow> session \<Rightarrow> upsert_input" where
  "session_input env mp ss =
     \<lparr>ui_platform = sy_platform env, ui_ext = ul_ext mp, ui_user = ul_user mp, ui_mgen = ul_mgen mp,
      ui_session = ss_key ss, ui_scheduled = ss_scheduled ss,
      ui_remind = compute_remind_at (ss_scheduled ss) (sy_minutes_before env), ui_topic = ss_topic ss,
      ui_max = sy_max_retries env\<rparr>"

definition cancel_stale_call :: "string \<Rightarrow> ext_id \<Rightarrow> string list \<Rightarrow> millis \<Rightarrow> reminder_status list option \<Rightarrow> (rem_world, nat) comp" where
  "cancel_stale_call platform ext keys horizon statuses = db (\<lambda>w.
     case cancel_stale_jobs (rd_now w) platform ext keys (Some horizon) statuses (rd_rows w) of
       (n, rows) \<Rightarrow> (n, w\<lparr>rd_rows := rows\<rparr>))"

definition upsert_call :: "bool \<Rightarrow> upsert_input list \<Rightarrow> (rem_world, unit) comp" where
  "upsert_call reopen_only inputs =
     bind_c (db (\<lambda>w.
       case upsert_pending_jobs reopen_only (rd_now w) inputs (rd_next w, rd_rows w) of
         Inl e \<Rightarrow> (Inl e, w)
       | Inr (n, rows) \<Rightarrow> (Inr (), w\<lparr>rd_rows := rows, rd_next := n\<rparr>)))
     (\<lambda>r. case r of Inl e \<Rightarrow> throw_c e | Inr u \<Rightarrow> return_c u)"

definition user_sync_hook :: "sync_env \<Rightarrow> bool \<Rightarrow> user_id \<Rightarrow> (rem_world, nat) comp" where
  "user_sync_hook env user_scoped user =
     (if user_scoped \<and> user \<noteq> 0 then
        (case sy_hook env of
           None \<Rightarrow> return_c 0
         | Some h \<Rightarrow> bind_c (h user (sy_platform env)) (\<lambda>n. return_c (case n of None \<Rightarrow> 0 | Some k \<Rightarrow> k)))
      else return_c 0)"

definition sync_sessions :: "sync_env \<Rightarrow> millis \<Rightarrow> user_link \<Rightarrow> nat \<Rightarrow> session list \<Rightarrow> (rem_world, sync_outcome) comp" where
  "sync_sessions env horizon mp others sessions =
     (let near = filter (\<lambda>ss. \<not> ss_scheduled ss > horizon) sessions;
          batch = map (session_input env mp) near
      in bind_c (if batch \<noteq> [] then upsert_call True batch else return_c ()) (\<lambda>_.
         bind_c (cancel_stale_call (sy_platform env) (ul_ext mp) (map ss_key near) horizon (sy_stale_statuses env)) (\<lambda>n.
           return_c \<lparr>so_upserted = length batch, so_cancelled = n, so_skipped = length sessions - length near,
                     so_others = others, so_failure = None\<rparr>)))"

definition sync_one_mapping :: "sync_env \<Rightarrow> bool \<Rightarrow> millis \<Rightarrow> user_link \<Rightarrow> (rem_world, sync_outcome) comp" where
  "sync_one_mapping env user_scoped horizon mp =
     (if ul_ext mp = [] then return_c (zero_outcome\<lparr>so_skipped := 1\<rparr>)
      else catch_c
        (case ul_user mp of
           None \<Rightarrow> throw_c ''Missing WISPACE userId for study reminder mapping''
         | Some user \<Rightarrow>
             (case sy_canonical env user of
                Inl e \<Rightarrow> throw_c e
              | Inr canonical \<Rightarrow>
                  if canonical \<noteq> Some (sy_platform env) then
                    bind_c (cancel_stale_call (sy_platform env) (ul_ext mp) [] horizon (Some [RJ_Pending, RJ_Failed])) (\<lambda>n.
                      return_c (zero_outcome\<lparr>so_cancelled := n, so_skipped := 1\<rparr>))
                  else
                    bind_c (user_sync_hook env user_scoped user) (\<lambda>others.
                      case sy_sessions env (ul_ext mp) user of
                        Inl e \<Rightarrow> throw_c e
                      | Inr sessions \<Rightarrow> sync_sessions env horizon mp others sessions)))
        (\<lambda>e. return_c (zero_outcome\<lparr>so_failure := Some (ul_ext mp, e)\<rparr>)))"

section \<open>A sync run\<close>

record sync_counters =
  sc_mappings :: nat
  sc_skipped :: nat
  sc_upserted :: nat
  sc_cancelled :: nat
  sc_failed :: nat
  sc_others :: nat
  sc_failures :: "(ext_id \<times> string) list"

definition zero_counters :: sync_counters where
  "zero_counters = \<lparr>sc_mappings = 0, sc_skipped = 0, sc_upserted = 0, sc_cancelled = 0, sc_failed = 0, sc_others = 0, sc_failures = []\<rparr>"

definition accumulate :: "sync_outcome \<Rightarrow> sync_counters \<Rightarrow> sync_counters" where
  "accumulate o1 c =
     (let c1 = c\<lparr>sc_skipped := sc_skipped c + so_skipped o1, sc_upserted := sc_upserted c + so_upserted o1,
                sc_cancelled := sc_cancelled c + so_cancelled o1, sc_others := sc_others c + so_others o1\<rparr>
      in case so_failure o1 of
           None \<Rightarrow> c1
         | Some f \<Rightarrow> c1\<lparr>sc_failed := Suc (sc_failed c1), sc_failures := sc_failures c1 @ [f]\<rparr>)"

fun sync_mappings :: "sync_env \<Rightarrow> bool \<Rightarrow> millis \<Rightarrow> user_link list \<Rightarrow> sync_counters \<Rightarrow> (rem_world, sync_counters) comp" where
  "sync_mappings env user_scoped horizon [] c = return_c c"
| "sync_mappings env user_scoped horizon (mp # mps) c =
     bind_c (sync_one_mapping env user_scoped horizon mp) (\<lambda>o1.
       sync_mappings env user_scoped horizon mps (accumulate o1 (c\<lparr>sc_mappings := Suc (sc_mappings c)\<rparr>)))"

text \<open>
  \<open>user_lookup\<close> is the mapping of a user-scoped sync (\<open>None\<close>: an unlinked user id); \<open>mappings\<close> are
  the mappings of the pages of a full sync.
\<close>

datatype sync_scope = Scope_User "user_link option" | Scope_All "user_link list"

definition sync_upcoming_sessions :: "sync_env \<Rightarrow> sync_scope \<Rightarrow> (rem_world, sync_counters) comp" where
  "sync_upcoming_sessions env scope = get_c (\<lambda>w.
     let horizon = rd_now w + sy_horizon_hours env * 60 * 60 * 1000 in
     case scope of
       Scope_User None \<Rightarrow> return_c (zero_counters\<lparr>sc_skipped := 1\<rparr>)
     | Scope_User (Some mp) \<Rightarrow> sync_mappings env True horizon [mp] zero_counters
     | Scope_All mps \<Rightarrow> sync_mappings env False horizon mps zero_counters)"

section \<open>The scheduled runs of the worker\<close>

text \<open>\<open>withLock\<close> answers \<open>null\<close> when another holder has the advisory lock.\<close>

definition with_lock :: "bool \<Rightarrow> (rem_world, 'a) comp \<Rightarrow> (rem_world, 'a option) comp" where
  "with_lock acquired m = (if acquired then bind_c m (\<lambda>a. return_c (Some a)) else return_c None)"

definition handle_sync_cron :: "bool \<Rightarrow> sync_env \<Rightarrow> user_link list \<Rightarrow> (rem_world, sync_counters option) comp" where
  "handle_sync_cron acquired env mps = with_lock acquired (sync_upcoming_sessions env (Scope_All mps))"

definition handle_cleanup_cron :: "bool \<Rightarrow> sync_env \<Rightarrow> int \<Rightarrow> (rem_world, nat option) comp" where
  "handle_cleanup_cron acquired env retention_days = with_lock acquired (db (\<lambda>w.
     case delete_terminal_jobs_older_than (sy_platform env) (rd_now w - retention_days * 24 * 60 * 60 * 1000) (rd_rows w) of
       (n, rows) \<Rightarrow> (n, w\<lparr>rd_rows := rows\<rparr>)))"

definition delete_sent_call :: "sync_env \<Rightarrow> (rem_world, nat) comp" where
  "delete_sent_call env = db (\<lambda>w.
     case delete_sent_jobs (sy_platform env) None (rd_rows w) of (n, rows) \<Rightarrow> (n, w\<lparr>rd_rows := rows\<rparr>))"

definition handle_evening_rollover_cron :: "bool \<Rightarrow> sync_env \<Rightarrow> user_link list \<Rightarrow> (rem_world, sync_counters option) comp" where
  "handle_evening_rollover_cron acquired env mps =
     with_lock acquired (bind_c (delete_sent_call env) (\<lambda>_. sync_upcoming_sessions env (Scope_All mps)))"

record poll_settings =
  po_min :: millis
  po_max :: millis
  po_lead :: millis

definition next_dispatch_delay :: "poll_settings \<Rightarrow> millis \<Rightarrow> millis option option \<Rightarrow> millis" where
  "next_dispatch_delay p now result =
     (case result of
        Some (Some due) \<Rightarrow> if due > now then min (max (due - now - po_lead p) (po_min p)) (po_max p) else po_min p
      | _ \<Rightarrow> po_min p)"

section \<open>The scheduled runs only make moves\<close>

lemma reached_move: "(\<And>w. \<exists>m. snd (f w) = play m w) \<Longrightarrow> keeps (reached w0) (db f)"
  by (rule reached_db) blast

lemma reached_cancel_stale: "keeps (reached w0) (cancel_stale_call platform ext keys horizon statuses)"
  unfolding cancel_stale_call_def
  by (rule reached_move) (rule exI [of _ "M_Cancel_Stale platform ext keys (Some horizon) statuses"], simp add: case_prod_unfold)

lemma reached_upsert: "keeps (reached w0) (upsert_call b inputs)"
  unfolding upsert_call_def
  by (intro keeps_rules reached_move) (rule exI [of _ "M_Upsert b inputs"], simp split: sum.split)

definition hook_ok :: "sync_env \<Rightarrow> bool" where
  "hook_ok env \<longleftrightarrow> (\<forall>h w0 user platform. sy_hook env = Some h \<longrightarrow> keeps (reached w0) (h user platform))"

text \<open>The hook Messenger wires: cancel the learner's jobs on the other platforms.\<close>

definition cancel_others_hook :: "reminder_status list \<Rightarrow> user_id \<Rightarrow> string \<Rightarrow> (rem_world, nat option) comp" where
  "cancel_others_hook statuses user platform = db (\<lambda>w.
     case cancel_jobs_from_other_platforms (rd_now w) user platform (Some statuses) (rd_rows w) of
       (n, rows) \<Rightarrow> (Some n, w\<lparr>rd_rows := rows\<rparr>))"

lemma cancel_others_hook_ok: "sy_hook env \<in> {None, Some (cancel_others_hook statuses)} \<Longrightarrow> hook_ok env"
proof -
  have "keeps (reached w0) (cancel_others_hook statuses user platform)" for w0 user platform
    unfolding cancel_others_hook_def
    by (rule reached_move) (rule exI [of _ "M_Cancel_Others user platform (Some statuses)"], simp add: case_prod_unfold)
  then show "sy_hook env \<in> {None, Some (cancel_others_hook statuses)} \<Longrightarrow> hook_ok env" by (auto simp: hook_ok_def)
qed

lemma reached_sync_one: "hook_ok env \<Longrightarrow> keeps (reached w0) (sync_one_mapping env user_scoped horizon mp)"
  unfolding sync_one_mapping_def user_sync_hook_def sync_sessions_def Let_def hook_ok_def
  by (intro keeps_rules reached_cancel_stale reached_upsert) simp_all

lemma reached_sync_mappings: "hook_ok env \<Longrightarrow> keeps (reached w0) (sync_mappings env user_scoped horizon mps c)"
  by (induction mps arbitrary: c) (auto intro!: keeps_rules reached_sync_one)

lemma reached_sync: "hook_ok env \<Longrightarrow> keeps (reached w0) (sync_upcoming_sessions env scope)"
  unfolding sync_upcoming_sessions_def Let_def
  by (auto intro!: keeps_rules reached_sync_mappings reached_sync_one split: sync_scope.split option.split)

lemma reached_delete_sent: "keeps (reached w0) (delete_sent_call env)"
  unfolding delete_sent_call_def
  by (rule reached_move) (rule exI [of _ "M_Delete_Sent (sy_platform env) None"], simp add: case_prod_unfold)

lemma reached_rollover: "hook_ok env \<Longrightarrow> keeps (reached w0) (handle_evening_rollover_cron acquired env mps)"
  unfolding handle_evening_rollover_cron_def with_lock_def by (intro keeps_rules reached_delete_sent reached_sync)

lemma reached_sync_cron: "hook_ok env \<Longrightarrow> keeps (reached w0) (handle_sync_cron acquired env mps)"
  unfolding handle_sync_cron_def with_lock_def by (intro keeps_rules reached_sync)

lemma reached_cleanup: "keeps (reached w0) (handle_cleanup_cron acquired env days)"
  unfolding handle_cleanup_cron_def with_lock_def
  by (intro keeps_rules reached_move exI, subst play.simps(12), simp add: case_prod_unfold)

section \<open>Runs of the whole subsystem\<close>

text \<open>
  Between any two steps the schedules of replies and of interference are set anew. The tokens of a
  dispatch run come from \<open>gen_random_uuid()\<close>: they are distinct, unused, and used by nobody else.
\<close>

definition scheduled :: "rem_world \<Rightarrow> db_reply list \<Rightarrow> rem_move list list \<Rightarrow> rem_world" where
  "scheduled w replies others = w\<lparr>n_replies := replies, rd_others := others\<rparr>"

inductive rem_run :: "rem_world \<Rightarrow> rem_world \<Rightarrow> bool" for w0 where
  run_refl: "rem_run w0 w0"
| run_move: "rem_run w0 w \<Longrightarrow> rem_run w0 (play m w)"
| run_dispatch: "\<lbrakk>rem_run w0 w; v = scheduled w replies others; inj (\<lambda>i. ru_token (runs i));
      spare (range (\<lambda>i. ru_token (runs i))) v\<rbrakk> \<Longrightarrow>
    rem_run w0 (snd (dispatch_due_reminders env flt runs v))"
| run_sync: "\<lbrakk>rem_run w0 w; hook_ok env\<rbrakk> \<Longrightarrow>
    rem_run w0 (snd (sync_upcoming_sessions env scope (scheduled w replies others)))"
| run_rollover: "\<lbrakk>rem_run w0 w; hook_ok env\<rbrakk> \<Longrightarrow>
    rem_run w0 (snd (handle_evening_rollover_cron acquired env mps (scheduled w replies others)))"
| run_cleanup: "rem_run w0 w \<Longrightarrow>
    rem_run w0 (snd (handle_cleanup_cron acquired env days (scheduled w replies others)))"

lemma scheduled_reached: "reached w0 (scheduled w replies others) = reached w0 w"
  by (simp add: scheduled_def)

lemma keeps_reached_snd: "keeps (reached w0) m \<Longrightarrow> reached w0 w \<Longrightarrow> reached w0 (snd (m w))"
  using keepsD [of "reached w0" m w] by (metis prod.collapse)

lemma rem_run_reached:
  assumes "rem_run w0 w" "rem_inv w0"
  shows "reached w0 w"
  using assms
proof (induction rule: rem_run.induct)
  case (run_dispatch w v replies others runs env flt)
  then have v: "reached w0 v" by (simp add: scheduled_reached)
  then have "reached v (snd (dispatch_due_reminders env flt runs v))"
    using run_dispatch reached_inv by (intro dispatch_reached) auto
  then show ?case using v reached_trans by blast
qed (auto simp: reached_refl reached_play scheduled_reached
      intro!: keeps_reached_snd reached_sync reached_rollover reached_cleanup)

definition fresh_world :: "rem_world \<Rightarrow> bool" where
  "fresh_world w \<longleftrightarrow> rd_rows w = [] \<and> rd_sends w = [] \<and> rd_phase w = (\<lambda>_. None)"

lemma fresh_inv: "fresh_world w \<Longrightarrow> rem_inv w"
  by (simp add: fresh_world_def rem_inv_def keyed_def job_ok_def)

section \<open>At most one reminder per schedule\<close>

definition acknowledged :: "rem_world \<Rightarrow> nat \<Rightarrow> nat \<Rightarrow> nat" where
  "acknowledged w i g =
     length (filter (\<lambda>e. sv_job e = i \<and> sv_gen e = g \<and> sv_outcome e \<noteq> Not_Sent) (rd_sends w))"

lemma acknowledged_count: "acknowledged w i g = count_list (acks (rd_sends w) i) g"
proof -
  have "length (filter (\<lambda>e. sv_job e = i \<and> sv_gen e = g \<and> sv_outcome e \<noteq> Not_Sent) l) = count_list (acks l i) g" for l
    by (induction l) auto
  then show ?thesis by (simp add: acknowledged_def)
qed

end
