(* ===== verification/Reminder_Guarantees.thy ===== *)
theory Reminder_Guarantees
  imports Reminder_Sync "HOL-Library.Sublist"
begin

text \<open>
  What the study reminder subsystem promises, over every run of it: dispatchers, calendar syncs,
  the evening rollover, the cleanup, and single statements of any other party in between
  (\<open>rem_run\<close>). The theory also records two ways in which a learner is reminded twice of one
  session all the same.
\<close>

section \<open>Invariants of moves are invariants of runs\<close>

lemma fold_play_keeps:
  "(\<And>m w. I w \<Longrightarrow> I (play m w)) \<Longrightarrow> I w \<Longrightarrow> I (fold play ms w)"
  by (induction ms arbitrary: w) simp_all

lemma rem_run_keeps:
  assumes "rem_run w0 w" "fresh_world w0" "\<And>m w. I w \<Longrightarrow> I (play m w)" "\<And>w. I (core w) = I w" "I w0"
  shows "I w"
proof -
  obtain ms where "core w = fold play ms (core w0)"
    using rem_run_reached [OF assms(1) fresh_inv [OF assms(2)]] by (auto simp: reached_def)
  then have "I (core w)" using fold_play_keeps [of I "core w0" ms] assms(3-5) by simp
  then show ?thesis using assms(4) by simp
qed

section \<open>A sample run\<close>

definition sample_session :: session where
  "sample_session = \<lparr>ss_key = ''s1'', ss_scheduled = 4800000, ss_topic = None\<rparr>"

definition sample_link :: link_row where
  "sample_link = \<lparr>ln_platform = ''zalo'', ln_ext = ''u'', ln_user = Some 7, ln_state = None, ln_gen = Some 1, ln_status = None\<rparr>"

definition sample_user_link :: user_link where
  "sample_user_link = \<lparr>ul_ext = ''u'', ul_user = Some 7, ul_mgen = Some 1\<rparr>"

definition sample_sync_env :: sync_env where
  "sample_sync_env = \<lparr>sy_platform = ''zalo'', sy_max_retries = 3, sy_minutes_before = 30, sy_horizon_hours = 48,
     sy_stale_statuses = None, sy_hook = None, sy_canonical = (\<lambda>_. Inr (Some ''zalo'')),
     sy_sessions = (\<lambda>_ _. Inr [sample_session])\<rparr>"

definition sample_rem_env :: rem_env where
  "sample_rem_env = \<lparr>sr_platform = ''zalo'', sr_lease_ms = 600000, sr_stuck_ms = 600000, sr_min_lead = 5,
     sr_backoff_minutes = 2, sr_flat = False, sr_probe = False, sr_classify = (\<lambda>_ _. None),
     sr_is_terminal = (\<lambda>_. None), sr_hash = id, sr_limit = 2\<rparr>"

definition sample_reminder :: "char \<Rightarrow> nat \<Rightarrow> reminder_run" where
  "sample_reminder c i = \<lparr>ru_token = c # replicate i CHR ''t'', ru_probe1 = Pb_Null, ru_probe2 = Pb_Null, ru_text = Inr ''hello'',
     ru_uuid = ''k'', ru_send = Inr Sent, ru_lock_timeout = False, ru_commits = True, ru_jitter = 0\<rparr>"

definition sample_clean :: rem_world where
  "sample_clean = \<lparr>n_replies = [], rd_rows = [], rd_next = 0, rd_links = [sample_link], rd_tombs = [], rd_now = 0,
     rd_provider = None, rd_tally = zero_tally, rd_phase = (\<lambda>_. None), rd_used = [], rd_sends = [], rd_others = []\<rparr>"

lemmas sample_defs = sample_session_def sample_link_def sample_user_link_def sample_sync_env_def sample_rem_env_def
  sample_clean_def

lemma sample_run_inj: "inj (\<lambda>i. ru_token (sample_reminder c i))"
  by (auto simp: inj_def sample_reminder_def)

text \<open>The calendar is synced, the clock reaches the reminder time, and the dispatcher sends.\<close>

definition sample_synced :: rem_world where
  "sample_synced = snd (sync_upcoming_sessions sample_sync_env (Scope_All [sample_user_link]) (scheduled sample_clean [] []))"

definition sample_due :: rem_world where
  "sample_due = scheduled (play (M_Clock 3300000) sample_synced) [] []"

definition sample_sent :: rem_world where
  "sample_sent = snd (dispatch_due_reminders sample_rem_env None (sample_reminder CHR ''a'') sample_due)"

lemma sample_hook_ok: "hook_ok sample_sync_env"
  by (simp add: hook_ok_def sample_sync_env_def)

lemma sample_fresh: "fresh_world sample_clean"
  by (simp add: fresh_world_def sample_clean_def)

lemma sample_due_run: "rem_run sample_clean (play (M_Clock 3300000) sample_synced)"
  unfolding sample_synced_def by (intro run_move run_sync run_refl sample_hook_ok)

lemma sample_due_used: "rd_used sample_due = []" "rd_others sample_due = []"
  by code_simp+

lemma sample_sent_run: "rem_run sample_clean sample_sent"
  unfolding sample_sent_def
proof (rule run_dispatch [OF sample_due_run sample_due_def sample_run_inj])
  show "spare (range (\<lambda>i. ru_token (sample_reminder CHR ''a'' i))) sample_due"
    by (simp add: spare_def undisturbed_def sample_due_used)
qed

lemma sample_sent_sends: "map (\<lambda>e. (sv_job e, sv_gen e, sv_outcome e)) (rd_sends sample_sent) = [(0, 0, Sent)]"
  by code_simp

section \<open>At most one reminder per schedule\<close>

lemma distinct_count_list: "distinct xs \<Longrightarrow> count_list xs x \<le> 1"
  by (induction xs) (auto simp: count_list_0_iff)

text \<open>C4: At most one acknowledged reminder per job and schedule generation. Whatever the
  interleaving of dispatchers, syncs, cancellations, recovery and retention, whatever statements are
  refused, lose their reply or fail to commit, and whenever workers crash or lose their lease, the
  message provider accepts (\<open>sent\<close>, \<open>ambiguous\<close> or \<open>rate_limited\<close>) at most one reminder for a job
  between two reopenings of it.\<close>

theorem reminder_at_most_once:
  assumes "fresh_world w0" "rem_run w0 w"
  shows "acknowledged w i g \<le> 1"
proof -
  have "rem_inv w" using rem_run_reached [OF assms(2) fresh_inv [OF assms(1)]] fresh_inv [OF assms(1)] reached_inv by blast
  then have "distinct (acks (rd_sends w) i)" using rem_invD(6) by (auto simp: job_ok_def)
  then show ?thesis by (simp add: acknowledged_count distinct_count_list [simplified])
qed

theorem reminder_at_most_once_witness:
  "acknowledged sample_sent 0 0 \<le> 1 \<and> acknowledged sample_sent 0 0 \<noteq> 0"
proof -
  have "acknowledged sample_sent 0 0 \<noteq> 0" by code_simp
  then show ?thesis using reminder_at_most_once [OF sample_fresh sample_sent_run, of 0 0] by blast
qed

section \<open>Only the linked owner is reminded\<close>

definition fenced_event :: "send_event \<Rightarrow> bool" where
  "fenced_event e = (case sv_link e of
      None \<Rightarrow> False
    | Some l \<Rightarrow> ln_ext l = sv_ext e \<and> link_state_of l = ''active'' \<and>
        (ln_platform l = ''messenger'' \<longrightarrow> ln_status l = Some ''ACTIVE'') \<and> ln_gen l = Some (sv_mgen e) \<and>
        (case ln_user l of None \<Rightarrow> 0 | Some u \<Rightarrow> u) = sv_user e)"

lemma latest_linkD: "latest_link platform ext links = Some l \<Longrightarrow> ln_platform l = platform \<and> ln_ext l = ext"
  by (auto simp: latest_link_def find_Some_iff)

lemma play_sends_fenced:
  assumes "\<forall>e\<in>set (rd_sends w). fenced_event e"
  shows "\<forall>e\<in>set (rd_sends (play m w)). fenced_event e"
proof (cases "\<exists>p committed oc. m = M_Deliver p committed oc")
  case True
  then obtain p committed oc where m: "m = M_Deliver p committed oc" by blast
  have "fenced_event e" if "fence_open p w" "e = hd (rd_sends (deliver_reminder p committed oc w))" for e
    using that latest_linkD [of "dp_platform p" "dp_ext p" "rd_links w"]
    by (auto simp: fence_open_def fence_reason_def deliver_reminder_def fenced_event_def has_status_column_def
        split: option.splits if_splits)
  then show ?thesis using assms by (simp add: m deliver_reminder_def)
next
  case False
  then have "rd_sends (play m w) = rd_sends w"
    by (cases m) (auto split: prod.splits option.splits sum.splits)
  then show ?thesis using assms by simp
qed



section \<open>Well-formed rows\<close>

definition wf_job :: "reminder_job \<Rightarrow> bool" where
  "wf_job r \<longleftrightarrow>
     (j_status r = RJ_Processing \<longleftrightarrow> j_lease r \<noteq> None) \<and>
     (j_lease r = None \<longleftrightarrow> j_lease_exp r = None) \<and> (j_lease r = None \<longleftrightarrow> j_started r = None) \<and>
     (j_status r = RJ_Sent \<longrightarrow> j_sent_at r \<noteq> None \<and> j_delivery r = Some Sent) \<and>
     (j_status r = RJ_Failed \<longrightarrow> j_delivery r \<noteq> None) \<and>
     (j_status r = RJ_Processing \<longrightarrow> j_delivery r = None \<and> j_record r = None) \<and>
     (j_status r = RJ_Cancelled \<longrightarrow> j_delivery r = None \<and> j_record r = None \<and> j_key r = None)"

definition table_ok :: "jobs \<Rightarrow> bool" where
  "table_ok rows \<longleftrightarrow> (\<forall>r\<in>set rows. wf_job r) \<and> keyed job_index rows"

lemma table_update:
  assumes "table_ok rows" "\<And>r. wf_job r \<Longrightarrow> P r \<Longrightarrow> wf_job (f r) \<and> job_index (f r) = job_index r"
  shows "table_ok (sql_update P f rows)"
proof -
  have "map job_index (sql_update P f rows) = map job_index rows"
    using assms by (auto simp: table_ok_def sql_update_def)
  then show ?thesis using assms by (auto simp: table_ok_def keyed_def set_sql_update)
qed

lemma table_update_where:
  "table_ok rows \<Longrightarrow> (\<And>r. wf_job r \<Longrightarrow> P r \<Longrightarrow> wf_job (f r) \<and> job_index (f r) = job_index r) \<Longrightarrow>
   table_ok (snd (update_where j_id P f i rows))"
  unfolding update_where_def snd_conv by (rule table_update) auto

lemma table_delete: "table_ok rows \<Longrightarrow> table_ok (sql_delete P rows)"
  by (simp add: table_ok_def keyed_delete)

lemma wf_cancel: "wf_job (cancel_row reason now r) \<and> job_index (cancel_row reason now r) = job_index r"
  by (simp add: wf_job_def cancel_row_def job_index_def)

lemma wf_reset: "target \<in> {RJ_Pending, RJ_Failed} \<Longrightarrow> wf_job (reset_row target now r) \<and> job_index (reset_row target now r) = job_index r"
  by (auto simp: wf_job_def reset_row_def job_index_def)

lemma wf_finish: "wf_job (finish_patch a r) \<and> job_index (finish_patch a r) = job_index r"
  by (cases a) (simp_all add: wf_job_def cancel_row_def job_index_def)

definition wf_change :: "reminder_job \<Rightarrow> reminder_job \<Rightarrow> bool" where
  "wf_change r r' \<longleftrightarrow> wf_job r' \<and> job_index r' = job_index r"

lemma wf_reopen: "wf_change r (reopen_to_pending x r)"
  by (simp add: wf_change_def wf_job_def reopen_to_pending_def job_index_def)

lemma wf_keep: "wf_job r \<Longrightarrow> j_status r \<in> {RJ_Pending, RJ_Failed} \<Longrightarrow> wf_change r (keep_terminal x r)"
  by (cases "j_delivery r = Some Not_Sent") (auto simp: wf_change_def wf_job_def keep_terminal_def job_index_def)

lemma wf_refresh: "wf_job r \<Longrightarrow> j_status r \<in> {RJ_Pending, RJ_Failed} \<Longrightarrow> wf_change r (refresh_in_place b x r)"
  by (cases b; cases "j_status r") (auto simp: wf_change_def wf_job_def refresh_in_place_def job_index_def Let_def)

lemma wf_apply: "wf_job r \<Longrightarrow> wf_job (apply_existing b x r) \<and> job_index (apply_existing b x r) = job_index r"
  unfolding wf_change_def [symmetric]
  by (simp add: apply_existing_def Let_def wf_reopen wf_keep wf_refresh split: reminder_status.split) (simp add: wf_change_def)

lemma wf_stamp: "wf_job (r\<lparr>j_updated := now\<rparr>) = wf_job r" "job_index (r\<lparr>j_updated := now\<rparr>) = job_index r"
  by (simp_all add: wf_job_def job_index_def)

lemma wf_save: "wf_job r \<Longrightarrow> wf_job r' \<and> job_index r' = job_index r \<Longrightarrow> wf_job (save_entity now r r') \<and> job_index (save_entity now r r') = job_index r"
  unfolding save_entity_def by (simp only: wf_stamp split: if_split) blast

lemma wf_new: "wf_job (build_new_entity i now x)" "job_index (build_new_entity i now x) = input_index x"
  by (simp_all add: wf_job_def build_new_entity_def job_index_def input_index_def)

lemma table_upsert_loop:
  "table_ok (snd d) \<Longrightarrow> upsert_loop b now snap xs d = Inr d' \<Longrightarrow> table_ok (snd d')"
proof (induction b now snap xs d rule: upsert_loop.induct)
  case (2 b now snap x xs n rows)
  show ?case
  proof (cases "find (\<lambda>r. entity_key r = input_key x \<and> j_id r \<in> set snap) rows")
    case None
    then have fresh: "\<not> list_ex (\<lambda>r. job_index r = input_index x) rows" using 2(4) by (auto split: if_splits)
    then have "table_ok (rows @ [build_new_entity n now x])"
      using 2(3) by (auto simp: table_ok_def wf_new list_ex_iff intro!: keyed_snoc)
    then show ?thesis using 2(1) [OF None fresh] 2(4) None fresh by simp
  next
    case (Some e)
    have "table_ok (sql_update (\<lambda>r. j_id r = j_id e) (\<lambda>r. save_entity now r (apply_existing b x r)) rows)"
      using 2(3) by (intro table_update) (auto simp: wf_apply wf_save)
    then show ?thesis using 2(2) [OF Some] 2(4) Some by simp
  qed
qed simp

lemma table_upsert: "table_ok rows \<Longrightarrow> upsert_pending_jobs b now inputs (n, rows) = Inr (n', rows') \<Longrightarrow> table_ok rows'"
  using table_upsert_loop [of "(n, rows)" b now _ inputs "(n', rows')"] by (auto simp: upsert_pending_jobs_def split: if_splits)

lemma table_claim: "table_ok rows \<Longrightarrow> table_ok (snd (claim_reminder platform now lease_ms i t rows))"
proof -
  assume "table_ok rows"
  then have "table_ok (snd (update_where j_id (\<lambda>r. j_platform r = platform \<and> dispatch_predicate r)
      (claimed_row now lease_ms t) i rows))"
    by (rule table_update_where) (auto simp: wf_job_def claimed_row_def job_index_def dispatch_predicate_def)
  then show ?thesis by (simp add: claim_reminder_def claimed_row_def [abs_def] case_prod_unfold Let_def)
qed

lemma table_deliver: "table_ok (rd_rows w) \<Longrightarrow> table_ok (rd_rows (deliver_reminder p committed oc w))"
  by (auto simp: deliver_reminder_def persist_key_def wf_job_def owns_def job_index_def intro!: table_update_where)

lemma table_play: "table_ok (rd_rows w) \<Longrightarrow> table_ok (rd_rows (play m w))"
proof (cases m)
  case (M_Claim platform lease_ms i t)
  assume "table_ok (rd_rows w)"
  then show ?thesis
    using M_Claim table_claim [of "rd_rows w" platform "rd_now w" lease_ms i t] by (auto split: prod.splits option.splits)
next
  case (M_Upsert b inputs)
  assume "table_ok (rd_rows w)"
  then show ?thesis using M_Upsert table_upsert by (auto split: sum.splits)
qed (auto simp: table_deliver table_delete delete_sent_jobs_def finish_job_update wf_finish
      delete_terminal_jobs_older_than_def Let_def cancel_stale_jobs_def cancel_pending_jobs_for_user_def
      cancel_jobs_from_other_platforms_def cancel_for_ownership_change_def reset_stuck_reminders_def
      wf_cancel wf_reset intro!: table_update table_update_where split: option.splits)

text \<open>C17: The rows of \<open>study_reminder_jobs\<close> stay well-formed in every run: a lease token, its expiry
  and the start of processing are present exactly on rows in processing; a sent row has its send
  time and outcome, a failed row its outcome, a cancelled row no trace of a delivery; and
  platform, recipient and session identify a row.\<close>

theorem reminder_rows_wellformed:
  assumes "fresh_world w0" "rem_run w0 w"
  shows "(\<forall>r\<in>set (rd_rows w). wf_job r) \<and> keyed job_index (rd_rows w)"
proof -
  have "table_ok (rd_rows w)"
    by (rule rem_run_keeps [OF assms(2,1)]) (use assms(1) table_play in \<open>auto simp: fresh_world_def table_ok_def keyed_def\<close>)
  then show ?thesis by (simp add: table_ok_def)
qed

theorem reminder_rows_wellformed_witness:
  "rd_rows sample_sent \<noteq> [] \<and> wf_job (hd (rd_rows sample_sent))"
proof -
  have "rd_rows sample_sent \<noteq> []" by code_simp
  then show ?thesis using reminder_rows_wellformed [OF sample_fresh sample_sent_run] by simp
qed

section \<open>Dispatch runs end\<close>

lemma dispatch_found_returns:
  "0 < sr_limit env \<Longrightarrow> hoare (\<lambda>_. True) (dispatch_found env now dormant runs reset due) (\<lambda>r _. r \<noteq> None) (\<lambda>_ _. True)"
proof -
  assume "0 < sr_limit env"
  then obtain bs where "batches (sr_limit env) 0 due = Some bs" using batches_drop by blast
  moreover have any: "hoare (\<lambda>_. True) m (\<lambda>_ _. True) (\<lambda>_ _. True)" for m :: "(rem_world, 'x) comp"
    by (simp add: hoare_def split: sum.split prod.split)
  ultimately show ?thesis
    unfolding dispatch_found_def by (auto intro!: hoare_bind [OF any] hoare_get hoare_return)
qed

text \<open>C18: A dispatch run always comes to an end. The producer concurrency the bots configure is
  positive whenever it resolves at all, so the slice loop of \<open>dispatchDueReminders\<close> advances and the
  run returns its result or throws; with a limit of zero it would spin forever.\<close>

theorem dispatch_run_ends:
  assumes "resolve_background_producer_concurrency c enabled name configured = Inr v" "sr_limit env = nat v"
  shows "fst (dispatch_due_reminders env flt runs w) \<noteq> Inr None"
proof -
  have pos: "0 < sr_limit env" using producer_concurrency_positive [OF assms(1)] assms(2) by simp
  have any: "hoare P m (\<lambda>_ _. True) (\<lambda>_ _. True)" for P :: "rem_world \<Rightarrow> bool" and m :: "(rem_world, 'x) comp"
    by (simp add: hoare_def split: sum.split prod.split)
  have "hoare (\<lambda>_. True) (dispatch_due_reminders env flt runs) (\<lambda>r _. r \<noteq> None) (\<lambda>_ _. True)"
    unfolding dispatch_due_reminders_def Let_def
    by (intro hoare_get hoare_bind [OF any] dispatch_found_returns pos)
  from hoareD [OF this, of w] show ?thesis
    by (cases "dispatch_due_reminders env flt runs w") (auto split: sum.splits)
qed

theorem dispatch_run_ends_witness:
  "fst (dispatch_due_reminders sample_rem_env None (sample_reminder CHR ''a'') sample_due) \<noteq> Inr None"
  by (rule dispatch_run_ends [where v = 2 and c = "\<lparr>ac_max_concurrent = 2, ac_max_queue = 0, ac_wait_ms = 0, ac_timeout_ms = 1\<rparr>"
        and configured = None and enabled = True and name = "''zalo''"]) code_simp+

section \<open>A sync that finds nothing new\<close>

text \<open>C19: A periodic sync that brings an unchanged schedule does not cause a new reminder: a job that
  is not due for dispatch (sent, in flight, ambiguous, rate limited, or out of retries) and is not
  cancelled is still not claimable after the sync, and stays in its generation.\<close>

theorem unchanged_sync_adds_no_send:
  assumes "wf_job e" "\<not> has_schedule_changed e x" "ui_max x = j_max e" "j_status e \<noteq> RJ_Cancelled"
    "\<not> dispatch_predicate e"
  shows "\<not> dispatch_predicate (apply_existing True x e) \<and> j_gen (apply_existing True x e) = j_gen e"
proof (cases "j_status e \<in> {RJ_Pending, RJ_Failed} \<and> \<not> is_older_generation (j_mgen e) (ui_mgen x)")
  case False
  then have "apply_existing True x e = e"
    using assms by (auto simp: apply_existing_def split: reminder_status.split)
  then show ?thesis using assms(5) by simp
next
  case True
  then have e: "apply_existing True x e =
      (if is_terminal_stored_failure e then keep_terminal x e else refresh_in_place True x e)"
    using assms(2) by (auto simp: apply_existing_def split: reminder_status.split)
  show ?thesis
  proof (cases "is_terminal_stored_failure e")
    case tf: True
    then show ?thesis
      using True assms(3) unfolding e
      by (auto simp: keep_terminal_def dispatch_predicate_def is_terminal_stored_failure_def is_terminal_delivery_outcome_def)
  next
    case nt: False
    have "j_record e \<noteq> None"
    proof (rule ccontr)
      assume "\<not> j_record e \<noteq> None"
      moreover have "j_delivery e = None \<or> (j_delivery e = Some Not_Sent \<and> j_retry e < j_max e)"
        using nt by (cases "j_delivery e") (auto simp: is_terminal_stored_failure_def is_terminal_delivery_outcome_def
            not_le intro: delivery_outcome.exhaust)
      ultimately show False
        using True assms(1,5) by (auto simp: dispatch_predicate_def wf_job_def)
    qed
    then show ?thesis using nt unfolding e by (auto simp: refresh_in_place_def dispatch_predicate_def Let_def)
  qed
qed

definition reminder_input :: "string option \<Rightarrow> upsert_input" where
  "reminder_input topic = \<lparr>ui_platform = ''zalo'', ui_ext = ''u'', ui_user = Some 7, ui_mgen = Some 1, ui_session = ''s1'',
     ui_scheduled = 4800000, ui_remind = 3000000, ui_topic = topic, ui_max = 3\<rparr>"

definition sample_sent_job :: "string option \<Rightarrow> reminder_job" where
  "sample_sent_job topic = finish_patch (Fin_Sent 3300000 (Some ''sent'') (Some ''k'')) (build_new_entity 0 0 (reminder_input topic))"

theorem unchanged_sync_adds_no_send_witness:
  "\<not> dispatch_predicate (apply_existing True (reminder_input None) (sample_sent_job None))"
  by (rule unchanged_sync_adds_no_send [THEN conjunct1]) code_simp+

section \<open>Sync isolation\<close>

lemma sync_one_returns: "\<exists>o1 w'. sync_one_mapping env user_scoped horizon mp w = (Inr o1, w') \<and>
    (so_failure o1 = None \<or> (\<exists>e. so_failure o1 = Some (ul_ext mp, e)))"
proof (cases "ul_ext mp = []")
  case True
  then show ?thesis by (simp add: sync_one_mapping_def return_c_def zero_outcome_def)
next
  case False
  let ?fine = "\<lambda>o1. so_failure o1 = None"
  have sessions: "hoare P (sync_sessions env horizon mp others sessions) (\<lambda>o1 _. ?fine o1) (\<lambda>_ _. True)"
    if "\<And>(m :: (rem_world, unit) comp) P. hoare P m (\<lambda>_ _. True) (\<lambda>_ _. True)"
      "\<And>(m :: (rem_world, nat) comp) P. hoare P m (\<lambda>_ _. True) (\<lambda>_ _. True)" for P others sessions
    unfolding sync_sessions_def Let_def
    by (rule hoare_bind [OF that(1) hoare_bind [OF that(2)]]) (simp add: hoare_return)
  have any: "hoare P m (\<lambda>_ _. True) (\<lambda>_ _. True)" for P :: "rem_world \<Rightarrow> bool" and m :: "(rem_world, 'x) comp"
    by (simp add: hoare_def split: sum.split prod.split)
  have "hoare (\<lambda>_. True) (sync_one_mapping env user_scoped horizon mp)
      (\<lambda>o1 _. ?fine o1 \<or> (\<exists>e. so_failure o1 = Some (ul_ext mp, e))) (\<lambda>_ _. False)"
    using False unfolding sync_one_mapping_def
    by (auto intro!: hoare_catch [where R = "\<lambda>_ _. True"] hoare_bind [OF any] hoare_throw hoare_return
        hoare_conseq [OF sessions [OF any any]] simp: zero_outcome_def split: option.split sum.split)
  from hoareD [OF this, of w] show ?thesis
    by (cases "sync_one_mapping env user_scoped horizon mp w") (auto split: sum.splits)
qed

lemma sync_mappings_returns:
  "\<exists>c' w' fs. sync_mappings env user_scoped horizon mps c w = (Inr c', w') \<and>
     sc_mappings c' = sc_mappings c + length mps \<and> sc_failures c' = sc_failures c @ fs \<and>
     sc_failed c' = sc_failed c + length fs \<and> subseq (map fst fs) (map ul_ext mps)"
proof (induction mps arbitrary: c w)
  case Nil
  then show ?case by (simp add: return_c_def)
next
  case (Cons mp mps)
  obtain o1 w1 where o1: "sync_one_mapping env user_scoped horizon mp w = (Inr o1, w1)"
    "so_failure o1 = None \<or> (\<exists>e. so_failure o1 = Some (ul_ext mp, e))"
    using sync_one_returns by blast
  let ?c = "accumulate o1 (c\<lparr>sc_mappings := Suc (sc_mappings c)\<rparr>)"
  obtain c' w' fs where r: "sync_mappings env user_scoped horizon mps ?c w1 = (Inr c', w')"
    "sc_mappings c' = sc_mappings ?c + length mps" "sc_failures c' = sc_failures ?c @ fs"
    "sc_failed c' = sc_failed ?c + length fs" "subseq (map fst fs) (map ul_ext mps)"
    using Cons [of ?c w1] by blast
  have run: "sync_mappings env user_scoped horizon (mp # mps) c w = (Inr c', w')"
    using o1(1) r(1) by (simp add: bind_c_def)
  from o1(2) show ?case
  proof
    assume "so_failure o1 = None"
    then show ?thesis using run r by (intro exI [of _ c'] exI [of _ w'] exI [of _ fs]) (auto simp: accumulate_def Let_def)
  next
    assume "\<exists>e. so_failure o1 = Some (ul_ext mp, e)"
    then obtain e where "so_failure o1 = Some (ul_ext mp, e)" ..
    then show ?thesis
      using run r by (intro exI [of _ c'] exI [of _ w'] exI [of _ "(ul_ext mp, e) # fs"]) (auto simp: accumulate_def Let_def)
  qed
qed

text \<open>A full sync never throws, whatever the calendar, the resolver, the hook or the database do:
  every mapping of the scan is counted once, and the failures it reports are exactly the mappings
  that failed, in the order of the scan; one learner's failure leaves the others' sync alone.\<close>

theorem sync_isolates_failures:
  "\<exists>c w'. sync_upcoming_sessions env (Scope_All mps) w = (Inr c, w') \<and> sc_mappings c = length mps \<and>
     sc_failed c = length (sc_failures c) \<and> subseq (map fst (sc_failures c)) (map ul_ext mps)"
  using sync_mappings_returns [of env False "rd_now w + sy_horizon_hours env * 60 * 60 * 1000" mps zero_counters w]
  by (auto simp: sync_upcoming_sessions_def get_c_def Let_def zero_counters_def)

section \<open>Reminding twice\<close>

definition sample_rolled :: rem_world where
  "sample_rolled = snd (handle_evening_rollover_cron True sample_sync_env [sample_user_link]
     (scheduled (play (M_Clock 3600000) sample_sent) [] []))"

definition sample_resent :: rem_world where
  "sample_resent = snd (dispatch_due_reminders sample_rem_env None (sample_reminder CHR ''b'') (scheduled sample_rolled [] []))"

lemma sample_rolled_used: "rd_used sample_rolled = [''a'']"
  by code_simp

lemma sample_resent_run: "rem_run sample_clean sample_resent"
  unfolding sample_resent_def
proof (rule run_dispatch [OF _ refl sample_run_inj])
  show "rem_run sample_clean sample_rolled"
    unfolding sample_rolled_def by (intro run_rollover run_move sample_sent_run sample_hook_ok)
  show "spare (range (\<lambda>i. ru_token (sample_reminder CHR ''b'' i))) (scheduled sample_rolled [] [])"
    by (simp add: spare_def undisturbed_def scheduled_def sample_rolled_used sample_reminder_def)
qed

text \<open>C29: The evening rollover repeats a reminder. In this run a session starts twenty minutes after
  the rollover and its reminder is sent; the rollover deletes the sent job, its sync schedules the
  same unchanged session anew, and the next dispatch sends the same reminder a second time.\<close>

theorem rollover_repeats_reminder:
  "rem_run sample_clean sample_resent \<and>
   map (\<lambda>e. (sv_ext e, sv_session e, sv_scheduled e, sv_outcome e)) (rd_sends sample_resent) =
     [(''u'', ''s1'', 4800000, Sent), (''u'', ''s1'', 4800000, Sent)]"
proof
  show "map (\<lambda>e. (sv_ext e, sv_session e, sv_scheduled e, sv_outcome e)) (rd_sends sample_resent) =
     [(''u'', ''s1'', 4800000, Sent), (''u'', ''s1'', 4800000, Sent)]" by code_simp
qed (rule sample_resent_run)

text \<open>A session whose topic was removed is reminded of again after every sync: the sent job is
  reopened for dispatch because the topic differs, but it keeps its old topic, so the next sync
  finds the same difference.\<close>

theorem removed_topic_reopens_sent_job:
  assumes "j_status e = RJ_Sent" "j_topic e = Some tp" "ui_topic x = None" "\<not> is_older_generation (j_mgen e) (ui_mgen x)"
  shows "dispatch_predicate (apply_existing True x e) \<and> j_topic (apply_existing True x e) = Some tp \<and>
    has_schedule_changed (finish_patch (Fin_Sent now rec_text key) (apply_existing True x e)) x"
  using assms by (simp add: apply_existing_def has_schedule_changed_def reopen_to_pending_def dispatch_predicate_def nvl_def)

theorem removed_topic_reopens_sent_job_witness:
  "dispatch_predicate (apply_existing True (reminder_input None) (sample_sent_job (Some ''Essay'')))"
  by (rule removed_topic_reopens_sent_job [where tp = "''Essay''", THEN conjunct1]) code_simp+

section \<open>Retention and leases\<close>

text \<open>The cleanup never deletes a cancelled job that has retries left, however old it is.\<close>

theorem cleanup_keeps_cancelled:
  assumes "r \<in> set rows" "j_status r = RJ_Cancelled" "j_retry r < j_max r"
  shows "r \<in> set (snd (delete_terminal_jobs_older_than platform older_than rows))"
  using assms by (auto simp: delete_terminal_jobs_older_than_def terminal_retention_predicate_def Let_def)

theorem cleanup_keeps_cancelled_witness:
  "let r = cancel_row None 0 (build_new_entity 0 0 (reminder_input None))
   in r \<in> set (snd (delete_terminal_jobs_older_than ''zalo'' 1000000000000 [r]))"
  unfolding Let_def by (rule cleanup_keeps_cancelled) (simp_all add: build_new_entity_def reminder_input_def cancel_row_def)

text \<open>Lease exclusion of the reminder jobs: in any sequence of claims, completion writes
  (\<open>markSent\<close>, \<open>markFailed\<close>, \<open>markCancelled\<close>) and stuck recoveries no two completion writes under
  one lease token take effect, provided every claim draws a new token.\<close>

theorem reminder_one_transition_per_lease:
  assumes "keyed j_id rows" "\<And>r. r \<in> set rows \<Longrightarrow> j_status r \<noteq> RJ_Processing"
    and "distinct (reminder_lease.claims_of ops)"
  shows "distinct (reminder_lease.finishes ops rows)"
proof -
  have "owner_at j_id job_owner rows i = None" for i
    using assms(2) by (auto simp: owner_at_def job_owner_def split: option.splits dest: find_SomeD)
  then have "reminder_lease.one_each rows" "reminder_lease.live_tokens rows = {}"
    by (auto simp: reminder_lease.one_each_def reminder_lease.live_tokens_def)
  then show ?thesis using reminder_lease.finishes_distinct [OF assms(1) _ assms(3)] by simp
qed

theorem reminder_one_transition_per_lease_witness:
  "distinct (reminder_lease.finishes
     [Claim (''zalo'', 0, 600000) 0 ''a'', Finish (Fin_Sent 1 None None) 0 ''a'', Finish (Fin_Cancelled 2 None) 0 ''a'']
     [build_new_entity 0 0 (reminder_input None)])"
  by (rule reminder_one_transition_per_lease) (auto simp: keyed_def reminder_lease.claims_of_def build_new_entity_def)

end
