(* ===== verification/Llm_Slots.thy ===== *)
theory Llm_Slots
  imports Bot_Prelude
begin

text \<open>
  The distributed budget of concurrent model calls (\<open>packages/llm-agent/src/execution/redis-slot-limiter.ts\<close>):
  one Redis counter for all processes, and one lease key per acquired slot. The two Lua scripts are
  atomic steps on a small Redis: a counter with an optional expiry, and the expiry of every lease
  key. A key is gone once the clock has passed its expiry.

  The loop of \<open>acquireRedisSlot\<close> is driven by one \<open>probe\<close> per attempt, which says what happens
  around it: the clock, an abort of the caller, whether the script is answered, refused, or
  carried out with its reply lost, and how the release of an abandoned slot goes.
\<close>

section \<open>The scripts\<close>

record slot_redis =
  sl_now :: millis
  sl_count :: "(int \<times> millis option) option"
  sl_leases :: "(string \<times> millis) list"

definition alive :: "millis \<Rightarrow> millis option \<Rightarrow> bool" where
  "alive now x = (case x of None \<Rightarrow> True | Some t \<Rightarrow> now \<le> t)"

definition live_count :: "slot_redis \<Rightarrow> (int \<times> millis option) option" where
  "live_count s = (case sl_count s of None \<Rightarrow> None | Some (n, x) \<Rightarrow> if alive (sl_now s) x then Some (n, x) else None)"

definition counter :: "slot_redis \<Rightarrow> int" where
  "counter s = (case live_count s of None \<Rightarrow> 0 | Some (n, x) \<Rightarrow> n)"

definition live_leases :: "slot_redis \<Rightarrow> string list" where
  "live_leases s = map fst (filter (\<lambda>l. sl_now s \<le> snd l) (sl_leases s))"

text \<open>\<open>INCR\<close>, \<open>PEXPIRE\<close>, then either \<open>SET lease\<close> or \<open>DECR\<close>.\<close>

definition acquire_script :: "int \<Rightarrow> millis \<Rightarrow> string \<Rightarrow> slot_redis \<Rightarrow> bool \<times> slot_redis" where
  "acquire_script limit ttl uuid s =
     (let current = counter s + 1; expiry = sl_now s + ttl
      in if current \<le> limit
         then (True, s\<lparr>sl_count := Some (current, Some expiry),
                       sl_leases := (uuid, expiry) # filter (\<lambda>l. fst l \<noteq> uuid) (sl_leases s)\<rparr>)
         else (False, s\<lparr>sl_count := Some (current - 1, Some expiry)\<rparr>))"

text \<open>\<open>GET lease\<close>; on a match \<open>DEL\<close>, \<open>DECR\<close> and, below zero, \<open>SET 0\<close>, which drops the expiry.\<close>

definition release_script :: "string \<Rightarrow> slot_redis \<Rightarrow> bool \<times> slot_redis" where
  "release_script uuid s =
     (if uuid \<in> set (live_leases s) then
        let v = counter s - 1;
            x = (case live_count s of None \<Rightarrow> None | Some (n, e) \<Rightarrow> e)
        in (True, s\<lparr>sl_leases := filter (\<lambda>l. fst l \<noteq> uuid) (sl_leases s),
                   sl_count := Some (if v < 0 then (0, None) else (v, x))\<rparr>)
      else (False, s))"

section \<open>Acquiring\<close>

record probe =
  pr_aborted :: bool
  pr_clock :: millis
  pr_reply :: db_reply
  pr_abort_during :: bool
  pr_release :: db_reply

datatype overload = Queue_Full | Wait_Timeout | Global_Saturated | Redis_Unavailable

datatype slot_result = Slot_Acquired | Slot_Aborted | Slot_Overload overload

text \<open>A failing release is logged and swallowed.\<close>

definition release_redis_slot :: "string \<Rightarrow> db_reply \<Rightarrow> slot_redis \<Rightarrow> slot_redis" where
  "release_redis_slot uuid reply s = (if reply = Refused then s else snd (release_script uuid s))"

text \<open>After an abort the script still runs to its end, and a slot it won is given back.\<close>

definition settle_aborted :: "int \<Rightarrow> millis \<Rightarrow> string \<Rightarrow> probe \<Rightarrow> slot_redis \<Rightarrow> slot_redis" where
  "settle_aborted limit ttl uuid p s =
     (case pr_reply p of
        Refused \<Rightarrow> s
      | Reply_Lost \<Rightarrow> snd (acquire_script limit ttl uuid s)
      | Replied \<Rightarrow>
          (case acquire_script limit ttl uuid s of
             (True, s') \<Rightarrow> release_redis_slot uuid (pr_release p) s'
           | (False, s') \<Rightarrow> s'))"

text \<open>
  One probe per attempt, so the list is as long as \<open>maxRetries\<close>. The clock of an attempt is read
  when the attempt starts; the sleep between two attempts shows in the clock of the next one.
\<close>

fun acquire_redis_slot ::
    "int \<Rightarrow> millis \<Rightarrow> millis option \<Rightarrow> nat \<Rightarrow> string \<Rightarrow> millis \<Rightarrow> bool \<Rightarrow> nat \<Rightarrow> probe list \<Rightarrow> slot_redis \<Rightarrow> slot_result \<times> slot_redis" where
  "acquire_redis_slot limit ttl budget max_errors uuid started saw_error errors [] s =
     (Slot_Overload (if saw_error then Redis_Unavailable else Global_Saturated), s)"
| "acquire_redis_slot limit ttl budget max_errors uuid started saw_error errors (p # ps) s =
     (let s0 = s\<lparr>sl_now := max (sl_now s) (pr_clock p)\<rparr> in
      if pr_aborted p then (Slot_Aborted, s0)
      else if (case budget of None \<Rightarrow> False | Some b \<Rightarrow> sl_now s0 - started \<ge> b)
      then (Slot_Overload (if saw_error then Redis_Unavailable else Global_Saturated), s0)
      else if pr_abort_during p then (Slot_Aborted, settle_aborted limit ttl uuid p s0)
      else case pr_reply p of
        Replied \<Rightarrow>
          (case acquire_script limit ttl uuid s0 of
             (True, s1) \<Rightarrow> (Slot_Acquired, s1)
           | (False, s1) \<Rightarrow> acquire_redis_slot limit ttl budget max_errors uuid started saw_error 0 ps s1)
      | r \<Rightarrow>
          (let s1 = (if r = Reply_Lost then snd (acquire_script limit ttl uuid s0) else s0) in
           if Suc errors \<ge> max_errors then (Slot_Overload Redis_Unavailable, s1)
           else acquire_redis_slot limit ttl budget max_errors uuid started True (Suc errors) ps s1))"

section \<open>Processes sharing the Redis\<close>

text \<open>
  Scripts are atomic, so any interleaving of processes is a sequence of ticks and scripts. Every
  process brings its own lease time.
\<close>

datatype slot_step = Sl_Tick millis | Sl_Acquire millis string | Sl_Release string

fun slot_exec :: "int \<Rightarrow> slot_step \<Rightarrow> slot_redis \<Rightarrow> slot_redis" where
  "slot_exec limit (Sl_Tick d) s = s\<lparr>sl_now := sl_now s + max 0 d\<rparr>"
| "slot_exec limit (Sl_Acquire ttl u) s = snd (acquire_script limit ttl u s)"
| "slot_exec limit (Sl_Release u) s = snd (release_script u s)"

definition slot_run :: "int \<Rightarrow> slot_step list \<Rightarrow> slot_redis \<Rightarrow> slot_redis" where
  "slot_run limit steps s = fold (slot_exec limit) steps s"

fun leases_for :: "millis \<Rightarrow> slot_step \<Rightarrow> bool" where
  "leases_for ttl (Sl_Acquire t u) = (t = ttl)"
| "leases_for ttl _ = True"

definition empty_slots :: "millis \<Rightarrow> slot_redis" where
  "empty_slots now = \<lparr>sl_now = now, sl_count = None, sl_leases = []\<rparr>"

lemma slot_run_Nil [simp]: "slot_run limit [] s = s"
  and slot_run_Cons [simp]: "slot_run limit (a # as) s = slot_run limit as (slot_exec limit a s)"
  and slot_run_append [simp]: "slot_run limit (as @ bs) s = slot_run limit bs (slot_run limit as s)"
  by (simp_all add: slot_run_def)

section \<open>The bound\<close>

text \<open>Every live lease is counted, and the counter outlives every lease.\<close>

definition slots_ok :: "int \<Rightarrow> millis \<Rightarrow> slot_redis \<Rightarrow> bool" where
  "slots_ok limit ttl s \<longleftrightarrow>
     distinct (map fst (sl_leases s)) \<and> int (length (live_leases s)) \<le> counter s \<and> counter s \<le> limit \<and>
     (\<forall>l\<in>set (sl_leases s). snd l \<le> sl_now s + ttl) \<and>
     (\<forall>l\<in>set (sl_leases s). sl_now s \<le> snd l \<longrightarrow>
        (\<exists>n x. sl_count s = Some (n, x) \<and> (case x of None \<Rightarrow> True | Some t \<Rightarrow> snd l \<le> t)))"

lemma counter_live:
  assumes "slots_ok limit ttl s" "l \<in> set (sl_leases s)" "sl_now s \<le> snd l"
  shows "\<exists>n x. live_count s = Some (n, x) \<and> sl_count s = Some (n, x) \<and> (case x of None \<Rightarrow> True | Some t \<Rightarrow> snd l \<le> t)"
proof -
  obtain n x where c: "sl_count s = Some (n, x)" "case x of None \<Rightarrow> True | Some t \<Rightarrow> snd l \<le> t"
    using assms unfolding slots_ok_def by blast
  then have "alive (sl_now s) x" using assms(3) by (auto simp: alive_def split: option.splits)
  then show ?thesis using c by (simp add: live_count_def)
qed

lemma live_leases_none: "\<forall>l\<in>set (sl_leases s). \<not> sl_now s \<le> snd l \<Longrightarrow> live_leases s = []"
  by (simp add: live_leases_def filter_empty_conv)

lemma length_filter_imp: "(\<And>x. P x \<Longrightarrow> Q x) \<Longrightarrow> length (filter P xs) \<le> length (filter Q xs)"
  by (induction xs) auto

lemma counter_tick:
  assumes "sl_now s \<le> now"
  shows "counter (s\<lparr>sl_now := now\<rparr>) = 0 \<or> counter (s\<lparr>sl_now := now\<rparr>) = counter s"
    and "live_count (s\<lparr>sl_now := now\<rparr>) \<noteq> None \<Longrightarrow> counter (s\<lparr>sl_now := now\<rparr>) = counter s"
  using assms by (auto simp: counter_def live_count_def alive_def split: option.splits)

lemma slots_ok_tick:
  assumes "slots_ok limit ttl s" "0 \<le> limit" "sl_now s \<le> now"
  shows "slots_ok limit ttl (s\<lparr>sl_now := now\<rparr>)"
proof -
  let ?s = "s\<lparr>sl_now := now\<rparr>"
  have fewer: "length (live_leases ?s) \<le> length (live_leases s)"
    using assms(3) by (auto simp: live_leases_def intro: length_filter_imp)
  have count: "int (length (live_leases s)) \<le> counter s" "counter s \<le> limit" using assms(1) by (simp_all add: slots_ok_def)
  have outlive: "\<exists>n x. sl_count s = Some (n, x) \<and> (case x of None \<Rightarrow> True | Some t \<Rightarrow> snd l \<le> t)"
    if "l \<in> set (sl_leases s)" "now \<le> snd l" for l
    using counter_live [OF assms(1) that(1)] that(2) assms(3) by auto
  have "int (length (live_leases ?s)) \<le> counter ?s"
  proof (cases "\<exists>l\<in>set (sl_leases s). now \<le> snd l")
    case True
    then obtain l where l: "l \<in> set (sl_leases s)" "now \<le> snd l" by blast
    obtain n x where "sl_count s = Some (n, x)" "case x of None \<Rightarrow> True | Some t \<Rightarrow> snd l \<le> t"
      using outlive [OF l] by blast
    then have "live_count ?s \<noteq> None" using l(2) by (auto simp: live_count_def alive_def split: option.splits)
    then have "counter ?s = counter s" by (rule counter_tick(2) [OF assms(3)])
    then show ?thesis using fewer count by linarith
  next
    case False
    then have "live_leases ?s = []" by (intro live_leases_none) auto
    then have "length (live_leases ?s) = 0" by simp
    then show ?thesis using counter_tick(1) [OF assms(3)] count by linarith
  qed
  moreover have "counter ?s \<le> limit" using counter_tick(1) [OF assms(3)] count(2) assms(2) by linarith
  moreover have "\<forall>l\<in>set (sl_leases s). snd l \<le> now + ttl" using assms(1,3) by (force simp: slots_ok_def)
  ultimately show ?thesis using assms(1) outlive by (auto simp: slots_ok_def)
qed

lemma counter_after_write: "\<lbrakk>sl_now s \<le> t\<rbrakk> \<Longrightarrow> counter (s\<lparr>sl_count := Some (n, Some t), sl_leases := ls\<rparr>) = n"
  by (simp add: counter_def live_count_def alive_def)

lemma slots_ok_acquire:
  assumes ok: "slots_ok limit ttl s" and "0 \<le> ttl"
  shows "slots_ok limit ttl (snd (acquire_script limit ttl u s))"
proof -
  let ?t = "sl_now s + ttl"
  have later: "snd l \<le> ?t" if "l \<in> set (sl_leases s)" for l using ok that by (simp add: slots_ok_def)
  have count: "int (length (live_leases s)) \<le> counter s" "counter s \<le> limit" "distinct (map fst (sl_leases s))"
    using ok by (simp_all add: slots_ok_def)
  show ?thesis
  proof (cases "counter s + 1 \<le> limit")
    case True
    let ?ls = "(u, ?t) # filter (\<lambda>l. fst l \<noteq> u) (sl_leases s)"
    let ?s = "s\<lparr>sl_count := Some (counter s + 1, Some ?t), sl_leases := ?ls\<rparr>"
    have "length (live_leases ?s) \<le> Suc (length (live_leases s))"
      using assms(2) by (auto simp: live_leases_def intro: length_filter_imp)
    moreover have "counter ?s = counter s + 1" using assms(2) by (intro counter_after_write) simp
    moreover have "distinct (map fst ?ls)" using count(3) by (auto simp: distinct_map_filter)
    ultimately have "slots_ok limit ttl ?s" using count later True by (auto simp: slots_ok_def)
    then show ?thesis using True by (simp add: acquire_script_def Let_def)
  next
    case False
    let ?s = "s\<lparr>sl_count := Some (counter s, Some ?t)\<rparr>"
    have "counter ?s = counter s" using assms(2) by (simp add: counter_def [of ?s] live_count_def alive_def)
    moreover have "live_leases ?s = live_leases s" by (simp add: live_leases_def)
    ultimately have "slots_ok limit ttl ?s" using count later by (auto simp: slots_ok_def)
    then show ?thesis using False by (simp add: acquire_script_def Let_def)
  qed
qed

lemma live_leases_remove: "live_leases (s\<lparr>sl_count := c, sl_leases := filter (\<lambda>l. fst l \<noteq> u) (sl_leases s)\<rparr>) = filter (\<lambda>v. v \<noteq> u) (live_leases s)"
  by (simp add: live_leases_def filter_map comp_def conj_commute)

lemma slots_ok_release:
  assumes ok: "slots_ok limit ttl s"
  shows "slots_ok limit ttl (snd (release_script u s))"
proof (cases "u \<in> set (live_leases s)")
  case True
  then obtain l where l: "l \<in> set (sl_leases s)" "sl_now s \<le> snd l" "fst l = u" by (auto simp: live_leases_def)
  obtain n x where c: "live_count s = Some (n, x)" "sl_count s = Some (n, x)" using counter_live [OF ok l(1,2)] by blast
  have n: "counter s = n" using c by (simp add: counter_def)
  have count: "int (length (live_leases s)) \<le> n" "n \<le> limit" "distinct (map fst (sl_leases s))"
    using ok n by (simp_all add: slots_ok_def)
  have fewer: "length (filter (\<lambda>v. v \<noteq> u) (live_leases s)) < length (live_leases s)"
    using True by (intro length_filter_less) auto
  let ?s = "s\<lparr>sl_count := Some (n - 1, x), sl_leases := filter (\<lambda>l. fst l \<noteq> u) (sl_leases s)\<rparr>"
  have "alive (sl_now s) x" using c by (auto simp: live_count_def split: if_splits)
  then have "counter ?s = n - 1" by (simp add: counter_def live_count_def)
  then have "slots_ok limit ttl ?s"
    using ok count fewer c(2) unfolding slots_ok_def live_leases_remove
    by (auto simp: distinct_map_filter)
  moreover have "snd (release_script u s) = ?s"
    using True c n count(1) fewer by (simp add: release_script_def Let_def)
  ultimately show ?thesis by simp
qed (use ok in \<open>simp add: release_script_def\<close>)

lemma slots_ok_run:
  assumes "slots_ok limit ttl s" "0 \<le> limit" "0 \<le> ttl" "list_all (leases_for ttl) steps"
  shows "slots_ok limit ttl (slot_run limit steps s)"
  using assms(1,4)
proof (induction steps arbitrary: s)
  case (Cons a as)
  have "slots_ok limit ttl (slot_exec limit a s)"
    using Cons.prems assms(2,3) by (cases a) (auto intro: slots_ok_tick slots_ok_acquire slots_ok_release)
  then show ?case using Cons by simp
qed simp

section \<open>The loop as steps\<close>

definition slot_reach :: "int \<Rightarrow> millis \<Rightarrow> slot_redis \<Rightarrow> slot_redis \<Rightarrow> bool" where
  "slot_reach limit ttl s s' \<longleftrightarrow> (\<exists>steps. list_all (leases_for ttl) steps \<and> s' = slot_run limit steps s)"

lemma slot_reach_refl [simp]: "slot_reach limit ttl s s"
  unfolding slot_reach_def by (rule exI [of _ "[]"]) simp

lemma slot_reach_trans: "slot_reach limit ttl s s1 \<Longrightarrow> slot_reach limit ttl s1 s2 \<Longrightarrow> slot_reach limit ttl s s2"
  unfolding slot_reach_def by (metis list_all_append slot_run_append)

lemma slot_reach_tick: "slot_reach limit ttl s (s\<lparr>sl_now := max (sl_now s) t\<rparr>)"
  unfolding slot_reach_def
  by (rule exI [of _ "[Sl_Tick (t - sl_now s)]"]) (auto simp: max_def)

lemma slot_reach_acquire: "slot_reach limit ttl s (snd (acquire_script limit ttl u s))"
  unfolding slot_reach_def by (rule exI [of _ "[Sl_Acquire ttl u]"]) simp

lemma slot_reach_release: "slot_reach limit ttl s (release_redis_slot u r s)"
proof (cases "r = Refused")
  case False
  then show ?thesis unfolding slot_reach_def release_redis_slot_def
    by (intro exI [of _ "[Sl_Release u]"]) simp
qed (simp add: release_redis_slot_def)

lemma slot_reach_settle: "slot_reach limit ttl s (settle_aborted limit ttl u p s)"
proof -
  note acq = slot_reach_acquire [of limit ttl s u]
  show ?thesis
    using acq slot_reach_trans [OF acq slot_reach_release]
    by (auto simp: settle_aborted_def split: db_reply.splits prod.splits bool.splits)
qed

lemma slot_reach_loop:
  "slot_reach limit ttl s (snd (acquire_redis_slot limit ttl budget max_errors u started saw errors ps s))"
proof (induction ps arbitrary: saw errors s)
  case (Cons p ps)
  let ?s0 = "s\<lparr>sl_now := max (sl_now s) (pr_clock p)\<rparr>"
  let ?s1 = "snd (acquire_script limit ttl u ?s0)"
  have s0: "slot_reach limit ttl s ?s0" by (rule slot_reach_tick)
  have s1: "slot_reach limit ttl s ?s1" by (rule slot_reach_trans [OF s0 slot_reach_acquire])
  note loop = slot_reach_trans [OF s0 Cons.IH] slot_reach_trans [OF s1 Cons.IH]
  obtain b s1' where acq: "acquire_script limit ttl u ?s0 = (b, s1')" by force
  note s1 = s1 [unfolded acq snd_conv] and loop = loop [unfolded acq snd_conv]
  have settle: "slot_reach limit ttl s (settle_aborted limit ttl u p ?s0)"
    by (rule slot_reach_trans [OF s0 slot_reach_settle])
  show ?case
    unfolding acquire_redis_slot.simps Let_def acq
    using s0 s1 loop settle by (auto split: db_reply.split bool.split)
qed simp

lemma slots_ok_empty: "0 \<le> limit \<Longrightarrow> slots_ok limit ttl (empty_slots now)"
  by (simp add: slots_ok_def empty_slots_def live_leases_def counter_def live_count_def)

lemma slots_ok_reach: "slot_reach limit ttl s s' \<Longrightarrow> slots_ok limit ttl s \<Longrightarrow> 0 \<le> limit \<Longrightarrow> 0 \<le> ttl \<Longrightarrow> slots_ok limit ttl s'"
  unfolding slot_reach_def by (metis slots_ok_run)

text \<open>C11: However the processes of all bots interleave their acquire and release scripts and whatever
  replies are lost, crashes and expiries included, no more than \<open>limit\<close> leases are alive at once,
  also at the end of any further call of \<open>acquireRedisSlot\<close> and with a different holder for each
  lease, provided all processes use one lease time.
\<close>

theorem slots_never_exceed_limit:
  assumes "0 \<le> limit" "0 < ttl" "list_all (leases_for ttl) steps"
  shows "case acquire_redis_slot limit ttl budget max_errors u started saw errors ps (slot_run limit steps (empty_slots now)) of
           (res, s) \<Rightarrow> int (length (live_leases s)) \<le> limit \<and> distinct (live_leases s)"
proof -
  have "slots_ok limit ttl (slot_run limit steps (empty_slots now))"
    using assms by (intro slots_ok_run slots_ok_empty) auto
  then have "slots_ok limit ttl (snd (acquire_redis_slot limit ttl budget max_errors u started saw errors ps (slot_run limit steps (empty_slots now))))"
    using assms by (intro slots_ok_reach [OF slot_reach_loop]) auto
  then show ?thesis
    by (auto simp: slots_ok_def live_leases_def distinct_map_filter split: prod.splits)
qed

theorem slots_never_exceed_limit_witness:
  "case acquire_redis_slot 1 60 None 3 ''b'' 0 False 0
          [\<lparr>pr_aborted = False, pr_clock = 10, pr_reply = Replied, pr_abort_during = False, pr_release = Replied\<rparr>]
          (slot_run 1 [Sl_Acquire 60 ''a'', Sl_Tick 5] (empty_slots 0)) of
     (res, s) \<Rightarrow> int (length (live_leases s)) \<le> 1 \<and> distinct (live_leases s)"
  by (rule slots_never_exceed_limit) simp_all

section \<open>What one call leaves behind\<close>

definition clean_probe :: "probe \<Rightarrow> bool" where
  "clean_probe p \<longleftrightarrow> pr_reply p \<noteq> Reply_Lost \<and> pr_release p \<noteq> Refused"

lemma counter_nonneg_acquire: "0 \<le> counter s \<Longrightarrow> 0 \<le> ttl \<Longrightarrow> 0 \<le> counter (snd (acquire_script limit ttl u s))"
  by (auto simp: acquire_script_def Let_def counter_after_write counter_def [of "sl_count_update _ _"] live_count_def alive_def)

lemma acquire_refused:
  assumes "acquire_script limit ttl u s = (False, s1)" "0 \<le> ttl"
  shows "sl_leases s1 = sl_leases s \<and> counter s1 = counter s \<and> sl_now s1 = sl_now s"
  using assms by (auto simp: acquire_script_def Let_def counter_def [of "sl_count_update _ _"] live_count_def alive_def split: if_splits)

lemma acquire_granted:
  assumes "acquire_script limit ttl u s = (True, s1)" "0 \<le> ttl" "u \<notin> fst ` set (sl_leases s)"
  shows "sl_leases s1 = (u, sl_now s + ttl) # sl_leases s \<and> counter s1 = counter s + 1 \<and> sl_now s1 = sl_now s
    \<and> live_count s1 = Some (counter s + 1, Some (sl_now s + ttl))"
proof -
  have "filter (\<lambda>l. fst l \<noteq> u) (sl_leases s) = sl_leases s" using assms(3) by (auto intro!: filter_True)
  then show ?thesis
    using assms(1,2) by (auto simp: acquire_script_def Let_def counter_after_write live_count_def alive_def split: if_splits)
qed

lemma acquire_then_release:
  assumes "acquire_script limit ttl u s = (True, s1)" "0 \<le> ttl" "u \<notin> fst ` set (sl_leases s)" "0 \<le> counter s"
  shows "sl_leases (snd (release_script u s1)) = sl_leases s \<and> counter (snd (release_script u s1)) = counter s"
proof -
  note g = acquire_granted [OF assms(1-3)]
  have "u \<in> set (live_leases s1)" using g assms(2) by (simp add: live_leases_def)
  moreover have "filter (\<lambda>l. fst l \<noteq> u) (sl_leases s) = sl_leases s" using assms(3) by (auto intro!: filter_True)
  ultimately show ?thesis
    using g assms(2,4)
    by (auto simp: release_script_def Let_def counter_def [of "sl_count_update _ _"] live_count_def alive_def)
qed

lemma settle_aborted_clean:
  assumes "clean_probe p" "0 \<le> ttl" "u \<notin> fst ` set (sl_leases s)" "0 \<le> counter s"
  shows "sl_leases (settle_aborted limit ttl u p s) = sl_leases s \<and> counter (settle_aborted limit ttl u p s) = counter s"
proof -
  obtain b s1 where acq: "acquire_script limit ttl u s = (b, s1)" by force
  show ?thesis
    using assms acq acquire_refused [of limit ttl u s s1] acquire_then_release [of limit ttl u s s1]
    by (cases b) (auto simp: settle_aborted_def clean_probe_def release_redis_slot_def split: db_reply.splits)
qed

lemma counter_clock: "0 \<le> counter s \<Longrightarrow> counter (s\<lparr>sl_now := max (sl_now s) t\<rparr>) \<le> counter s \<and> 0 \<le> counter (s\<lparr>sl_now := max (sl_now s) t\<rparr>)"
  using counter_tick(1) [of s "max (sl_now s) t"] by auto

text \<open>What a finished call did: one new lease and one count when it acquired, nothing otherwise.\<close>

definition accounted :: "string \<Rightarrow> slot_redis \<Rightarrow> slot_result \<times> slot_redis \<Rightarrow> bool" where
  "accounted u s out \<longleftrightarrow>
     (if fst out = Slot_Acquired
      then (\<exists>t. sl_leases (snd out) = (u, t) # sl_leases s) \<and> counter (snd out) \<le> counter s + 1
      else sl_leases (snd out) = sl_leases s \<and> counter (snd out) \<le> counter s)"

lemma accounted_from: "accounted u s1 out \<Longrightarrow> sl_leases s1 = sl_leases s \<Longrightarrow> counter s1 \<le> counter s \<Longrightarrow> accounted u s out"
  by (auto simp: accounted_def)

lemma accounted_loop:
  assumes "list_all clean_probe ps" "0 \<le> ttl" "u \<notin> fst ` set (sl_leases s)" "0 \<le> counter s"
  shows "accounted u s (acquire_redis_slot limit ttl budget max_errors u started saw errors ps s)"
  using assms
proof (induction ps arbitrary: saw errors s)
  case (Cons p ps)
  let ?s0 = "s\<lparr>sl_now := max (sl_now s) (pr_clock p)\<rparr>"
  have p: "clean_probe p" and ps: "list_all clean_probe ps" using Cons.prems by auto
  have s0: "counter ?s0 \<le> counter s" "0 \<le> counter ?s0" using counter_clock Cons.prems(4) by blast+
  have u0: "u \<notin> fst ` set (sl_leases ?s0)" using Cons.prems(3) by simp
  obtain b s1 where acq: "acquire_script limit ttl u ?s0 = (b, s1)" by force
  have idle: "accounted u s (r, ?s0)" if "r \<noteq> Slot_Acquired" for r using that s0 by (simp add: accounted_def)
  have settle: "accounted u s (Slot_Aborted, settle_aborted limit ttl u p ?s0)"
    using settle_aborted_clean [OF p Cons.prems(2) u0 s0(2), of limit] s0 by (simp add: accounted_def)
  have won: "accounted u s (Slot_Acquired, s1)" if b
  proof -
    have "acquire_script limit ttl u ?s0 = (True, s1)" using acq that by simp
    from acquire_granted [OF this Cons.prems(2) u0] s0(1) show ?thesis by (simp add: accounted_def)
  qed
  have lost: "accounted u s (acquire_redis_slot limit ttl budget max_errors u started v e ps s1)" if "\<not> b" for v e
  proof -
    have s1: "sl_leases s1 = sl_leases s" "counter s1 = counter ?s0"
      using acquire_refused [of limit ttl u ?s0 s1] acq that Cons.prems(2) by simp_all
    have "accounted u s1 (acquire_redis_slot limit ttl budget max_errors u started v e ps s1)"
      using Cons.IH [OF ps Cons.prems(2), of s1] s1 s0 Cons.prems(3) by simp
    then show ?thesis by (rule accounted_from) (simp_all add: s1 s0)
  qed
  have failed: "accounted u s (acquire_redis_slot limit ttl budget max_errors u started v e ps ?s0)" for v e
    by (rule accounted_from [OF Cons.IH [OF ps Cons.prems(2) u0 s0(2)]]) (simp_all add: s0)
  have reply: "pr_reply p \<noteq> Reply_Lost" using p by (simp add: clean_probe_def)
  show ?case
  proof (cases b)
    case True
    then show ?thesis using reply acq
      by (simp add: Let_def idle settle won failed split: db_reply.split)
  next
    case False
    then show ?thesis using reply acq
      by (simp add: Let_def idle settle lost failed split: db_reply.split)
  qed
qed (simp add: accounted_def)

text \<open>As long as no reply is lost and no release is refused, a call of \<open>acquireRedisSlot\<close> with a
  fresh fencing token that acquires adds exactly its own lease and at most one to the counter, and a
  call that ends in an abort, saturation or a Redis failure leaves no lease and nothing in the
  counter, a slot won after the abort included.
\<close>

theorem slot_call_leaves_no_trace:
  assumes "list_all clean_probe ps" "0 < ttl" "u \<notin> fst ` set (sl_leases s)" "0 \<le> counter s"
  shows "case acquire_redis_slot limit ttl budget max_errors u started saw errors ps s of
           (Slot_Acquired, s') \<Rightarrow> (\<exists>t. sl_leases s' = (u, t) # sl_leases s) \<and> counter s' \<le> counter s + 1
         | (_, s') \<Rightarrow> sl_leases s' = sl_leases s \<and> counter s' \<le> counter s"
  using accounted_loop [of ps ttl u s limit budget max_errors started saw errors] assms
  by (auto simp: accounted_def split: prod.splits slot_result.splits)

theorem slot_call_leaves_no_trace_witness:
  "case acquire_redis_slot 2 60 (Some 100) 3 ''b'' 0 False 0
          [\<lparr>pr_aborted = False, pr_clock = 10, pr_reply = Replied, pr_abort_during = True, pr_release = Replied\<rparr>]
          (slot_run 2 [Sl_Acquire 60 ''a''] (empty_slots 0)) of
     (Slot_Acquired, s') \<Rightarrow> (\<exists>t. sl_leases s' = (''b'', t) # sl_leases (slot_run 2 [Sl_Acquire 60 ''a''] (empty_slots 0)))
        \<and> counter s' \<le> counter (slot_run 2 [Sl_Acquire 60 ''a''] (empty_slots 0)) + 1
   | (_, s') \<Rightarrow> sl_leases s' = sl_leases (slot_run 2 [Sl_Acquire 60 ''a''] (empty_slots 0))
        \<and> counter s' \<le> counter (slot_run 2 [Sl_Acquire 60 ''a''] (empty_slots 0))"
  by (rule slot_call_leaves_no_trace)
    (simp_all add: clean_probe_def empty_slots_def acquire_script_def Let_def counter_def live_count_def alive_def)

section \<open>Slots that are not recovered\<close>

definition attempts_every :: "millis \<Rightarrow> (millis \<times> string) list \<Rightarrow> slot_step list" where
  "attempts_every ttl xs = concat (map (\<lambda>(d, u). [Sl_Tick d, Sl_Acquire ttl u]) xs)"

definition pinned :: "int \<Rightarrow> millis \<Rightarrow> slot_redis \<Rightarrow> bool" where
  "pinned limit ttl s \<longleftrightarrow> sl_count s = Some (limit, Some (sl_now s + ttl))"

lemma pinned_attempt:
  assumes "pinned limit ttl s" "0 \<le> d" "d \<le> ttl"
  shows "slot_run limit [Sl_Tick d, Sl_Acquire ttl u] s = s\<lparr>sl_now := sl_now s + d, sl_count := Some (limit, Some (sl_now s + d + ttl))\<rparr>"
  using assms by (simp add: pinned_def acquire_script_def Let_def counter_def live_count_def alive_def)

lemma pinned_attempts:
  assumes "pinned limit ttl s" "\<forall>d\<in>set (map fst xs). 0 \<le> d \<and> d \<le> ttl"
  shows "pinned limit ttl (slot_run limit (attempts_every ttl xs) s)
    \<and> sl_leases (slot_run limit (attempts_every ttl xs) s) = sl_leases s
    \<and> sl_now (slot_run limit (attempts_every ttl xs) s) = sl_now s + sum_list (map fst xs)"
  using assms
proof (induction xs arbitrary: s)
  case (Cons x xs)
  obtain d u where x: "x = (d, u)" by force
  let ?s = "s\<lparr>sl_now := sl_now s + d, sl_count := Some (limit, Some (sl_now s + d + ttl))\<rparr>"
  have "slot_run limit (attempts_every ttl (x # xs)) s = slot_run limit (attempts_every ttl xs) ?s"
    using pinned_attempt [of limit ttl s d u] Cons.prems by (simp add: x attempts_every_def)
  moreover have "pinned limit ttl ?s" by (simp add: pinned_def)
  ultimately show ?case using Cons.IH [of ?s] Cons.prems by (simp add: x)
qed (simp add: attempts_every_def)

lemma fill_slots:
  assumes "0 \<le> ttl" "distinct us" "us \<noteq> []" "length us \<le> nat limit"
  shows "slot_run limit (map (Sl_Acquire ttl) us) (empty_slots now)
    = \<lparr>sl_now = now, sl_count = Some (int (length us), Some (now + ttl)), sl_leases = rev (map (\<lambda>u. (u, now + ttl)) us)\<rparr>"
  using assms
proof (induction us rule: rev_induct)
  case (snoc u us)
  have fresh: "filter (\<lambda>l. fst l \<noteq> u) (rev (map (\<lambda>u. (u, now + ttl)) us)) = rev (map (\<lambda>u. (u, now + ttl)) us)"
    using snoc.prems by (auto intro!: filter_True)
  show ?case
  proof (cases "us = []")
    case True
    then show ?thesis using snoc.prems
      by (auto simp: empty_slots_def acquire_script_def Let_def counter_def live_count_def)
  next
    case False
    then have "slot_run limit (map (Sl_Acquire ttl) us) (empty_slots now)
      = \<lparr>sl_now = now, sl_count = Some (int (length us), Some (now + ttl)), sl_leases = rev (map (\<lambda>u. (u, now + ttl)) us)\<rparr>"
      using snoc by auto
    then show ?thesis using snoc.prems fresh
      by (auto simp: acquire_script_def Let_def counter_def live_count_def alive_def)
  qed
qed simp

text \<open>C31: Slots of crashed holders are not recovered under traffic: after \<open>limit\<close> holders took their
  leases and died, every later acquire is refused as long as attempts come at most one lease time
  apart, because each refused attempt renews the expiry of the counter, even once every lease
  has expired.
\<close>

theorem crashed_holders_pin_the_counter:
  assumes "0 < limit" "0 < ttl" "distinct us" "length us = nat limit" "\<forall>d\<in>set (map fst xs). 0 \<le> d \<and> d \<le> ttl" "ttl < sum_list (map fst xs)"
  shows "case slot_run limit (map (Sl_Acquire ttl) us @ attempts_every ttl xs) (empty_slots now) of
           s \<Rightarrow> live_leases s = [] \<and> counter s = limit \<and> \<not> fst (acquire_script limit ttl u s)"
proof -
  let ?f = "slot_run limit (map (Sl_Acquire ttl) us) (empty_slots now)"
  have f: "?f = \<lparr>sl_now = now, sl_count = Some (limit, Some (now + ttl)), sl_leases = rev (map (\<lambda>u. (u, now + ttl)) us)\<rparr>"
  proof -
    have "us \<noteq> []" using assms(1,4) by auto
    then show ?thesis using fill_slots [of ttl us limit now] assms(1-4) by simp
  qed
  then have "pinned limit ttl ?f" by (simp add: pinned_def)
  note run = pinned_attempts [OF this assms(5)]
  let ?s = "slot_run limit (attempts_every ttl xs) ?f"
  have "live_leases ?s = []" using run assms(6) f by (intro live_leases_none) auto
  moreover have "counter ?s = limit" using run assms(2) by (simp add: pinned_def counter_def live_count_def alive_def)
  ultimately show ?thesis by (simp add: acquire_script_def Let_def)
qed

theorem crashed_holders_pin_the_counter_witness:
  "case slot_run 1 (map (Sl_Acquire 60) [''a''] @ attempts_every 60 [(40, ''b''), (40, ''c'')]) (empty_slots 0) of
     s \<Rightarrow> live_leases s = [] \<and> counter s = 1 \<and> \<not> fst (acquire_script 1 60 ''d'' s)"
  by (rule crashed_holders_pin_the_counter) simp_all


end
