(* ===== verification/Llm_Queue.thy ===== *)
theory Llm_Queue
  imports Llm_Slots Webhook_Inbox "HOL-Library.Sublist"
begin

text \<open>
  The process-local gate in front of the model providers: \<open>BoundedAdmissionQueue\<close> of
  \<open>packages/llm-agent/src/execution/bounded-admission.ts\<close>. A call of \<open>acquire\<close> is named by a number;
  the same number names its waiter and its ticket. The timers and the abort listener of a waiter are
  operations of their own, so a run of the queue is a list of operations in the order the event loop
  takes them. \<open>aq_tickets\<close> holds the tickets whose \<open>released\<close> flag is still false, \<open>aq_log\<close> the way
  every promise was settled.

  The locale \<open>permit_gate\<close> states what the admission coordinator relies on.
\<close>

section \<open>Budgets\<close>

record admission_budget =
  ab_chat :: millis
  ab_background :: millis

definition interactive_llm_features :: "string list" where
  "interactive_llm_features = [''FREE_FORM_CHAT'']"

definition admission_wait_budget_ms :: "admission_budget \<Rightarrow> string \<Rightarrow> millis" where
  "admission_wait_budget_ms cfg feature =
     (if feature \<noteq> '''' \<and> feature \<in> set interactive_llm_features then ab_chat cfg else ab_background cfg)"

section \<open>The queue\<close>

record waiter =
  wt_id :: nat
  wt_enqueued :: millis
  wt_ready :: bool

datatype admission_end = Granted | Overloaded overload | Wait_Aborted | Bad_Delay

record adm_queue =
  aq_active :: int
  aq_waiters :: "waiter list"
  aq_tickets :: "nat list"
  aq_log :: "(nat \<times> admission_end) list"

definition fresh_queue :: adm_queue where
  "fresh_queue = \<lparr>aq_active = 0, aq_waiters = [], aq_tickets = [], aq_log = []\<rparr>"

definition settle :: "nat \<Rightarrow> admission_end \<Rightarrow> adm_queue \<Rightarrow> adm_queue" where
  "settle i e q = q\<lparr>aq_log := aq_log q @ [(i, e)]\<rparr>"

definition make_ticket :: "nat \<Rightarrow> adm_queue \<Rightarrow> adm_queue" where
  "make_ticket i q = settle i Granted (q\<lparr>aq_active := aq_active q + 1, aq_tickets := i # aq_tickets q\<rparr>)"

fun pump_from :: "int \<Rightarrow> waiter list \<Rightarrow> adm_queue \<Rightarrow> adm_queue" where
  "pump_from concurrency [] q = q\<lparr>aq_waiters := []\<rparr>"
| "pump_from concurrency (next # ws) q =
     (if aq_active q < concurrency \<and> wt_ready next
      then pump_from concurrency ws (make_ticket (wt_id next) q)
      else q\<lparr>aq_waiters := next # ws\<rparr>)"

definition pump :: "int \<Rightarrow> adm_queue \<Rightarrow> adm_queue" where
  "pump concurrency q = pump_from concurrency (aq_waiters q) q"

definition queue_acquire :: "int \<Rightarrow> int \<Rightarrow> nat \<Rightarrow> bool \<Rightarrow> rat \<Rightarrow> millis \<Rightarrow> adm_queue \<Rightarrow> adm_queue" where
  "queue_acquire concurrency max_depth i aborted delay now q =
     (if aborted then settle i Wait_Aborted q
      else if delay < 0 then settle i Bad_Delay q
      else if delay = 0 \<and> aq_active q < concurrency \<and> aq_waiters q = [] then make_ticket i q
      else if int (length (aq_waiters q)) \<ge> max_depth then settle i (Overloaded Queue_Full) q
      else pump concurrency (q\<lparr>aq_waiters := aq_waiters q @ [\<lparr>wt_id = i, wt_enqueued = now, wt_ready = (delay = 0)\<rparr>]\<rparr>))"

definition ticket_release :: "int \<Rightarrow> nat \<Rightarrow> adm_queue \<Rightarrow> adm_queue" where
  "ticket_release concurrency i q =
     (if i \<in> set (aq_tickets q)
      then pump concurrency (q\<lparr>aq_active := aq_active q - 1, aq_tickets := removeAll i (aq_tickets q)\<rparr>)
      else q)"

definition queue_remove :: "int \<Rightarrow> nat \<Rightarrow> adm_queue \<Rightarrow> adm_queue" where
  "queue_remove concurrency i q = pump concurrency (q\<lparr>aq_waiters := filter (\<lambda>x. wt_id x \<noteq> i) (aq_waiters q)\<rparr>)"

definition waiting_ids :: "adm_queue \<Rightarrow> nat list" where
  "waiting_ids q = map wt_id (aq_waiters q)"

text \<open>The timers and the listener exist while the waiter is in the queue; \<open>clearWaiter\<close> drops them.\<close>

definition ready_fires :: "int \<Rightarrow> nat \<Rightarrow> adm_queue \<Rightarrow> adm_queue" where
  "ready_fires concurrency i q =
     (if i \<in> set (waiting_ids q)
      then pump concurrency (q\<lparr>aq_waiters := map (\<lambda>x. if wt_id x = i then x\<lparr>wt_ready := True\<rparr> else x) (aq_waiters q)\<rparr>)
      else q)"

definition timeout_fires :: "int \<Rightarrow> nat \<Rightarrow> adm_queue \<Rightarrow> adm_queue" where
  "timeout_fires concurrency i q =
     (if i \<in> set (waiting_ids q) then settle i (Overloaded Wait_Timeout) (queue_remove concurrency i q) else q)"

definition abort_fires :: "int \<Rightarrow> nat \<Rightarrow> adm_queue \<Rightarrow> adm_queue" where
  "abort_fires concurrency i q =
     (if i \<in> set (waiting_ids q) then settle i Wait_Aborted (queue_remove concurrency i q) else q)"

definition oldest_waiting_age_ms :: "millis \<Rightarrow> adm_queue \<Rightarrow> millis" where
  "oldest_waiting_age_ms now q = (case aq_waiters q of [] \<Rightarrow> 0 | x # _ \<Rightarrow> max 0 (now - wt_enqueued x))"

datatype queue_op = Q_Acquire nat bool rat millis | Q_Ready nat | Q_Timeout nat | Q_Abort nat | Q_Release nat

fun queue_exec :: "int \<Rightarrow> int \<Rightarrow> queue_op \<Rightarrow> adm_queue \<Rightarrow> adm_queue" where
  "queue_exec c d (Q_Acquire i aborted delay now) q = queue_acquire c d i aborted delay now q"
| "queue_exec c d (Q_Ready i) q = ready_fires c i q"
| "queue_exec c d (Q_Timeout i) q = timeout_fires c i q"
| "queue_exec c d (Q_Abort i) q = abort_fires c i q"
| "queue_exec c d (Q_Release i) q = ticket_release c i q"

definition queue_run :: "int \<Rightarrow> int \<Rightarrow> queue_op list \<Rightarrow> adm_queue" where
  "queue_run c d ops = fold (queue_exec c d) ops fresh_queue"

fun arrivals_of :: "queue_op \<Rightarrow> nat list" where
  "arrivals_of (Q_Acquire i aborted delay now) = [i]"
| "arrivals_of _ = []"

definition arrivals :: "queue_op list \<Rightarrow> nat list" where
  "arrivals ops = concat (map arrivals_of ops)"

definition grants :: "adm_queue \<Rightarrow> nat list" where
  "grants q = map fst (filter (\<lambda>x. snd x = Granted) (aq_log q))"

lemma queue_run_snoc [simp]: "queue_run c d (ops @ [x]) = queue_exec c d x (queue_run c d ops)"
  and queue_run_Nil [simp]: "queue_run c d [] = fresh_queue"
  by (simp_all add: queue_run_def)

lemma arrivals_snoc [simp]: "arrivals (ops @ [x]) = arrivals ops @ arrivals_of x"
  and arrivals_Nil [simp]: "arrivals [] = []"
  by (simp_all add: arrivals_def)

section \<open>Pumping\<close>

text \<open>What \<open>pump\<close> does at once: it moves a prefix \<open>gs\<close> of the waiters to the tickets and the log.\<close>

definition admit :: "waiter list \<Rightarrow> waiter list \<Rightarrow> adm_queue \<Rightarrow> adm_queue" where
  "admit gs ws q = q\<lparr>aq_active := aq_active q + int (length gs), aq_waiters := ws,
     aq_tickets := rev (map wt_id gs) @ aq_tickets q, aq_log := aq_log q @ map (\<lambda>x. (wt_id x, Granted)) gs\<rparr>"

lemma pump_from_admits:
  "\<exists>gs rest. ws = gs @ rest \<and> pump_from c ws q = admit gs rest q \<and>
     (aq_active q \<le> c \<longrightarrow> aq_active q + int (length gs) \<le> c) \<and>
     (aq_active q + int (length gs) \<ge> c \<or> rest = [] \<or> \<not> wt_ready (hd rest))"
proof (induction ws arbitrary: q)
  case Nil
  then show ?case by (auto simp: admit_def)
next
  case (Cons w ws)
  show ?case
  proof (cases "aq_active q < c \<and> wt_ready w")
    case True
    obtain gs rest where "ws = gs @ rest" "pump_from c ws (make_ticket (wt_id w) q) = admit gs rest (make_ticket (wt_id w) q)"
      "aq_active (make_ticket (wt_id w) q) + int (length gs) \<le> c"
      "aq_active (make_ticket (wt_id w) q) + int (length gs) \<ge> c \<or> rest = [] \<or> \<not> wt_ready (hd rest)"
      using Cons.IH [of "make_ticket (wt_id w) q"] True by (auto simp: make_ticket_def settle_def)
    then show ?thesis using True
      by (intro exI [of _ "w # gs"] exI [of _ rest]) (simp add: admit_def make_ticket_def settle_def algebra_simps)
  next
    case False
    then show ?thesis by (intro exI [of _ "[]"] exI [of _ "w # ws"]) (auto simp: admit_def)
  qed
qed

lemma pumpE:
  obtains gs rest where "aq_waiters q = gs @ rest" "pump c q = admit gs rest q"
    "aq_active q \<le> c \<Longrightarrow> aq_active q + int (length gs) \<le> c"
    "aq_active q + int (length gs) \<ge> c \<or> rest = [] \<or> \<not> wt_ready (hd rest)"
  using pump_from_admits [of "aq_waiters q" c q] unfolding pump_def by blast

section \<open>Invariant\<close>

text \<open>
  Active calls are the unreleased tickets; both bounds hold; nobody waits while a permit is free and
  the head of the queue is ready; every call that arrived is waiting or settled exactly once; grants
  and waiters are in order of arrival. \<open>pend\<close> names the call an operation is working on.
\<close>

definition queue_ok :: "int \<Rightarrow> int \<Rightarrow> nat list \<Rightarrow> nat list \<Rightarrow> adm_queue \<Rightarrow> bool" where
  "queue_ok c d arr pend q \<longleftrightarrow>
     aq_active q = int (length (aq_tickets q)) \<and> aq_active q \<le> c \<and> int (length (aq_waiters q)) \<le> d \<and>
     distinct (aq_tickets q) \<and> set (aq_tickets q) \<subseteq> set (grants q) \<and>
     distinct (pend @ map fst (aq_log q) @ waiting_ids q) \<and> set (pend @ map fst (aq_log q) @ waiting_ids q) = set arr \<and>
     subseq (grants q @ waiting_ids q) arr"

definition no_strand :: "int \<Rightarrow> adm_queue \<Rightarrow> bool" where
  "no_strand c q \<longleftrightarrow> aq_active q \<ge> c \<or> aq_waiters q = [] \<or> \<not> wt_ready (hd (aq_waiters q))"

lemma grants_admit: "grants (admit gs ws q) = grants q @ map wt_id gs"
proof -
  have "filter (\<lambda>x. snd x = Granted) (map (\<lambda>x. (wt_id x, Granted)) gs) = map (\<lambda>x. (wt_id x, Granted)) gs" by (auto intro: filter_True)
  then show ?thesis by (simp add: grants_def admit_def comp_def)
qed

lemma grants_settle: "grants (settle i e q) = grants q @ (if e = Granted then [i] else [])"
  by (simp add: grants_def settle_def)

lemma grants_update [simp]:
  "grants (q\<lparr>aq_active := n\<rparr>) = grants q" "grants (q\<lparr>aq_waiters := ws\<rparr>) = grants q" "grants (q\<lparr>aq_tickets := ts\<rparr>) = grants q"
  by (simp_all add: grants_def)

lemma log_grants: "set (grants q) \<subseteq> set (map fst (aq_log q))"
  by (auto simp: grants_def)

lemma queue_ok_pump:
  assumes "queue_ok c d arr pend q"
  shows "queue_ok c d arr pend (pump c q) \<and> no_strand c (pump c q)"
proof (rule pumpE [of q c])
  fix gs rest
  assume g: "aq_waiters q = gs @ rest" "pump c q = admit gs rest q" "aq_active q \<le> c \<Longrightarrow> aq_active q + int (length gs) \<le> c"
    "aq_active q + int (length gs) \<ge> c \<or> rest = [] \<or> \<not> wt_ready (hd rest)"
  have ids: "waiting_ids q = map wt_id gs @ map wt_id rest" by (simp add: waiting_ids_def g(1))
  have sub: "set (aq_tickets q) \<subseteq> set (map fst (aq_log q))" using assms log_grants unfolding queue_ok_def by blast
  have "queue_ok c d arr pend (admit gs rest q)"
    using assms g(1,3) sub ids unfolding queue_ok_def grants_admit
    by (auto simp: admit_def waiting_ids_def comp_def)
  moreover have "no_strand c (admit gs rest q)" using g(4) by (auto simp: no_strand_def admit_def)
  ultimately show ?thesis by (simp add: g(2))
qed

lemma queue_ok_settle:
  assumes "queue_ok c d arr (i # pend) q" "e \<noteq> Granted"
  shows "queue_ok c d arr pend (settle i e q)"
proof -
  have "waiting_ids (settle i e q) = waiting_ids q" by (simp add: waiting_ids_def settle_def)
  then show ?thesis using assms unfolding queue_ok_def grants_settle by (auto simp: settle_def)
qed

lemma queue_ok_arrive:
  assumes "queue_ok c d arr [] q" "i \<notin> set arr"
  shows "queue_ok c d (arr @ [i]) [i] q"
proof -
  have "subseq (grants q @ waiting_ids q) (arr @ [i])" using assms(1) by (auto simp: queue_ok_def)
  then show ?thesis using assms by (auto simp: queue_ok_def)
qed

lemma subseq_last: "subseq xs arr \<Longrightarrow> subseq (xs @ [i]) (arr @ [i])"
  by (simp add: subseq_append)

lemma queue_ok_ticket:
  assumes "queue_ok c d arr [] q" "i \<notin> set arr" "aq_active q < c" "aq_waiters q = []"
  shows "queue_ok c d (arr @ [i]) [] (make_ticket i q)"
proof -
  have "waiting_ids q = []" using assms(4) by (simp add: waiting_ids_def)
  moreover have "set (aq_tickets q) \<subseteq> set (map fst (aq_log q))" using assms(1) log_grants unfolding queue_ok_def by blast
  ultimately show ?thesis
    using assms unfolding queue_ok_def
    by (auto simp: make_ticket_def grants_settle subseq_last) (force simp: settle_def waiting_ids_def)+
qed

lemma queue_ok_enqueue:
  assumes "queue_ok c d arr [] q" "i \<notin> set arr" "int (length (aq_waiters q)) < d" "wt_id x = i"
  shows "queue_ok c d (arr @ [i]) [] (q\<lparr>aq_waiters := aq_waiters q @ [x]\<rparr>)"
proof -
  have ids: "waiting_ids (q\<lparr>aq_waiters := aq_waiters q @ [x]\<rparr>) = waiting_ids q @ [i]" using assms(4) by (simp add: waiting_ids_def)
  have "subseq ((grants q @ waiting_ids q) @ [i]) (arr @ [i])" using assms(1) by (intro subseq_last) (simp add: queue_ok_def)
  then show ?thesis using assms(1-3) unfolding queue_ok_def ids by auto
qed

lemma queue_ok_acquire:
  assumes "queue_ok c d arr [] q" "no_strand c q" "i \<notin> set arr"
  shows "queue_ok c d (arr @ [i]) [] (queue_acquire c d i aborted delay now q) \<and> no_strand c (queue_acquire c d i aborted delay now q)"
proof -
  have end_call: "queue_ok c d (arr @ [i]) [] (settle i e q) \<and> no_strand c (settle i e q)" if "e \<noteq> Granted" for e
    using queue_ok_settle [OF queue_ok_arrive [OF assms(1,3)] that] assms(2) by (simp add: no_strand_def settle_def)
  have ticket: "no_strand c (make_ticket i q)" if "aq_waiters q = []"
    using that by (simp add: no_strand_def make_ticket_def settle_def)
  show ?thesis
    using end_call ticket queue_ok_ticket [OF assms(1,3)] queue_ok_pump [OF queue_ok_enqueue [OF assms(1,3)]]
    unfolding queue_acquire_def by auto
qed

lemma queue_ok_release:
  assumes "queue_ok c d arr [] q" "no_strand c q"
  shows "queue_ok c d arr [] (ticket_release c i q) \<and> no_strand c (ticket_release c i q)"
proof (cases "i \<in> set (aq_tickets q)")
  case True
  let ?q = "q\<lparr>aq_active := aq_active q - 1, aq_tickets := removeAll i (aq_tickets q)\<rparr>"
  have "distinct (aq_tickets q)" using assms(1) by (simp add: queue_ok_def)
  then have "int (length (removeAll i (aq_tickets q))) = int (length (aq_tickets q)) - 1"
    using True by (metis distinct_remove1_removeAll length_remove1 One_nat_def Suc_pred length_pos_if_in_set of_nat_Suc add_diff_cancel_right' add.commute)
  moreover have "waiting_ids ?q = waiting_ids q" by (simp add: waiting_ids_def)
  ultimately have "queue_ok c d arr [] ?q" using assms(1) unfolding queue_ok_def by (auto simp: distinct_removeAll)
  then show ?thesis using True queue_ok_pump by (simp add: ticket_release_def)
qed (use assms in \<open>simp add: ticket_release_def\<close>)

lemma waiting_ids_filter: "waiting_ids (q\<lparr>aq_waiters := filter (\<lambda>x. wt_id x \<noteq> i) (aq_waiters q)\<rparr>) = filter (\<lambda>j. j \<noteq> i) (waiting_ids q)"
  by (simp add: waiting_ids_def filter_map comp_def)

lemma queue_ok_remove:
  assumes "queue_ok c d arr [] q" "i \<in> set (waiting_ids q)"
  shows "queue_ok c d arr [i] (queue_remove c i q) \<and> no_strand c (queue_remove c i q)"
proof -
  let ?q = "q\<lparr>aq_waiters := filter (\<lambda>x. wt_id x \<noteq> i) (aq_waiters q)\<rparr>"
  have "subseq (grants q @ filter (\<lambda>j. j \<noteq> i) (waiting_ids q)) (grants q @ waiting_ids q)"
    by (simp add: subseq_append' subseq_filter_left)
  then have "subseq (grants q @ filter (\<lambda>j. j \<noteq> i) (waiting_ids q)) arr"
    using assms(1) unfolding queue_ok_def by (meson subseq_order.trans)
  moreover have "length (filter (\<lambda>x. wt_id x \<noteq> i) (aq_waiters q)) \<le> length (aq_waiters q)" by simp
  moreover have "set (aq_tickets q) \<subseteq> set (map fst (aq_log q))" using assms(1) log_grants unfolding queue_ok_def by blast
  ultimately have "queue_ok c d arr [i] ?q"
    using assms unfolding queue_ok_def waiting_ids_filter by (auto simp del: length_filter_le)
  then show ?thesis using queue_ok_pump by (simp add: queue_remove_def)
qed

lemma queue_ok_drop:
  assumes "queue_ok c d arr [] q" "i \<in> set (waiting_ids q)" "e \<noteq> Granted"
  shows "queue_ok c d arr [] (settle i e (queue_remove c i q)) \<and> no_strand c (settle i e (queue_remove c i q))"
  using queue_ok_settle queue_ok_remove [OF assms(1,2)] assms(3) by (auto simp: no_strand_def settle_def)

lemma queue_ok_ready:
  assumes "queue_ok c d arr [] q" "no_strand c q"
  shows "queue_ok c d arr [] (ready_fires c i q) \<and> no_strand c (ready_fires c i q)"
proof -
  let ?q = "q\<lparr>aq_waiters := map (\<lambda>x. if wt_id x = i then x\<lparr>wt_ready := True\<rparr> else x) (aq_waiters q)\<rparr>"
  have "waiting_ids ?q = waiting_ids q" by (simp add: waiting_ids_def comp_def)
  then have "queue_ok c d arr [] ?q" using assms(1) unfolding queue_ok_def by auto
  then show ?thesis using queue_ok_pump assms by (simp add: ready_fires_def)
qed

lemma queue_ok_exec:
  assumes "queue_ok c d arr [] q" "no_strand c q" "\<forall>i\<in>set (arrivals_of x). i \<notin> set arr"
  shows "queue_ok c d (arr @ arrivals_of x) [] (queue_exec c d x q) \<and> no_strand c (queue_exec c d x q)"
  using assms queue_ok_acquire queue_ok_release queue_ok_ready queue_ok_drop
  by (cases x) (auto simp: timeout_fires_def abort_fires_def)

lemma queue_ok_run:
  assumes "0 \<le> c" "0 \<le> d" "distinct (arrivals ops)"
  shows "queue_ok c d (arrivals ops) [] (queue_run c d ops) \<and> no_strand c (queue_run c d ops)"
  using assms(3)
proof (induction ops rule: rev_induct)
  case Nil
  then show ?case using assms(1,2) by (simp add: queue_ok_def no_strand_def fresh_queue_def waiting_ids_def grants_def)
next
  case (snoc x ops)
  then show ?case using queue_ok_exec [of c d "arrivals ops" "queue_run c d ops" x] by auto
qed

text \<open>C33: In every run of the admission queue at most \<open>concurrency\<close> tickets are out and at most
  \<open>maxQueueDepth\<close> calls wait, every call that arrived either waits or has been settled exactly once,
  and permits are handed out in the order of arrival.
\<close>

theorem admission_queue_bounded_fifo:
  assumes "0 \<le> c" "0 \<le> d" "distinct (arrivals ops)"
  shows "case queue_run c d ops of q \<Rightarrow>
    int (length (aq_tickets q)) \<le> c \<and> int (length (aq_waiters q)) \<le> d \<and>
    distinct (map fst (aq_log q) @ waiting_ids q) \<and> set (map fst (aq_log q) @ waiting_ids q) = set (arrivals ops) \<and>
    subseq (grants q) (arrivals ops)"
proof -
  let ?q = "queue_run c d ops"
  have ok: "queue_ok c d (arrivals ops) [] ?q" using queue_ok_run [OF assms] by simp
  then have "subseq (grants ?q @ waiting_ids ?q) (arrivals ops)" by (simp add: queue_ok_def)
  then have "subseq (grants ?q) (arrivals ops)" by (meson subseq_order.trans subseq_rev_drop_many subseq_order.refl)
  then show ?thesis using ok unfolding queue_ok_def by auto
qed

theorem admission_queue_bounded_fifo_witness:
  "case queue_run 1 2 [Q_Acquire 0 False 0 0, Q_Acquire 1 False 0 1, Q_Acquire 2 False 0 2, Q_Acquire 3 False 0 3, Q_Abort 1, Q_Release 0] of q \<Rightarrow>
    int (length (aq_tickets q)) \<le> 1 \<and> int (length (aq_waiters q)) \<le> 2 \<and>
    distinct (map fst (aq_log q) @ waiting_ids q) \<and>
    set (map fst (aq_log q) @ waiting_ids q) = set (arrivals [Q_Acquire 0 False 0 0, Q_Acquire 1 False 0 1, Q_Acquire 2 False 0 2, Q_Acquire 3 False 0 3, Q_Abort 1, Q_Release 0]) \<and>
    subseq (grants q) (arrivals [Q_Acquire 0 False 0 0, Q_Acquire 1 False 0 1, Q_Acquire 2 False 0 2, Q_Acquire 3 False 0 3, Q_Abort 1, Q_Release 0])"
  by (rule admission_queue_bounded_fifo) (simp_all add: arrivals_def)

section \<open>Nobody is left behind\<close>

definition wakes :: "queue_op \<Rightarrow> bool" where
  "wakes x = (case x of Q_Ready i \<Rightarrow> True | Q_Release i \<Rightarrow> True | _ \<Rightarrow> False)"

definition served :: "adm_queue \<Rightarrow> nat set" where
  "served q = set (grants q) \<union> set (waiting_ids q)"

lemma served_pump [simp]: "served (pump c q) = served q"
  by (rule pumpE [of q c]) (auto simp: served_def grants_admit, auto simp: admit_def waiting_ids_def)

lemma served_exec: "wakes x \<Longrightarrow> served (queue_exec c d x q) = served q"
  by (cases x) (auto simp: wakes_def ready_fires_def ticket_release_def, auto simp: served_def waiting_ids_def grants_def comp_def split: if_splits)

lemma queue_exec_wakes_ok:
  "queue_ok c d arr [] q \<Longrightarrow> no_strand c q \<Longrightarrow> wakes x \<Longrightarrow>
   queue_ok c d arr [] (queue_exec c d x q) \<and> no_strand c (queue_exec c d x q)"
  using queue_ok_exec [of c d arr q x] by (cases x) (auto simp: wakes_def)

lemma waiters_pump_le: "length (aq_waiters (pump c q)) \<le> length (aq_waiters q)"
  by (rule pumpE [of q c]) (auto simp: admit_def)

lemma waiters_pump_less:
  assumes "aq_waiters q \<noteq> []" "wt_ready (hd (aq_waiters q))" "aq_active q < c"
  shows "length (aq_waiters (pump c q)) < length (aq_waiters q)"
  by (rule pumpE [of q c]) (use assms in \<open>auto simp: admit_def hd_append split: if_splits\<close>)

lemma head_served:
  assumes "queue_ok c d arr [] q" "no_strand c q" "aq_waiters q = w # ws" "0 < c"
  shows "\<exists>ops. list_all wakes ops \<and> length (aq_waiters (fold (queue_exec c d) ops q)) < length (aq_waiters q)"
proof -
  let ?q = "ready_fires c (wt_id w) q"
  let ?p = "q\<lparr>aq_waiters := map (\<lambda>x. if wt_id x = wt_id w then x\<lparr>wt_ready := True\<rparr> else x) (aq_waiters q)\<rparr>"
  have q: "?q = pump c ?p" using assms(3) by (simp add: ready_fires_def waiting_ids_def)
  show ?thesis
  proof (cases "aq_active q < c")
    case True
    then have "length (aq_waiters ?q) < length (aq_waiters q)"
      unfolding q using waiters_pump_less [of ?p c] assms(3) by simp
    then show ?thesis by (intro exI [of _ "[Q_Ready (wt_id w)]"]) (simp add: wakes_def)
  next
    case False
    then obtain t ts where t: "aq_tickets q = t # ts" using assms(1,4) by (cases "aq_tickets q") (auto simp: queue_ok_def)
    have full: "aq_active q = c" using False assms(1) by (simp add: queue_ok_def)
    have "?q = ?p" unfolding q using assms(3) full by (simp add: pump_def)
    moreover have "length (aq_waiters (ticket_release c t ?p)) < length (aq_waiters ?p)"
      using waiters_pump_less [of "?p\<lparr>aq_active := c - 1, aq_tickets := removeAll t (aq_tickets q)\<rparr>" c] assms(3) t full
      by (simp add: ticket_release_def)
    ultimately show ?thesis
      by (intro exI [of _ "[Q_Ready (wt_id w), Q_Release t]"]) (simp add: wakes_def)
  qed
qed

lemma wakes_fold:
  assumes "queue_ok c d arr [] q" "no_strand c q" "list_all wakes ops"
  shows "queue_ok c d arr [] (fold (queue_exec c d) ops q) \<and> no_strand c (fold (queue_exec c d) ops q)
    \<and> served (fold (queue_exec c d) ops q) = served q"
  using assms
proof (induction ops arbitrary: q)
  case (Cons x ops)
  then show ?case using queue_exec_wakes_ok [of c d arr q x] served_exec [of x c d q] by simp
qed simp

lemma queue_drains:
  assumes "queue_ok c d arr [] q" "no_strand c q" "0 < c"
  shows "\<exists>ops. list_all wakes ops \<and> aq_waiters (fold (queue_exec c d) ops q) = []"
  using assms
proof (induction "length (aq_waiters q)" arbitrary: q rule: less_induct)
  case less
  show ?case
  proof (cases "aq_waiters q")
    case Nil
    then show ?thesis by (intro exI [of _ "[]"]) simp
  next
    case (Cons w ws)
    obtain ops where ops: "list_all wakes ops" "length (aq_waiters (fold (queue_exec c d) ops q)) < length (aq_waiters q)"
      using head_served [OF less.prems(1,2) Cons less.prems(3)] by blast
    note w = wakes_fold [OF less.prems(1,2) ops(1)]
    obtain more where "list_all wakes more" "aq_waiters (fold (queue_exec c d) more (fold (queue_exec c d) ops q)) = []"
      using less.hyps [OF ops(2)] w less.prems(3) by blast
    then show ?thesis using ops(1) by (intro exI [of _ "ops @ more"]) simp
  qed
qed

text \<open>C34: Whatever happened before, no call in the admission queue is stuck: a permit is never free while
  the head of the queue is ready, and from every reachable state the pending delays and releases of
  tickets alone lead to a state in which everyone who was waiting has been granted a permit.
\<close>

theorem admission_queue_serves_waiters:
  assumes "0 < c" "0 \<le> d" "distinct (arrivals ops)"
  shows "no_strand c (queue_run c d ops) \<and>
    (\<exists>more. list_all wakes more \<and> aq_waiters (queue_run c d (ops @ more)) = [] \<and>
       set (waiting_ids (queue_run c d ops)) \<subseteq> set (grants (queue_run c d (ops @ more))))"
proof -
  let ?q = "queue_run c d ops"
  have ok: "queue_ok c d (arrivals ops) [] ?q" "no_strand c ?q" using queue_ok_run [of c d ops] assms by auto
  obtain more where more: "list_all wakes more" "aq_waiters (fold (queue_exec c d) more ?q) = []"
    using queue_drains [OF ok assms(1)] by blast
  have "set (waiting_ids ?q) \<subseteq> served (fold (queue_exec c d) more ?q)"
    using wakes_fold [OF ok more(1)] by (auto simp: served_def)
  moreover have "waiting_ids (fold (queue_exec c d) more ?q) = []" using more(2) by (simp add: waiting_ids_def)
  ultimately show ?thesis
    using ok(2) more by (intro conjI exI [of _ more]) (simp_all add: queue_run_def served_def)
qed

theorem admission_queue_serves_waiters_witness:
  "no_strand 1 (queue_run 1 2 [Q_Acquire 0 False 0 0, Q_Acquire 1 False 5 1]) \<and>
    (\<exists>more. list_all wakes more \<and> aq_waiters (queue_run 1 2 ([Q_Acquire 0 False 0 0, Q_Acquire 1 False 5 1] @ more)) = [] \<and>
       set (waiting_ids (queue_run 1 2 [Q_Acquire 0 False 0 0, Q_Acquire 1 False 5 1]))
       \<subseteq> set (grants (queue_run 1 2 ([Q_Acquire 0 False 0 0, Q_Acquire 1 False 5 1] @ more))))"
  by (rule admission_queue_serves_waiters) (simp_all add: arrivals_def)

section \<open>The contract\<close>

text \<open>
  What a client of the gate may rely on: a call is in the gate until the client lets it go, a permit
  stays with its holder, and there are never more permits than \<open>room\<close>. \<open>known\<close> are the calls made so far.
\<close>

locale permit_gate =
  fixes ok :: "'q \<Rightarrow> bool" and held :: "'q \<Rightarrow> nat set" and queued :: "'q \<Rightarrow> nat set" and known :: "'q \<Rightarrow> nat set"
    and enter :: "'a \<Rightarrow> nat \<Rightarrow> 'q \<Rightarrow> 'q" and leave :: "nat \<Rightarrow> 'q \<Rightarrow> 'q" and expire :: "'e \<Rightarrow> nat \<Rightarrow> 'q \<Rightarrow> 'q" and wake :: "nat \<Rightarrow> 'q \<Rightarrow> 'q"
    and room :: int
  assumes room: "ok q \<Longrightarrow> finite (held q) \<and> int (card (held q)) \<le> room"
    and inside_known: "ok q \<Longrightarrow> held q \<union> queued q \<subseteq> known q"
    and apart: "ok q \<Longrightarrow> held q \<inter> queued q = {}"
    and enter: "ok q \<Longrightarrow> i \<notin> known q \<Longrightarrow> ok (enter a i q) \<and> held q \<subseteq> held (enter a i q) \<and> known (enter a i q) = insert i (known q) \<and>
                  (held (enter a i q) \<union> queued (enter a i q)) - {i} = held q \<union> queued q"
    and leave: "ok q \<Longrightarrow> i \<in> held q \<Longrightarrow> ok (leave i q) \<and> held q - {i} \<subseteq> held (leave i q) \<and> known (leave i q) = known q \<and>
                  held (leave i q) \<union> queued (leave i q) = held q \<union> queued q - {i}"
    and expire: "ok q \<Longrightarrow> i \<in> queued q \<Longrightarrow> ok (expire e i q) \<and> held q \<subseteq> held (expire e i q) \<and> known (expire e i q) = known q \<and>
                  held (expire e i q) \<union> queued (expire e i q) = held q \<union> queued q - {i}"
    and wake: "ok q \<Longrightarrow> ok (wake i q) \<and> held q \<subseteq> held (wake i q) \<and> known (wake i q) = known q \<and>
                  held (wake i q) \<union> queued (wake i q) = held q \<union> queued q"
begin

definition inside :: "'q \<Rightarrow> nat set" where
  "inside q = held q \<union> queued q"

text \<open>A client's book: the calls it has in the gate, and those it treats as holding a permit.\<close>

definition books :: "nat set \<Rightarrow> nat set \<Rightarrow> 'q \<Rightarrow> bool" where
  "books mine running q \<longleftrightarrow> ok q \<and> mine = inside q \<and> running \<subseteq> held q"

lemma books_running: "books mine running q \<Longrightarrow> running \<subseteq> mine \<and> finite running \<and> int (card running) \<le> room"
proof -
  assume b: "books mine running q"
  then have r: "finite (held q)" "int (card (held q)) \<le> room" "running \<subseteq> held q" using room unfolding books_def by blast+
  then have "card running \<le> card (held q)" by (simp add: card_mono)
  then show ?thesis using r b finite_subset unfolding books_def inside_def by fastforce
qed

lemma books_promote: "books mine running q \<Longrightarrow> i \<in> held q \<Longrightarrow> books mine (insert i running) q"
  by (simp add: books_def)

lemma books_demote: "books mine running q \<Longrightarrow> books mine (running - {i}) q"
  by (auto simp: books_def)

lemma books_enter:
  assumes "books mine running q" "i \<notin> known q"
  shows "i \<notin> mine" and "books (if i \<in> inside (enter a i q) then insert i mine else mine) running (enter a i q)"
proof -
  have b: "ok q" "mine = inside q" "running \<subseteq> held q" using assms(1) by (simp_all add: books_def)
  show "i \<notin> mine" using inside_known [OF b(1)] b(2) assms(2) by (auto simp: inside_def)
  note e = enter [OF b(1) assms(2), of a]
  have "i \<notin> inside q" using inside_known [OF b(1)] assms(2) by (auto simp: inside_def)
  moreover have "inside (enter a i q) - {i} = inside q" using e by (simp add: inside_def)
  ultimately have "(if i \<in> inside (enter a i q) then insert i mine else mine) = inside (enter a i q)" using b(2) by auto
  then show "books (if i \<in> inside (enter a i q) then insert i mine else mine) running (enter a i q)"
    using b e by (auto simp: books_def)
qed

lemma books_leave: "books mine running q \<Longrightarrow> i \<in> running \<Longrightarrow> books (mine - {i}) (running - {i}) (leave i q)"
  using leave [of q i] unfolding books_def inside_def by auto

lemma books_leave_held: "books mine running q \<Longrightarrow> i \<in> held q \<Longrightarrow> books (mine - {i}) (running - {i}) (leave i q)"
  using leave [of q i] unfolding books_def inside_def by auto

lemma books_expire:
  assumes "books mine running q" "i \<in> queued q"
  shows "books (mine - {i}) running (expire e i q)" and "i \<notin> running"
proof -
  have b: "ok q" "mine = inside q" "running \<subseteq> held q" using assms(1) by (simp_all add: books_def)
  show "i \<notin> running" using apart [OF b(1)] b(3) assms(2) by blast
  show "books (mine - {i}) running (expire e i q)" using expire [OF b(1) assms(2), of e] b by (auto simp: books_def inside_def)
qed

lemma books_wake: "books mine running q \<Longrightarrow> books mine running (wake i q)"
  using wake [of q i] unfolding books_def inside_def by auto

lemma books_closed: "books {} running q \<Longrightarrow> held q = {} \<and> queued q = {}"
  by (simp add: books_def inside_def)

end

definition gate_ok :: "int \<Rightarrow> int \<Rightarrow> adm_queue \<Rightarrow> bool" where
  "gate_ok c d q \<longleftrightarrow> (\<exists>arr. queue_ok c d arr [] q \<and> no_strand c q)"

definition gate_inside :: "adm_queue \<Rightarrow> nat set" where
  "gate_inside q = set (aq_tickets q) \<union> set (waiting_ids q)"

definition gate_known :: "adm_queue \<Rightarrow> nat set" where
  "gate_known q = set (map fst (aq_log q)) \<union> set (waiting_ids q)"

definition gate_enter :: "int \<Rightarrow> int \<Rightarrow> bool \<times> rat \<times> millis \<Rightarrow> nat \<Rightarrow> adm_queue \<Rightarrow> adm_queue" where
  "gate_enter c d a i q = (case a of (aborted, delay, now) \<Rightarrow> queue_acquire c d i aborted delay now q)"

definition gate_expire :: "int \<Rightarrow> bool \<Rightarrow> nat \<Rightarrow> adm_queue \<Rightarrow> adm_queue" where
  "gate_expire c e i q = (if e then timeout_fires c i q else abort_fires c i q)"

definition ids_moved :: "adm_queue \<Rightarrow> adm_queue \<Rightarrow> bool" where
  "ids_moved q q' \<longleftrightarrow> set (aq_tickets q) \<subseteq> set (aq_tickets q') \<and> gate_inside q' = gate_inside q \<and> gate_known q' = gate_known q"

lemma ids_moved_pump: "ids_moved q (pump c q)"
  by (rule pumpE [of q c]) (auto simp: ids_moved_def gate_inside_def gate_known_def waiting_ids_def admit_def image_Un image_image)

lemma known_arrivals: "queue_ok c d arr [] q \<Longrightarrow> gate_known q = set arr"
  by (simp add: queue_ok_def gate_known_def)

lemma gate_okE:
  assumes "gate_ok c d q"
  obtains arr where "queue_ok c d arr [] q" "no_strand c q" "gate_known q = set arr"
  using assms known_arrivals unfolding gate_ok_def by blast

lemma gate_okI: "queue_ok c d arr [] q \<and> no_strand c q \<Longrightarrow> gate_ok c d q"
  unfolding gate_ok_def by blast

lemma gate_ok_sets:
  assumes "gate_ok c d q"
  shows "gate_inside q \<subseteq> gate_known q" and "set (aq_tickets q) \<inter> set (waiting_ids q) = {}" and "int (card (set (aq_tickets q))) \<le> c"
proof -
  obtain arr where ok: "queue_ok c d arr [] q" using assms by (rule gate_okE)
  then have log: "set (aq_tickets q) \<subseteq> set (map fst (aq_log q))" using log_grants unfolding queue_ok_def by blast
  then show "gate_inside q \<subseteq> gate_known q" by (auto simp: gate_inside_def gate_known_def)
  show "set (aq_tickets q) \<inter> set (waiting_ids q) = {}" using ok log unfolding queue_ok_def by (auto simp: disjoint_iff)
  show "int (card (set (aq_tickets q))) \<le> c" using ok by (simp add: queue_ok_def distinct_card)
qed

lemma gate_enter_law:
  assumes "gate_ok c d q" "i \<notin> gate_known q"
  shows "gate_ok c d (gate_enter c d a i q)" and "set (aq_tickets q) \<subseteq> set (aq_tickets (gate_enter c d a i q))"
    and "gate_known (gate_enter c d a i q) = insert i (gate_known q)" and "gate_inside (gate_enter c d a i q) - {i} = gate_inside q"
proof -
  obtain aborted delay now where a: "a = (aborted, delay, now)" by (cases a)
  obtain arr where arr: "queue_ok c d arr [] q" "no_strand c q" "gate_known q = set arr" using assms(1) by (rule gate_okE)
  let ?x = "\<lparr>wt_id = i, wt_enqueued = now, wt_ready = (delay = 0)\<rparr>"
  let ?e = "q\<lparr>aq_waiters := aq_waiters q @ [?x]\<rparr>"
  have out: "i \<notin> gate_inside q" using gate_ok_sets(1) [OF assms(1)] assms(2) by blast
  have acq: "queue_ok c d (arr @ [i]) [] (gate_enter c d a i q) \<and> no_strand c (gate_enter c d a i q)"
    using queue_ok_acquire [OF arr(1,2)] assms(2) arr(3) by (simp add: a gate_enter_def)
  show "gate_ok c d (gate_enter c d a i q)" using acq by (rule gate_okI)
  show "gate_known (gate_enter c d a i q) = insert i (gate_known q)" using known_arrivals acq arr(3) by fastforce
  have pumped: "set (aq_tickets q) \<subseteq> set (aq_tickets (pump c ?e)) \<and> gate_inside (pump c ?e) = insert i (gate_inside q)"
    using ids_moved_pump [of ?e c] by (simp add: ids_moved_def) (simp add: gate_inside_def waiting_ids_def)
  have shape: "gate_enter c d a i q \<in> {settle i Wait_Aborted q, settle i Bad_Delay q, make_ticket i q, settle i (Overloaded Queue_Full) q, pump c ?e}"
    by (simp add: a gate_enter_def queue_acquire_def)
  show "set (aq_tickets q) \<subseteq> set (aq_tickets (gate_enter c d a i q))"
    using shape pumped by (auto simp: settle_def make_ticket_def)
  show "gate_inside (gate_enter c d a i q) - {i} = gate_inside q"
    using shape pumped out by (elim insertE) (simp_all, auto simp: settle_def make_ticket_def gate_inside_def waiting_ids_def)
qed

lemma gate_leave_law:
  assumes "gate_ok c d q" "i \<in> set (aq_tickets q)"
  shows "gate_ok c d (ticket_release c i q)" and "set (aq_tickets q) - {i} \<subseteq> set (aq_tickets (ticket_release c i q))"
    and "gate_known (ticket_release c i q) = gate_known q" and "gate_inside (ticket_release c i q) = gate_inside q - {i}"
proof -
  obtain arr where arr: "queue_ok c d arr [] q" "no_strand c q" using assms(1) by (rule gate_okE)
  let ?e = "q\<lparr>aq_active := aq_active q - 1, aq_tickets := removeAll i (aq_tickets q)\<rparr>"
  show "gate_ok c d (ticket_release c i q)" using queue_ok_release [OF arr] by (rule gate_okI)
  have "i \<notin> set (waiting_ids q)" using gate_ok_sets(2) [OF assms(1)] assms(2) by blast
  then have "gate_inside ?e = gate_inside q - {i}" "gate_known ?e = gate_known q" by (auto simp: gate_inside_def gate_known_def waiting_ids_def)
  moreover have "ticket_release c i q = pump c ?e" using assms(2) by (simp add: ticket_release_def)
  ultimately show "set (aq_tickets q) - {i} \<subseteq> set (aq_tickets (ticket_release c i q))"
    "gate_known (ticket_release c i q) = gate_known q" "gate_inside (ticket_release c i q) = gate_inside q - {i}"
    using ids_moved_pump [of ?e c] by (simp_all add: ids_moved_def)
qed

lemma gate_expire_law:
  assumes "gate_ok c d q" "i \<in> set (waiting_ids q)"
  shows "gate_ok c d (gate_expire c e i q)" and "set (aq_tickets q) \<subseteq> set (aq_tickets (gate_expire c e i q))"
    and "gate_known (gate_expire c e i q) = gate_known q" and "gate_inside (gate_expire c e i q) = gate_inside q - {i}"
proof -
  obtain arr where arr: "queue_ok c d arr [] q" "no_strand c q" "gate_known q = set arr" using assms(1) by (rule gate_okE)
  let ?e = "q\<lparr>aq_waiters := filter (\<lambda>x. wt_id x \<noteq> i) (aq_waiters q)\<rparr>"
  obtain r where r: "gate_expire c e i q = settle i r (pump c ?e)" "r \<noteq> Granted"
    using assms(2) that [of "if e then Overloaded Wait_Timeout else Wait_Aborted"]
    by (simp add: gate_expire_def timeout_fires_def abort_fires_def queue_remove_def split: if_splits)
  have ok: "queue_ok c d arr [] (gate_expire c e i q) \<and> no_strand c (gate_expire c e i q)"
    using queue_ok_drop [OF arr(1) assms(2) r(2)] r(1) by (simp add: queue_remove_def)
  show "gate_ok c d (gate_expire c e i q)" using ok by (rule gate_okI)
  show "gate_known (gate_expire c e i q) = gate_known q" using known_arrivals ok arr(3) by fastforce
  have "i \<notin> set (aq_tickets q)" using gate_ok_sets(2) [OF assms(1)] assms(2) by blast
  then have e: "gate_inside ?e = gate_inside q - {i}" unfolding gate_inside_def waiting_ids_filter by auto
  have m: "set (aq_tickets q) \<subseteq> set (aq_tickets (pump c ?e)) \<and> gate_inside (pump c ?e) = gate_inside q - {i}"
    using ids_moved_pump [of ?e c] e by (simp add: ids_moved_def)
  show "set (aq_tickets q) \<subseteq> set (aq_tickets (gate_expire c e i q))" using m r(1) by (simp add: settle_def)
  have "gate_inside (settle i r p) = gate_inside p" for p by (simp add: settle_def gate_inside_def waiting_ids_def)
  then show "gate_inside (gate_expire c e i q) = gate_inside q - {i}" using m r(1) by simp
qed

lemma gate_wake_law:
  assumes "gate_ok c d q"
  shows "gate_ok c d (ready_fires c i q)" and "ids_moved q (ready_fires c i q)"
proof -
  obtain arr where arr: "queue_ok c d arr [] q" "no_strand c q" using assms by (rule gate_okE)
  let ?e = "q\<lparr>aq_waiters := map (\<lambda>x. if wt_id x = i then x\<lparr>wt_ready := True\<rparr> else x) (aq_waiters q)\<rparr>"
  show "gate_ok c d (ready_fires c i q)" using queue_ok_ready [OF arr] by (rule gate_okI)
  have "waiting_ids ?e = waiting_ids q" by (simp add: waiting_ids_def comp_def)
  then have "ids_moved q (pump c ?e)" using ids_moved_pump [of ?e c] by (simp add: ids_moved_def gate_inside_def gate_known_def)
  then show "ids_moved q (ready_fires c i q)" by (simp add: ready_fires_def ids_moved_def)
qed

interpretation admission: permit_gate "gate_ok c d" "\<lambda>q. set (aq_tickets q)" "\<lambda>q. set (waiting_ids q)" gate_known
  "gate_enter c d" "ticket_release c" "gate_expire c" "ready_fires c" c for c d
proof (unfold_locales, goal_cases)
  case (4 q i a)
  then show ?case using gate_enter_law [OF 4] by (simp add: gate_inside_def)
next
  case (5 q i)
  then show ?case using gate_leave_law [OF 5] by (simp add: gate_inside_def)
next
  case (6 q i e)
  then show ?case using gate_expire_law [OF 6] by (simp add: gate_inside_def)
next
  case (7 q i)
  then show ?case using gate_wake_law [OF 7] by (simp add: gate_inside_def ids_moved_def)
qed (use gate_ok_sets in \<open>auto simp: gate_inside_def\<close>)

lemma gate_fresh: "0 \<le> c \<Longrightarrow> 0 \<le> d \<Longrightarrow> gate_ok c d fresh_queue"
  using queue_ok_run [of c d "[]"] by (intro gate_okI [of c d "[]"]) simp

end
