(* ===== verification/Llm_Admission.thy ===== *)
theory Llm_Admission
  imports Llm_Queue
begin

text \<open>
  The admission coordinator of one process
  (\<open>packages/llm-agent/src/execution/llm-admission-coordinator.ts\<close>): every model call first takes a
  permit of the local queue and then, when the aggregate budget is on, one slot of the shared Redis.
  A request is an \<open>async\<close> call of \<open>acquire\<close> and the lease it returns. Its state says at which
  \<open>await\<close> it stands; one event runs it from there to the next \<open>await\<close>, so a list of events is an
  interleaving of all requests of the process with the timers of the queue and with the scripts of
  other processes at the Redis.
\<close>

section \<open>Configuration\<close>

record admission_config =
  ac_max_concurrent :: int
  ac_max_queue_depth :: int
  ac_budget :: admission_budget
  ac_global_max :: int
  ac_global_enabled :: bool
  ac_probe_attempts :: "nat option"
  ac_probe_delay :: "int option"
  ac_request_timeout :: "millis option"

definition max_probe_attempts :: "admission_config \<Rightarrow> nat" where
  "max_probe_attempts cfg = (case ac_probe_attempts cfg of None \<Rightarrow> 200 | Some n \<Rightarrow> n)"

definition probe_delay_ms :: "admission_config \<Rightarrow> int" where
  "probe_delay_ms cfg = (case ac_probe_delay cfg of None \<Rightarrow> 50 | Some n \<Rightarrow> n)"

definition lease_ms :: "admission_config \<Rightarrow> millis" where
  "lease_ms cfg = max (case ac_request_timeout cfg of None \<Rightarrow> 0 | Some n \<Rightarrow> n) 60000"

definition max_consecutive_redis_errors :: nat where
  "max_consecutive_redis_errors = 3"

definition nominal_probe_delay :: "admission_config \<Rightarrow> nat \<Rightarrow> int" where
  "nominal_probe_delay cfg probe_attempts = min 1000 (probe_delay_ms cfg * 2 ^ (probe_attempts - 1))"

lemma lease_ms_nonneg: "0 \<le> lease_ms cfg"
  by (simp add: lease_ms_def)

section \<open>Requests\<close>

datatype admission_error = Adm_Overload overload | Adm_Aborted | Adm_Bad_Delay

text \<open>
  \<open>Rq_Queued i (Some r)\<close> is the first wait with \<open>r\<close> milliseconds of budget at its start,
  \<open>Rq_Queued i None\<close> the wait after a probe.
\<close>

datatype request_state =
    Rq_Queued nat "millis option"
  | Rq_Probing nat millis
  | Rq_Probed nat string slot_result
  | Rq_Leased nat "string option"
  | Rq_Releasing nat
  | Rq_Released
  | Rq_Failed admission_error

record request =
  rq_feature :: string
  rq_started :: millis
  rq_probes :: nat
  rq_errors :: nat
  rq_state :: request_state

record adm_world =
  aw_queue :: adm_queue
  aw_redis :: slot_redis
  aw_next :: nat
  aw_reqs :: "request list"
  aw_uuids :: "string list"

definition put_request :: "nat \<Rightarrow> request \<Rightarrow> adm_world \<Rightarrow> adm_world" where
  "put_request r rq w = w\<lparr>aw_reqs := (aw_reqs w)[r := rq]\<rparr>"

definition remaining_ms :: "admission_config \<Rightarrow> request \<Rightarrow> millis \<Rightarrow> millis" where
  "remaining_ms cfg rq now = admission_wait_budget_ms (ac_budget cfg) (rq_feature rq) - (now - rq_started rq)"

text \<open>How a call of the queue that is not granted or waiting has ended.\<close>

definition admission_error_of :: "admission_end \<Rightarrow> admission_error" where
  "admission_error_of e = (case e of Overloaded x \<Rightarrow> Adm_Overload x | Bad_Delay \<Rightarrow> Adm_Bad_Delay | _ \<Rightarrow> Adm_Aborted)"

definition enter_queue :: "admission_config \<Rightarrow> nat \<Rightarrow> request \<Rightarrow> millis option \<Rightarrow> bool \<Rightarrow> rat \<Rightarrow> millis \<Rightarrow> adm_world \<Rightarrow> adm_world" where
  "enter_queue cfg r rq first aborted delay now w =
     (let i = aw_next w;
          q = queue_acquire (ac_max_concurrent cfg) (ac_max_queue_depth cfg) i aborted delay now (aw_queue w);
          w1 = w\<lparr>aw_queue := q, aw_next := Suc i\<rparr>
      in if i \<in> set (aq_tickets q) \<or> i \<in> set (waiting_ids q)
         then put_request r (rq\<lparr>rq_state := Rq_Queued i first\<rparr>) w1
         else put_request r (rq\<lparr>rq_state := Rq_Failed (admission_error_of (snd (last (aq_log q))))\<rparr>) w1)"

definition drop_ticket :: "admission_config \<Rightarrow> nat \<Rightarrow> nat \<Rightarrow> request \<Rightarrow> admission_error \<Rightarrow> adm_world \<Rightarrow> adm_world" where
  "drop_ticket cfg r i rq e w =
     put_request r (rq\<lparr>rq_state := Rq_Failed e\<rparr>) (w\<lparr>aw_queue := ticket_release (ac_max_concurrent cfg) i (aw_queue w)\<rparr>)"

text \<open>A new call of \<open>acquire\<close>, from its start to the first \<open>await\<close>.\<close>

definition start_request :: "admission_config \<Rightarrow> string \<Rightarrow> millis \<Rightarrow> bool \<Rightarrow> adm_world \<Rightarrow> adm_world" where
  "start_request cfg feature now aborted w =
     (let rq = \<lparr>rq_feature = feature, rq_started = now, rq_probes = 0, rq_errors = 0, rq_state = Rq_Failed Adm_Aborted\<rparr>;
          r = length (aw_reqs w);
          w1 = w\<lparr>aw_reqs := aw_reqs w @ [rq]\<rparr>;
          remaining = remaining_ms cfg rq now
      in if aborted then w1
         else if remaining \<le> 0
         then put_request r (rq\<lparr>rq_state := Rq_Failed (Adm_Overload (if ac_global_enabled cfg then Global_Saturated else Wait_Timeout))\<rparr>) w1
         else enter_queue cfg r rq (Some remaining) False 0 now w1)"

text \<open>The ticket has arrived. After a probe the loop starts again and looks at the signal and the budget first.\<close>

definition with_ticket :: "admission_config \<Rightarrow> nat \<Rightarrow> nat \<Rightarrow> request \<Rightarrow> millis \<Rightarrow> adm_world \<Rightarrow> adm_world" where
  "with_ticket cfg r i rq remaining w =
     put_request r (rq\<lparr>rq_state := if ac_global_enabled cfg then Rq_Probing i remaining else Rq_Leased i None\<rparr>) w"

definition resume_queued :: "admission_config \<Rightarrow> nat \<Rightarrow> nat \<Rightarrow> request \<Rightarrow> millis option \<Rightarrow> millis \<Rightarrow> bool \<Rightarrow> adm_world \<Rightarrow> adm_world" where
  "resume_queued cfg r i rq first now aborted w =
     (case first of
        Some remaining \<Rightarrow> with_ticket cfg r i rq remaining w
      | None \<Rightarrow>
          (let remaining = remaining_ms cfg rq now in
           if aborted then drop_ticket cfg r i rq Adm_Aborted w
           else if remaining \<le> 0
           then drop_ticket cfg r i rq (Adm_Overload (if ac_global_enabled cfg then Global_Saturated else Wait_Timeout)) w
           else with_ticket cfg r i rq remaining w))"

text \<open>
  One probe of the aggregate budget: \<open>acquireRedisSlot\<close> with a single attempt, or no Redis client at
  all (\<open>None\<close>).
\<close>

definition run_probe :: "admission_config \<Rightarrow> nat \<Rightarrow> nat \<Rightarrow> request \<Rightarrow> millis \<Rightarrow> string \<Rightarrow> probe option \<Rightarrow> adm_world \<Rightarrow> adm_world" where
  "run_probe cfg r i rq remaining uuid p w =
     (case p of
        None \<Rightarrow> put_request r (rq\<lparr>rq_state := Rq_Probed i uuid (Slot_Overload Redis_Unavailable)\<rparr>) w
      | Some pr \<Rightarrow>
          (case acquire_redis_slot (ac_global_max cfg) (lease_ms cfg) (Some remaining) max_consecutive_redis_errors uuid
                  (max (sl_now (aw_redis w)) (pr_clock pr)) False 0 [pr] (aw_redis w) of
             (res, s) \<Rightarrow> put_request r (rq\<lparr>rq_state := Rq_Probed i uuid res\<rparr>) (w\<lparr>aw_redis := s, aw_uuids := uuid # aw_uuids w\<rparr>)))"

text \<open>The \<open>catch\<close> of the probe, with the ticket already released.\<close>

definition probe_failed ::
    "admission_config \<Rightarrow> nat \<Rightarrow> request \<Rightarrow> slot_result \<Rightarrow> millis \<Rightarrow> bool \<Rightarrow> bool \<Rightarrow> rat \<Rightarrow> adm_world \<Rightarrow> adm_world" where
  "probe_failed cfg r rq res now aborted deadline rng w =
     (let err = (if deadline \<and> \<not> aborted then Slot_Overload Global_Saturated else res) in
      if aborted then put_request r (rq\<lparr>rq_state := Rq_Failed Adm_Aborted\<rparr>) w
      else case err of
        Slot_Overload reason \<Rightarrow>
          if reason \<noteq> Redis_Unavailable \<and> reason \<noteq> Global_Saturated
          then put_request r (rq\<lparr>rq_state := Rq_Failed (Adm_Overload reason)\<rparr>) w
          else
            (let errors = (if reason = Redis_Unavailable then Suc (rq_errors rq) else 0);
                 probes = Suc (rq_probes rq);
                 rq1 = rq\<lparr>rq_errors := errors, rq_probes := probes\<rparr>;
                 after = remaining_ms cfg rq now
             in if errors \<ge> max_consecutive_redis_errors \<or> probes \<ge> max_probe_attempts cfg \<or> after \<le> 0
                then put_request r (rq1\<lparr>rq_state := Rq_Failed (Adm_Overload reason)\<rparr>) w
                else enter_queue cfg r rq1 None aborted
                       (min (jittered_delay_ms (nominal_probe_delay cfg probes) rng) (of_int after)) now w)
      | _ \<Rightarrow> put_request r (rq\<lparr>rq_state := Rq_Failed Adm_Aborted\<rparr>) w)"

definition resume_probed ::
    "admission_config \<Rightarrow> nat \<Rightarrow> nat \<Rightarrow> request \<Rightarrow> string \<Rightarrow> slot_result \<Rightarrow> millis \<Rightarrow> bool \<Rightarrow> bool \<Rightarrow> rat \<Rightarrow> adm_world \<Rightarrow> adm_world" where
  "resume_probed cfg r i rq uuid res now aborted deadline rng w =
     (if res = Slot_Acquired then put_request r (rq\<lparr>rq_state := Rq_Leased i (Some uuid)\<rparr>) w
      else probe_failed cfg r rq res now aborted deadline rng
             (w\<lparr>aw_queue := ticket_release (ac_max_concurrent cfg) i (aw_queue w)\<rparr>))"

text \<open>\<open>release\<close> of the lease, up to the answer of the Redis; the second call of it does nothing.\<close>

definition release_lease :: "nat \<Rightarrow> nat \<Rightarrow> request \<Rightarrow> string option \<Rightarrow> db_reply \<Rightarrow> adm_world \<Rightarrow> adm_world" where
  "release_lease r i rq token reply w =
     put_request r (rq\<lparr>rq_state := Rq_Releasing i\<rparr>)
       (case token of None \<Rightarrow> w | Some u \<Rightarrow> w\<lparr>aw_redis := release_redis_slot u reply (aw_redis w)\<rparr>)"

definition lease_released :: "admission_config \<Rightarrow> nat \<Rightarrow> nat \<Rightarrow> request \<Rightarrow> adm_world \<Rightarrow> adm_world" where
  "lease_released cfg r i rq w =
     put_request r (rq\<lparr>rq_state := Rq_Released\<rparr>) (w\<lparr>aw_queue := ticket_release (ac_max_concurrent cfg) i (aw_queue w)\<rparr>)"

section \<open>Events\<close>

datatype adm_event =
    Ev_Acquire string millis bool
  | Ev_Ready nat
  | Ev_Timeout nat
  | Ev_Abort nat
  | Ev_Resume nat millis bool bool rat
  | Ev_Probe nat string "probe option"
  | Ev_Release nat db_reply
  | Ev_Redis slot_step

definition with_request :: "nat \<Rightarrow> (request \<Rightarrow> adm_world \<Rightarrow> adm_world) \<Rightarrow> adm_world \<Rightarrow> adm_world" where
  "with_request r f w = (if r < length (aw_reqs w) then f (aw_reqs w ! r) w else w)"

definition queue_event :: "admission_config \<Rightarrow> nat \<Rightarrow> bool \<Rightarrow> admission_error \<Rightarrow> request \<Rightarrow> adm_world \<Rightarrow> adm_world" where
  "queue_event cfg r timeout e rq w =
     (case rq_state rq of
        Rq_Queued i first \<Rightarrow>
          if i \<in> set (waiting_ids (aw_queue w))
          then put_request r (rq\<lparr>rq_state := Rq_Failed e\<rparr>)
                 (w\<lparr>aw_queue := (if timeout then timeout_fires else abort_fires) (ac_max_concurrent cfg) i (aw_queue w)\<rparr>)
          else w
      | _ \<Rightarrow> w)"

definition resume :: "admission_config \<Rightarrow> nat \<Rightarrow> millis \<Rightarrow> bool \<Rightarrow> bool \<Rightarrow> rat \<Rightarrow> request \<Rightarrow> adm_world \<Rightarrow> adm_world" where
  "resume cfg r now aborted deadline rng rq w =
     (case rq_state rq of
        Rq_Queued i first \<Rightarrow> if i \<in> set (aq_tickets (aw_queue w)) then resume_queued cfg r i rq first now aborted w else w
      | Rq_Probed i uuid res \<Rightarrow> resume_probed cfg r i rq uuid res now aborted deadline rng w
      | Rq_Releasing i \<Rightarrow> lease_released cfg r i rq w
      | _ \<Rightarrow> w)"

fun adm_exec :: "admission_config \<Rightarrow> adm_event \<Rightarrow> adm_world \<Rightarrow> adm_world" where
  "adm_exec cfg (Ev_Acquire feature now aborted) w = start_request cfg feature now aborted w"
| "adm_exec cfg (Ev_Ready i) w = w\<lparr>aw_queue := ready_fires (ac_max_concurrent cfg) i (aw_queue w)\<rparr>"
| "adm_exec cfg (Ev_Timeout r) w = with_request r (queue_event cfg r True (Adm_Overload Wait_Timeout)) w"
| "adm_exec cfg (Ev_Abort r) w = with_request r (queue_event cfg r False Adm_Aborted) w"
| "adm_exec cfg (Ev_Resume r now aborted deadline rng) w = with_request r (resume cfg r now aborted deadline rng) w"
| "adm_exec cfg (Ev_Probe r uuid p) w =
     with_request r (\<lambda>rq w. case rq_state rq of Rq_Probing i remaining \<Rightarrow> run_probe cfg r i rq remaining uuid p w | _ \<Rightarrow> w) w"
| "adm_exec cfg (Ev_Release r reply) w =
     with_request r (\<lambda>rq w. case rq_state rq of Rq_Leased i token \<Rightarrow> release_lease r i rq token reply w | _ \<Rightarrow> w) w"
| "adm_exec cfg (Ev_Redis step) w = w\<lparr>aw_redis := slot_exec (ac_global_max cfg) step (aw_redis w)\<rparr>"

definition fresh_admission :: "slot_redis \<Rightarrow> adm_world" where
  "fresh_admission s = \<lparr>aw_queue = fresh_queue, aw_redis = s, aw_next = 0, aw_reqs = [], aw_uuids = []\<rparr>"

definition adm_run :: "admission_config \<Rightarrow> slot_redis \<Rightarrow> adm_event list \<Rightarrow> adm_world" where
  "adm_run cfg s evs = fold (adm_exec cfg) evs (fresh_admission s)"

lemma adm_run_snoc [simp]: "adm_run cfg s (evs @ [e]) = adm_exec cfg e (adm_run cfg s evs)"
  and adm_run_Nil [simp]: "adm_run cfg s [] = fresh_admission s"
  by (simp_all add: adm_run_def)

section \<open>Who holds what\<close>

definition place_of :: "request \<Rightarrow> nat option" where
  "place_of rq = (case rq_state rq of Rq_Queued i f \<Rightarrow> Some i | Rq_Probing i m \<Rightarrow> Some i | Rq_Probed i u x \<Rightarrow> Some i
     | Rq_Leased i t \<Rightarrow> Some i | Rq_Releasing i \<Rightarrow> Some i | _ \<Rightarrow> None)"

definition permit_of :: "request \<Rightarrow> nat option" where
  "permit_of rq = (case rq_state rq of Rq_Queued i f \<Rightarrow> None | _ \<Rightarrow> place_of rq)"

definition finished :: "request \<Rightarrow> bool" where
  "finished rq = (case rq_state rq of Rq_Released \<Rightarrow> True | Rq_Failed e \<Rightarrow> True | _ \<Rightarrow> False)"

definition ids_of :: "(request \<Rightarrow> nat option) \<Rightarrow> request list \<Rightarrow> nat set" where
  "ids_of f rqs = {i. \<exists>a<length rqs. f (rqs ! a) = Some i}"

definition one_owner :: "request list \<Rightarrow> bool" where
  "one_owner rqs \<longleftrightarrow> (\<forall>a<length rqs. \<forall>b<length rqs. \<forall>i. place_of (rqs ! a) = Some i \<and> place_of (rqs ! b) = Some i \<longrightarrow> a = b)"

lemma permit_owned: "permit_of rq = Some i \<Longrightarrow> place_of rq = Some i"
  by (auto simp: permit_of_def split: request_state.splits)

lemma ids_of_put:
  assumes "one_owner rqs" "r < length rqs" "\<And>rq i. f rq = Some i \<Longrightarrow> place_of rq = Some i"
  shows "ids_of f (rqs[r := rq]) = ids_of f rqs - set_option (place_of (rqs ! r)) \<union> set_option (f rq)"
proof (intro equalityI subsetI)
  fix i
  assume "i \<in> ids_of f (rqs[r := rq])"
  then obtain a where a: "a < length rqs" "f (rqs[r := rq] ! a) = Some i" by (auto simp: ids_of_def)
  show "i \<in> ids_of f rqs - set_option (place_of (rqs ! r)) \<union> set_option (f rq)"
  proof (cases "a = r")
    case False
    then have "f (rqs ! a) = Some i" using a by simp
    moreover have "place_of (rqs ! r) \<noteq> Some i" using assms calculation False a(1) unfolding one_owner_def by metis
    ultimately show ?thesis using a(1) by (auto simp: ids_of_def)
  qed (use a assms(2) in auto)
next
  fix i
  assume i: "i \<in> ids_of f rqs - set_option (place_of (rqs ! r)) \<union> set_option (f rq)"
  show "i \<in> ids_of f (rqs[r := rq])"
  proof (cases "f rq = Some i")
    case True
    then show ?thesis using assms(2) by (auto simp: ids_of_def intro!: exI [of _ r])
  next
    case False
    then obtain a where a: "a < length rqs" "f (rqs ! a) = Some i" "place_of (rqs ! r) \<noteq> Some i" using i by (auto simp: ids_of_def)
    then have "a \<noteq> r" using assms(3) by metis
    then show ?thesis using a by (auto simp: ids_of_def intro!: exI [of _ a])
  qed
qed

lemma permits_put:
  "one_owner rqs \<Longrightarrow> r < length rqs \<Longrightarrow>
   ids_of permit_of (rqs[r := rq]) = ids_of permit_of rqs - set_option (place_of (rqs ! r)) \<union> set_option (permit_of rq)"
  by (rule ids_of_put) (auto intro: permit_owned)

lemma places_put:
  "one_owner rqs \<Longrightarrow> r < length rqs \<Longrightarrow>
   ids_of place_of (rqs[r := rq]) = ids_of place_of rqs - set_option (place_of (rqs ! r)) \<union> set_option (place_of rq)"
  by (rule ids_of_put)

lemma one_owner_put:
  assumes "one_owner rqs" "r < length rqs" "\<And>i. place_of rq = Some i \<Longrightarrow> place_of (rqs ! r) = Some i \<or> i \<notin> ids_of place_of rqs"
  shows "one_owner (rqs[r := rq])"
  unfolding one_owner_def
proof (intro allI impI, elim conjE)
  fix a b i
  assume ab: "a < length (rqs[r := rq])" "b < length (rqs[r := rq])" "place_of (rqs[r := rq] ! a) = Some i" "place_of (rqs[r := rq] ! b) = Some i"
  have other: False if "place_of rq = Some i" "k \<noteq> r" "k < length rqs" "place_of (rqs ! k) = Some i" for k
    using assms that unfolding one_owner_def ids_of_def by blast
  show "a = b"
    using ab assms(1,2) other unfolding one_owner_def by (cases "a = r"; cases "b = r") auto
qed

section \<open>Ownership invariant\<close>

definition adm_ok :: "admission_config \<Rightarrow> adm_world \<Rightarrow> bool" where
  "adm_ok cfg w \<longleftrightarrow>
     admission.books (ac_max_concurrent cfg) (ac_max_queue_depth cfg) (ids_of place_of (aw_reqs w)) (ids_of permit_of (aw_reqs w)) (aw_queue w) \<and>
     one_owner (aw_reqs w) \<and> gate_known (aw_queue w) = {..<aw_next w}"

lemma adm_ok_queue:
  assumes "adm_ok cfg w"
  shows "gate_ok (ac_max_concurrent cfg) (ac_max_queue_depth cfg) (aw_queue w)"
    and "ids_of place_of (aw_reqs w) = gate_inside (aw_queue w)" and "ids_of permit_of (aw_reqs w) \<subseteq> set (aq_tickets (aw_queue w))"
  using assms by (auto simp: adm_ok_def admission.books_def admission.inside_def gate_inside_def)

lemma adm_ok_cong: "aw_queue w' = aw_queue w \<Longrightarrow> aw_reqs w' = aw_reqs w \<Longrightarrow> aw_next w' = aw_next w \<Longrightarrow> adm_ok cfg w' = adm_ok cfg w"
  by (simp add: adm_ok_def)

lemma put_request_simps [simp]:
  "aw_queue (put_request r rq w) = aw_queue w" "aw_reqs (put_request r rq w) = (aw_reqs w)[r := rq]"
  "aw_next (put_request r rq w) = aw_next w" "aw_redis (put_request r rq w) = aw_redis w" "aw_uuids (put_request r rq w) = aw_uuids w"
  by (simp_all add: put_request_def)

text \<open>A request keeps its place in the gate.\<close>

lemma adm_ok_keep:
  assumes ok: "adm_ok cfg w" and r: "r < length (aw_reqs w)" and own: "place_of (aw_reqs w ! r) = Some i" "place_of rq = Some i"
    and held: "permit_of rq = Some i \<Longrightarrow> i \<in> set (aq_tickets (aw_queue w))"
  shows "adm_ok cfg (put_request r rq w)"
proof -
  have one: "one_owner (aw_reqs w)" using ok by (simp add: adm_ok_def)
  have i: "i \<in> ids_of place_of (aw_reqs w)" using r own by (auto simp: ids_of_def)
  have mine: "ids_of place_of ((aw_reqs w)[r := rq]) = ids_of place_of (aw_reqs w)"
  proof -
    have "ids_of place_of ((aw_reqs w)[r := rq]) = ids_of place_of (aw_reqs w) - {i} \<union> {i}"
      using places_put [OF one r, of rq] own by simp
    then show ?thesis using i by blast
  qed
  have run: "ids_of permit_of ((aw_reqs w)[r := rq]) \<subseteq> set (aq_tickets (aw_queue w))"
  proof -
    have "permit_of rq = None \<or> permit_of rq = Some i" using permit_owned [of rq] own(2) by (cases "permit_of rq") auto
    then have "set_option (permit_of rq) \<subseteq> set (aq_tickets (aw_queue w))" using held by auto
    then show ?thesis unfolding permits_put [OF one r] using adm_ok_queue(3) [OF ok] by blast
  qed
  have "one_owner ((aw_reqs w)[r := rq])" by (rule one_owner_put [OF one r]) (use own in auto)
  then show ?thesis using ok mine run by (simp add: adm_ok_def admission.books_def)
qed

text \<open>A request leaves the gate with the queue operation that lets it go.\<close>

lemma adm_ok_out:
  assumes ok: "adm_ok cfg w" and r: "r < length (aw_reqs w)" and own: "place_of (aw_reqs w ! r) = Some i" "place_of rq = None"
    and q: "gate_ok (ac_max_concurrent cfg) (ac_max_queue_depth cfg) q" "set (aq_tickets (aw_queue w)) - {i} \<subseteq> set (aq_tickets q)"
      "gate_known q = gate_known (aw_queue w)" "gate_inside q = gate_inside (aw_queue w) - {i}"
  shows "adm_ok cfg (put_request r rq (w\<lparr>aw_queue := q\<rparr>))"
proof -
  have one: "one_owner (aw_reqs w)" using ok by (simp add: adm_ok_def)
  have none: "permit_of rq = None" using own(2) permit_owned by (cases "permit_of rq") auto
  have mine: "ids_of place_of ((aw_reqs w)[r := rq]) = gate_inside q"
    using places_put [OF one r, of rq] own q(4) adm_ok_queue(2) [OF ok] by simp
  have run: "ids_of permit_of ((aw_reqs w)[r := rq]) \<subseteq> set (aq_tickets q)"
    unfolding permits_put [OF one r] using none own adm_ok_queue(3) [OF ok] q(2) by auto
  have "one_owner ((aw_reqs w)[r := rq])" by (rule one_owner_put [OF one r]) (use own in auto)
  then show ?thesis using ok mine run q
    by (simp add: adm_ok_def admission.books_def admission.inside_def gate_inside_def)
qed

text \<open>A request without a place enters.\<close>

lemma adm_ok_in:
  assumes ok: "adm_ok cfg w" and r: "r < length (aw_reqs w)" and own: "place_of (aw_reqs w ! r) = None"
  shows "adm_ok cfg (enter_queue cfg r rq first aborted delay now w)"
proof -
  let ?c = "ac_max_concurrent cfg" and ?d = "ac_max_queue_depth cfg" and ?i = "aw_next w"
  let ?q = "queue_acquire ?c ?d ?i aborted delay now (aw_queue w)"
  have one: "one_owner (aw_reqs w)" and known: "gate_known (aw_queue w) = {..<?i}" using ok by (simp_all add: adm_ok_def)
  have "?i \<notin> gate_known (aw_queue w)" using known by simp
  note e = gate_enter_law [OF adm_ok_queue(1) [OF ok] this, of "(aborted, delay, now)", unfolded gate_enter_def prod.case]
  have out: "?i \<notin> ids_of place_of (aw_reqs w)"
    using gate_ok_sets(1) [OF adm_ok_queue(1) [OF ok]] adm_ok_queue(2) [OF ok] known by auto
  have put: "adm_ok cfg (put_request r rq' (w\<lparr>aw_queue := ?q, aw_next := Suc ?i\<rparr>))"
    if "place_of rq' = (if ?i \<in> gate_inside ?q then Some ?i else None)" "permit_of rq' = None" for rq'
  proof -
    have "ids_of place_of ((aw_reqs w)[r := rq']) = gate_inside ?q"
      unfolding places_put [OF one r] using own that(1) e(4) adm_ok_queue(2) [OF ok] by auto
    moreover have "ids_of permit_of ((aw_reqs w)[r := rq']) \<subseteq> set (aq_tickets ?q)"
      unfolding permits_put [OF one r] using own that(2) e(2) adm_ok_queue(3) [OF ok] by auto
    moreover have "one_owner ((aw_reqs w)[r := rq'])" by (rule one_owner_put [OF one r]) (use that(1) out in \<open>auto split: if_splits\<close>)
    moreover have "gate_known ?q = {..<Suc ?i}" using e(3) known by auto
    ultimately show ?thesis using e(1) by (simp add: adm_ok_def admission.books_def admission.inside_def gate_inside_def)
  qed
  show ?thesis
    using put unfolding enter_queue_def Let_def by (auto simp: place_of_def permit_of_def gate_inside_def)
qed

lemma adm_ok_set: "adm_ok cfg w \<Longrightarrow> r < length (aw_reqs w) \<Longrightarrow> place_of (aw_reqs w ! r) = None \<Longrightarrow> place_of rq = None \<Longrightarrow> adm_ok cfg (put_request r rq w)"
  using places_put [of "aw_reqs w" r rq] permits_put [of "aw_reqs w" r rq] permit_owned [of rq] one_owner_put [of "aw_reqs w" r rq]
  by (cases "permit_of rq") (auto simp: adm_ok_def)

lemma adm_ok_release:
  assumes "adm_ok cfg w" "r < length (aw_reqs w)" "place_of (aw_reqs w ! r) = Some i" "i \<in> set (aq_tickets (aw_queue w))" "place_of rq = None"
  shows "adm_ok cfg (put_request r rq (w\<lparr>aw_queue := ticket_release (ac_max_concurrent cfg) i (aw_queue w)\<rparr>))"
  using adm_ok_out [OF assms(1-3,5)] gate_leave_law [OF adm_ok_queue(1) [OF assms(1)] assms(4)] by blast

lemma put_request_twice [simp]: "put_request r a (put_request r b w) = put_request r a w"
  by (simp add: put_request_def)

lemma enter_queue_put: "enter_queue cfg r rq first aborted delay now (put_request r b w) = enter_queue cfg r rq first aborted delay now w"
  by (simp add: enter_queue_def Let_def put_request_def)

lemma place_of_state [simp]:
  "place_of (rq\<lparr>rq_state := Rq_Queued i f\<rparr>) = Some i" "place_of (rq\<lparr>rq_state := Rq_Probing i m\<rparr>) = Some i"
  "place_of (rq\<lparr>rq_state := Rq_Probed i u x\<rparr>) = Some i" "place_of (rq\<lparr>rq_state := Rq_Leased i t\<rparr>) = Some i"
  "place_of (rq\<lparr>rq_state := Rq_Releasing i\<rparr>) = Some i" "place_of (rq\<lparr>rq_state := Rq_Released\<rparr>) = None"
  "place_of (rq\<lparr>rq_state := Rq_Failed e\<rparr>) = None"
  by (simp_all add: place_of_def)

text \<open>\<open>probe_failed\<close> runs on a request that has given its ticket back: it fails or enters the queue again.\<close>

lemma adm_ok_probe_failed:
  assumes "adm_ok cfg w" "r < length (aw_reqs w)" "place_of (aw_reqs w ! r) = None"
  shows "adm_ok cfg (probe_failed cfg r rq res now aborted deadline rng w)"
proof -
  have set: "adm_ok cfg (put_request r (rq'\<lparr>rq_state := Rq_Failed e\<rparr>) w)" for rq' e by (rule adm_ok_set) (use assms in simp_all)
  show ?thesis
    unfolding probe_failed_def Let_def using set adm_ok_in [OF assms] by (auto split: slot_result.split)
qed

lemma probe_failed_put: "probe_failed cfg r rq res now aborted deadline rng (put_request r b w) = probe_failed cfg r rq res now aborted deadline rng w"
  by (simp add: probe_failed_def Let_def enter_queue_put split: slot_result.split)

lemma adm_ok_permit:
  assumes "adm_ok cfg w" "r < length (aw_reqs w)" "permit_of (aw_reqs w ! r) = Some i"
  shows "i \<in> set (aq_tickets (aw_queue w))"
  using adm_ok_queue(3) [OF assms(1)] assms(2,3) by (auto simp: ids_of_def)

lemma adm_ok_resume:
  assumes ok: "adm_ok cfg w" and r: "r < length (aw_reqs w)"
  shows "adm_ok cfg (resume cfg r now aborted deadline rng (aw_reqs w ! r) w)"
proof -
  let ?rq = "aw_reqs w ! r"
  have ticket: "i \<in> set (aq_tickets (aw_queue w))" if "rq_state ?rq = Rq_Probed i u res \<or> rq_state ?rq = Rq_Releasing i" for i u res
    using adm_ok_permit [OF ok r, of i] that by (auto simp: permit_of_def place_of_def)
  show ?thesis
  proof (cases "rq_state ?rq")
    case (Rq_Queued i first)
    then have own: "place_of ?rq = Some i" by (simp add: place_of_def)
    have "adm_ok cfg (with_ticket cfg r i ?rq m w)" "adm_ok cfg (drop_ticket cfg r i ?rq e w)"
      if "i \<in> set (aq_tickets (aw_queue w))" for m e
      unfolding with_ticket_def drop_ticket_def
      by (rule adm_ok_keep [OF ok r own] adm_ok_release [OF ok r own that], use that in simp_all)+
    then show ?thesis using ok by (simp add: resume_def Rq_Queued resume_queued_def Let_def split: option.split)
  next
    case (Rq_Probed i u res)
    then have own: "place_of ?rq = Some i" by (simp add: place_of_def)
    have t: "i \<in> set (aq_tickets (aw_queue w))" using ticket Rq_Probed by blast
    let ?w = "put_request r (?rq\<lparr>rq_state := Rq_Failed Adm_Aborted\<rparr>) (w\<lparr>aw_queue := ticket_release (ac_max_concurrent cfg) i (aw_queue w)\<rparr>)"
    have out: "adm_ok cfg ?w" by (rule adm_ok_release [OF ok r own t]) simp
    have "adm_ok cfg (probe_failed cfg r ?rq res now aborted deadline rng ?w)"
      by (rule adm_ok_probe_failed [OF out]) (use r in simp_all)
    moreover have "adm_ok cfg (put_request r (?rq\<lparr>rq_state := Rq_Leased i (Some u)\<rparr>) w)"
      by (rule adm_ok_keep [OF ok r own]) (use t in simp_all)
    ultimately show ?thesis by (simp add: resume_def Rq_Probed resume_probed_def probe_failed_put)
  next
    case (Rq_Releasing i)
    then have own: "place_of ?rq = Some i" by (simp add: place_of_def)
    have t: "i \<in> set (aq_tickets (aw_queue w))" using ticket Rq_Releasing by blast
    show ?thesis unfolding resume_def Rq_Releasing request_state.case lease_released_def
      by (rule adm_ok_release [OF ok r own t]) simp
  qed (simp_all add: resume_def ok)
qed

lemma adm_ok_queue_event:
  assumes ok: "adm_ok cfg w" and r: "r < length (aw_reqs w)"
  shows "adm_ok cfg (queue_event cfg r timeout e (aw_reqs w ! r) w)"
proof (cases "rq_state (aw_reqs w ! r)")
  case (Rq_Queued i first)
  then have own: "place_of (aw_reqs w ! r) = Some i" by (simp add: place_of_def)
  show ?thesis
  proof (cases "i \<in> set (waiting_ids (aw_queue w))")
    case True
    note e = gate_expire_law [OF adm_ok_queue(1) [OF ok] True, of timeout]
    have "adm_ok cfg (put_request r ((aw_reqs w ! r)\<lparr>rq_state := Rq_Failed e\<rparr>) (w\<lparr>aw_queue := gate_expire (ac_max_concurrent cfg) timeout i (aw_queue w)\<rparr>))" for e
      by (rule adm_ok_out [OF ok r own]) (use e in auto)
    then show ?thesis using True Rq_Queued by (cases timeout) (simp_all add: queue_event_def gate_expire_def)
  qed (simp add: queue_event_def Rq_Queued ok)
qed (simp_all add: queue_event_def ok)

lemma adm_ok_start: "adm_ok cfg w \<Longrightarrow> adm_ok cfg (start_request cfg feature now aborted w)"
proof -
  assume ok: "adm_ok cfg w"
  let ?rq = "\<lparr>rq_feature = feature, rq_started = now, rq_probes = 0, rq_errors = 0, rq_state = Rq_Failed Adm_Aborted\<rparr>"
  let ?w = "w\<lparr>aw_reqs := aw_reqs w @ [?rq]\<rparr>"
  have none: "place_of ?rq = None" "permit_of ?rq = None" by (simp_all add: place_of_def permit_of_def)
  have "ids_of f (aw_reqs w @ [?rq]) = ids_of f (aw_reqs w)" if "f ?rq = None" for f
    using that by (force simp: ids_of_def nth_append less_Suc_eq)
  moreover have "one_owner (aw_reqs w @ [?rq])"
    using ok none by (auto simp: adm_ok_def one_owner_def nth_append less_Suc_eq)
  ultimately have w: "adm_ok cfg ?w" using ok none by (simp add: adm_ok_def)
  have r: "length (aw_reqs w) < length (aw_reqs ?w)" "place_of (aw_reqs ?w ! length (aw_reqs w)) = None" using none by (simp_all add: nth_append)
  have "adm_ok cfg (put_request (length (aw_reqs w)) (?rq\<lparr>rq_state := Rq_Failed e\<rparr>) ?w)" for e
    by (rule adm_ok_set [OF w r]) (simp add: place_of_def)
  then show ?thesis using w adm_ok_in [OF w r] unfolding start_request_def Let_def by simp
qed

lemma adm_ok_probe:
  assumes ok: "adm_ok cfg w" and r: "r < length (aw_reqs w)" and st: "rq_state (aw_reqs w ! r) = Rq_Probing i m"
  shows "adm_ok cfg (run_probe cfg r i (aw_reqs w ! r) m uuid p w)"
proof -
  have own: "place_of (aw_reqs w ! r) = Some i" "permit_of (aw_reqs w ! r) = Some i" using st by (simp_all add: place_of_def permit_of_def)
  have t: "i \<in> set (aq_tickets (aw_queue w))" by (rule adm_ok_permit [OF ok r own(2)])
  have keep: "adm_ok cfg (put_request r ((aw_reqs w ! r)\<lparr>rq_state := Rq_Probed i uuid x\<rparr>) w)" for x
    by (rule adm_ok_keep [OF ok r own(1)]) (use t in simp_all)
  have "adm_ok cfg (put_request r ((aw_reqs w ! r)\<lparr>rq_state := Rq_Probed i uuid x\<rparr>) (w\<lparr>aw_redis := s, aw_uuids := us\<rparr>))" for x s us
    using keep [of x] by (subst adm_ok_cong [of _ "put_request r ((aw_reqs w ! r)\<lparr>rq_state := Rq_Probed i uuid x\<rparr>) w"]) simp_all
  then show ?thesis using keep by (simp add: run_probe_def split: option.split prod.split)
qed

lemma adm_ok_release_lease:
  assumes ok: "adm_ok cfg w" and r: "r < length (aw_reqs w)" and st: "rq_state (aw_reqs w ! r) = Rq_Leased i t"
  shows "adm_ok cfg (release_lease r i (aw_reqs w ! r) t reply w)"
proof -
  have own: "place_of (aw_reqs w ! r) = Some i" "permit_of (aw_reqs w ! r) = Some i" using st by (simp_all add: place_of_def permit_of_def)
  have "adm_ok cfg (put_request r ((aw_reqs w ! r)\<lparr>rq_state := Rq_Releasing i\<rparr>) w)"
    by (rule adm_ok_keep [OF ok r own(1)]) (use adm_ok_permit [OF ok r own(2)] in simp_all)
  then show ?thesis unfolding release_lease_def
    by (subst adm_ok_cong [of _ "put_request r ((aw_reqs w ! r)\<lparr>rq_state := Rq_Releasing i\<rparr>) w"]) (simp_all split: option.split)
qed

lemma adm_ok_ready: "adm_ok cfg w \<Longrightarrow> adm_ok cfg (w\<lparr>aw_queue := ready_fires (ac_max_concurrent cfg) i (aw_queue w)\<rparr>)"
  using admission.books_wake [of "ac_max_concurrent cfg" "ac_max_queue_depth cfg"] gate_wake_law(2) [OF adm_ok_queue(1), of cfg w i]
  by (simp add: adm_ok_def ids_moved_def)

lemma adm_ok_exec:
  assumes "adm_ok cfg w"
  shows "adm_ok cfg (adm_exec cfg e w)"
proof (cases e)
  case (Ev_Probe r u p)
  then show ?thesis using assms adm_ok_probe [OF assms] by (simp add: with_request_def split: request_state.split)
next
  case (Ev_Release r reply)
  then show ?thesis using assms adm_ok_release_lease [OF assms] by (simp add: with_request_def split: request_state.split)
next
  case (Ev_Redis step)
  then show ?thesis using assms by (simp add: adm_ok_def)
qed (simp_all add: assms with_request_def adm_ok_start adm_ok_queue_event adm_ok_resume adm_ok_ready)

lemma adm_ok_run:
  assumes "0 \<le> ac_max_concurrent cfg" "0 \<le> ac_max_queue_depth cfg"
  shows "adm_ok cfg (adm_run cfg s evs)"
proof (induction evs rule: rev_induct)
  case Nil
  have "set (aq_tickets fresh_queue) = {}" "set (waiting_ids fresh_queue) = {}" "gate_known fresh_queue = {}"
    by (simp_all add: fresh_queue_def waiting_ids_def gate_known_def)
  then show ?case using gate_fresh [OF assms]
    by (simp add: adm_ok_def fresh_admission_def admission.books_def admission.inside_def ids_of_def one_owner_def)
next
  case (snoc e evs)
  then show ?case by (simp add: adm_ok_exec)
qed

text \<open>What one request may look like: a lease carries a slot exactly when the aggregate budget is on, and probes are bounded.\<close>

definition request_ok :: "admission_config \<Rightarrow> request \<Rightarrow> bool" where
  "request_ok cfg rq \<longleftrightarrow>
     (case rq_state rq of Rq_Leased i t \<Rightarrow> ac_global_enabled cfg = (t \<noteq> None) | Rq_Probing i m \<Rightarrow> ac_global_enabled cfg
        | Rq_Probed i u x \<Rightarrow> ac_global_enabled cfg | _ \<Rightarrow> True) \<and>
     (if finished rq then rq_probes rq \<le> max 1 (max_probe_attempts cfg) else rq_probes rq < max 1 (max_probe_attempts cfg))"

definition requests_ok :: "admission_config \<Rightarrow> adm_world \<Rightarrow> bool" where
  "requests_ok cfg w \<longleftrightarrow> list_all (request_ok cfg) (aw_reqs w)"

lemma requests_ok_put: "requests_ok cfg w \<Longrightarrow> request_ok cfg rq \<Longrightarrow> requests_ok cfg (put_request r rq w)"
  by (auto simp: requests_ok_def list_all_iff dest!: set_update_subset_insert [THEN subsetD])

lemma requests_ok_fields [simp]:
  "requests_ok cfg (w\<lparr>aw_queue := q\<rparr>) = requests_ok cfg w" "requests_ok cfg (w\<lparr>aw_next := n\<rparr>) = requests_ok cfg w"
  "requests_ok cfg (w\<lparr>aw_redis := s\<rparr>) = requests_ok cfg w" "requests_ok cfg (w\<lparr>aw_uuids := us\<rparr>) = requests_ok cfg w"
  by (simp_all add: requests_ok_def)

lemma request_ok_fail: "rq_probes rq \<le> max 1 (max_probe_attempts cfg) \<Longrightarrow> request_ok cfg (rq\<lparr>rq_state := Rq_Failed e\<rparr>)"
  by (simp add: request_ok_def finished_def)

lemma requests_ok_enter:
  assumes "requests_ok cfg w" "rq_probes rq < max 1 (max_probe_attempts cfg)"
  shows "requests_ok cfg (enter_queue cfg r rq first aborted delay now w)"
proof -
  have "request_ok cfg (rq\<lparr>rq_state := Rq_Queued i first\<rparr>)" "request_ok cfg (rq\<lparr>rq_state := Rq_Failed e\<rparr>)" for i e
    using assms(2) by (simp_all add: request_ok_def finished_def)
  then show ?thesis using assms(1) unfolding enter_queue_def Let_def
    by (auto intro!: requests_ok_put)
qed

lemma requests_ok_probe_failed:
  assumes "requests_ok cfg w" "rq_probes rq < max 1 (max_probe_attempts cfg)"
  shows "requests_ok cfg (probe_failed cfg r rq res now aborted deadline rng w)"
proof -
  have fail: "requests_ok cfg (put_request r (rq'\<lparr>rq_state := Rq_Failed e\<rparr>) w)" if "rq_probes rq' \<le> max 1 (max_probe_attempts cfg)" for rq' e
    using assms(1) that by (intro requests_ok_put request_ok_fail)
  show ?thesis unfolding probe_failed_def Let_def
    using assms fail requests_ok_enter [OF assms(1)] by (auto split: slot_result.split)
qed

lemma requests_ok_resume:
  assumes "requests_ok cfg w" "r < length (aw_reqs w)"
  shows "requests_ok cfg (resume cfg r now aborted deadline rng (aw_reqs w ! r) w)"
proof -
  let ?rq = "aw_reqs w ! r"
  have rq: "request_ok cfg ?rq" using assms by (simp add: requests_ok_def list_all_length)
  have q: "requests_ok cfg (w\<lparr>aw_queue := q\<rparr>)" for q using assms(1) by (simp add: requests_ok_def)
  have live: "rq_probes ?rq < max 1 (max_probe_attempts cfg)" if "\<not> finished ?rq" using rq that by (simp add: request_ok_def)
  show ?thesis
  proof (cases "rq_state ?rq")
    case (Rq_Queued i first)
    then have "request_ok cfg (?rq\<lparr>rq_state := if ac_global_enabled cfg then Rq_Probing i m else Rq_Leased i None\<rparr>)"
      "request_ok cfg (?rq\<lparr>rq_state := Rq_Failed e\<rparr>)" for m e
      using live by (auto simp: request_ok_def finished_def)
    then have "requests_ok cfg (with_ticket cfg r i ?rq m w)" "requests_ok cfg (drop_ticket cfg r i ?rq e w)" for m e
      unfolding with_ticket_def drop_ticket_def by (intro requests_ok_put; simp add: assms)+
    then show ?thesis using assms(1) by (simp add: resume_def Rq_Queued resume_queued_def Let_def split: option.split)
  next
    case (Rq_Probed i u res)
    then have "request_ok cfg (?rq\<lparr>rq_state := Rq_Leased i (Some u)\<rparr>)" using live rq by (auto simp: request_ok_def finished_def)
    moreover have "rq_probes ?rq < max 1 (max_probe_attempts cfg)" using live Rq_Probed by (simp add: finished_def)
    ultimately show ?thesis using assms q by (simp add: resume_def Rq_Probed resume_probed_def requests_ok_put requests_ok_probe_failed)
  next
    case (Rq_Releasing i)
    then have "request_ok cfg (?rq\<lparr>rq_state := Rq_Released\<rparr>)" using live by (auto simp: request_ok_def finished_def)
    then show ?thesis using q by (simp add: resume_def Rq_Releasing lease_released_def requests_ok_put)
  qed (simp_all add: resume_def assms)
qed

lemma requests_ok_queue_event:
  assumes "requests_ok cfg w" "r < length (aw_reqs w)"
  shows "requests_ok cfg (queue_event cfg r timeout e (aw_reqs w ! r) w)"
proof -
  have "request_ok cfg (aw_reqs w ! r)" using assms by (simp add: requests_ok_def list_all_length)
  then have "request_ok cfg ((aw_reqs w ! r)\<lparr>rq_state := Rq_Failed e\<rparr>)" by (intro request_ok_fail) (auto simp: request_ok_def split: if_splits)
  moreover have "requests_ok cfg (w\<lparr>aw_queue := q\<rparr>)" for q using assms(1) by (simp add: requests_ok_def)
  ultimately show ?thesis using assms(1) by (auto simp: queue_event_def requests_ok_put split: request_state.split)
qed

lemma requests_ok_start: "requests_ok cfg w \<Longrightarrow> requests_ok cfg (start_request cfg feature now aborted w)"
proof -
  assume ok: "requests_ok cfg w"
  let ?rq = "\<lparr>rq_feature = feature, rq_started = now, rq_probes = 0, rq_errors = 0, rq_state = Rq_Failed Adm_Aborted\<rparr>"
  have rq: "request_ok cfg (?rq\<lparr>rq_state := Rq_Failed e\<rparr>)" for e by (simp add: request_ok_def finished_def)
  have w: "requests_ok cfg (w\<lparr>aw_reqs := aw_reqs w @ [?rq]\<rparr>)" using ok rq [of Adm_Aborted] by (simp add: requests_ok_def)
  show ?thesis unfolding start_request_def Let_def
    using w requests_ok_put [OF w rq] requests_ok_enter [OF w, of ?rq] by simp
qed

lemma requests_ok_exec:
  assumes "requests_ok cfg w"
  shows "requests_ok cfg (adm_exec cfg e w)"
proof (cases e)
  case (Ev_Probe r u p)
  have "requests_ok cfg (run_probe cfg r i (aw_reqs w ! r) m u p w)"
    if "r < length (aw_reqs w)" "rq_state (aw_reqs w ! r) = Rq_Probing i m" for i m
  proof -
    have "request_ok cfg (aw_reqs w ! r)" using assms that(1) by (simp add: requests_ok_def list_all_length)
    then have "request_ok cfg ((aw_reqs w ! r)\<lparr>rq_state := Rq_Probed i u x\<rparr>)" for x
      using that(2) by (auto simp: request_ok_def finished_def)
    moreover have "requests_ok cfg (w\<lparr>aw_redis := s, aw_uuids := us\<rparr>)" for s us using assms by (simp add: requests_ok_def)
    ultimately show ?thesis using assms by (simp add: run_probe_def requests_ok_put split: option.split prod.split)
  qed
  then show ?thesis using assms by (simp add: Ev_Probe with_request_def split: request_state.split)
next
  case (Ev_Release r reply)
  have "requests_ok cfg (release_lease r i (aw_reqs w ! r) t reply w)"
    if "r < length (aw_reqs w)" "rq_state (aw_reqs w ! r) = Rq_Leased i t" for i t
  proof -
    have "request_ok cfg (aw_reqs w ! r)" using assms that(1) by (simp add: requests_ok_def list_all_length)
    then have "request_ok cfg ((aw_reqs w ! r)\<lparr>rq_state := Rq_Releasing i\<rparr>)"
      using that(2) by (auto simp: request_ok_def finished_def)
    moreover have "requests_ok cfg (w\<lparr>aw_redis := s\<rparr>)" for s using assms by (simp add: requests_ok_def)
    ultimately show ?thesis using assms by (simp add: release_lease_def requests_ok_put split: option.split)
  qed
  then show ?thesis using assms by (simp add: Ev_Release with_request_def split: request_state.split)
next
  case (Ev_Ready i)
  then show ?thesis using assms by (simp add: requests_ok_def)
next
  case (Ev_Redis step)
  then show ?thesis using assms by (simp add: requests_ok_def)
qed (simp_all add: assms with_request_def requests_ok_start requests_ok_queue_event requests_ok_resume)

lemma requests_ok_run: "requests_ok cfg (adm_run cfg s evs)"
  by (induction evs rule: rev_induct) (simp_all add: requests_ok_exec, simp add: requests_ok_def fresh_admission_def)

section \<open>Permits\<close>

lemma ids_of_Cons: "ids_of f (a # rqs) = set_option (f a) \<union> ids_of f rqs"
proof -
  have "(\<exists>k<Suc (length rqs). f ((a # rqs) ! k) = Some i) \<longleftrightarrow> f a = Some i \<or> (\<exists>k<length rqs. f (rqs ! k) = Some i)" for i
    by (auto simp: less_Suc_eq_0_disj)
  then show ?thesis by (auto simp: ids_of_def)
qed

lemma one_owner_Cons:
  assumes "one_owner (a # rqs)"
  shows "one_owner rqs" and "place_of a = Some i \<Longrightarrow> i \<notin> ids_of place_of rqs"
proof -
  have at: "j = k" if "j < Suc (length rqs)" "k < Suc (length rqs)" "place_of ((a # rqs) ! j) = Some i" "place_of ((a # rqs) ! k) = Some i" for i j k
    using assms that unfolding one_owner_def length_Cons by blast
  show "one_owner rqs" unfolding one_owner_def using at [of "Suc _" "Suc _"] by simp
  show "i \<notin> ids_of place_of rqs" if "place_of a = Some i" using at [of 0 "Suc _"] that by (auto simp: ids_of_def)
qed

lemma finite_ids_of: "finite (ids_of f rqs)"
  by (induction rqs) (simp_all add: ids_of_Cons, simp add: ids_of_def)

lemma permits_subset: "ids_of permit_of rqs \<subseteq> ids_of place_of rqs"
  using permit_owned by (auto simp: ids_of_def)

lemma count_permits: "one_owner rqs \<Longrightarrow> length (filter (\<lambda>rq. permit_of rq \<noteq> None) rqs) = card (ids_of permit_of rqs)"
proof (induction rqs)
  case (Cons a rqs)
  note a = one_owner_Cons [OF Cons.prems]
  show ?case
  proof (cases "permit_of a")
    case None
    then show ?thesis using Cons.IH [OF a(1)] by (simp add: ids_of_Cons)
  next
    case (Some i)
    then have "i \<notin> ids_of permit_of rqs" using a(2) permit_owned permits_subset by blast
    then show ?thesis using Some Cons.IH [OF a(1)] by (simp add: ids_of_Cons finite_ids_of)
  qed
qed (simp add: ids_of_def)

text \<open>C12: In every interleaving of requests, timers, aborts, probes and releases, the requests of a
  process that are probing, hold a lease or are giving it back are never more than its concurrency, each of
  them holds a ticket of its own, and once every request has failed or released its lease nothing of
  the queue's capacity is taken any more.
\<close>

theorem admission_permits_balanced:
  assumes "0 \<le> ac_max_concurrent cfg" "0 \<le> ac_max_queue_depth cfg"
  shows "case adm_run cfg s evs of w \<Rightarrow>
    int (length (filter (\<lambda>rq. permit_of rq \<noteq> None) (aw_reqs w))) \<le> ac_max_concurrent cfg \<and>
    ids_of permit_of (aw_reqs w) \<subseteq> set (aq_tickets (aw_queue w)) \<and> one_owner (aw_reqs w) \<and>
    (list_all finished (aw_reqs w) \<longrightarrow> aq_active (aw_queue w) = 0 \<and> aq_tickets (aw_queue w) = [] \<and> aq_waiters (aw_queue w) = [])"
proof -
  let ?w = "adm_run cfg s evs"
  have ok: "adm_ok cfg ?w" by (rule adm_ok_run [OF assms])
  then have one: "one_owner (aw_reqs ?w)" and b: "admission.books (ac_max_concurrent cfg) (ac_max_queue_depth cfg)
      (ids_of place_of (aw_reqs ?w)) (ids_of permit_of (aw_reqs ?w)) (aw_queue ?w)" by (simp_all add: adm_ok_def)
  have "int (length (filter (\<lambda>rq. permit_of rq \<noteq> None) (aw_reqs ?w))) \<le> ac_max_concurrent cfg"
    using admission.books_running [OF b] count_permits [OF one] by simp
  moreover have "aq_active (aw_queue ?w) = 0 \<and> aq_tickets (aw_queue ?w) = [] \<and> aq_waiters (aw_queue ?w) = []"
    if "list_all finished (aw_reqs ?w)"
  proof -
    have "place_of rq = None" if "finished rq" for rq using that by (auto simp: finished_def place_of_def split: request_state.splits)
    then have "ids_of place_of (aw_reqs ?w) = {}" using that by (auto simp: ids_of_def list_all_length)
    then have e: "set (aq_tickets (aw_queue ?w)) = {} \<and> set (waiting_ids (aw_queue ?w)) = {}" using b admission.books_closed by metis
    obtain arr where "queue_ok (ac_max_concurrent cfg) (ac_max_queue_depth cfg) arr [] (aw_queue ?w)"
      using adm_ok_queue(1) [OF ok] by (rule gate_okE)
    then show ?thesis using e by (simp add: queue_ok_def waiting_ids_def)
  qed
  ultimately show ?thesis using adm_ok_queue(3) [OF ok] one by simp
qed

definition sample_admission :: admission_config where
  "sample_admission = \<lparr>ac_max_concurrent = 1, ac_max_queue_depth = 1, ac_budget = \<lparr>ab_chat = 100, ab_background = 50\<rparr>,
     ac_global_max = 1, ac_global_enabled = True, ac_probe_attempts = Some 3, ac_probe_delay = Some 10, ac_request_timeout = None\<rparr>"

definition sample_probe :: probe where
  "sample_probe = \<lparr>pr_aborted = False, pr_clock = 0, pr_reply = Replied, pr_abort_during = False, pr_release = Replied\<rparr>"

definition sample_events :: "adm_event list" where
  "sample_events = [Ev_Acquire ''FREE_FORM_CHAT'' 0 False, Ev_Resume 0 1 False False 0, Ev_Probe 0 ''u'' (Some sample_probe),
     Ev_Resume 0 2 False False 0, Ev_Release 0 Replied, Ev_Resume 0 3 False False 0]"

theorem admission_permits_balanced_witness:
  "case adm_run sample_admission (empty_slots 0) sample_events of w \<Rightarrow>
    list_all finished (aw_reqs w) \<and> aq_active (aw_queue w) = 0 \<and> aq_tickets (aw_queue w) = [] \<and> aq_waiters (aw_queue w) = []"
proof -
  have "list_all finished (aw_reqs (adm_run sample_admission (empty_slots 0) sample_events))" by code_simp
  then show ?thesis
    using admission_permits_balanced [of sample_admission "empty_slots 0" sample_events] by (simp add: sample_admission_def)
qed

text \<open>With the aggregate budget on, no request ever holds a lease without a slot of the shared
  Redis, with it off none holds one, and the acquire loop of every request ends after at most
  \<open>globalAcquireMaxRetries\<close> probes.
\<close>

theorem admission_never_bypasses_budget:
  "case adm_run cfg s evs of w \<Rightarrow>
     list_all (\<lambda>rq. (case rq_state rq of Rq_Leased i t \<Rightarrow> ac_global_enabled cfg = (t \<noteq> None) | _ \<Rightarrow> True)
       \<and> rq_probes rq \<le> max 1 (max_probe_attempts cfg)) (aw_reqs w)"
proof -
  have "(case rq_state rq of Rq_Leased i t \<Rightarrow> ac_global_enabled cfg = (t \<noteq> None) | _ \<Rightarrow> True) \<and> rq_probes rq \<le> max 1 (max_probe_attempts cfg)"
    if "request_ok cfg rq" for rq
    using that by (cases "rq_state rq") (simp_all add: request_ok_def finished_def)
  then show ?thesis using requests_ok_run [of cfg s evs] unfolding requests_ok_def list_all_iff by blast
qed

section \<open>Slots\<close>

text \<open>
  \<open>ours\<close> are the fencing tokens drawn by this process. An event is clean when no reply is lost, no release
  is refused, its token is new and other processes use their own.
\<close>

definition clean_event :: "(string \<Rightarrow> bool) \<Rightarrow> adm_event \<Rightarrow> bool" where
  "clean_event ours e = (case e of
       Ev_Probe r u p \<Rightarrow> ours u \<and> (case p of None \<Rightarrow> True | Some pr \<Rightarrow> clean_probe pr)
     | Ev_Release r reply \<Rightarrow> reply \<noteq> Refused
     | Ev_Redis (Sl_Acquire t u) \<Rightarrow> \<not> ours u
     | _ \<Rightarrow> True)"

fun probe_uuids_of :: "adm_event \<Rightarrow> string list" where
  "probe_uuids_of (Ev_Probe r u p) = [u]"
| "probe_uuids_of _ = []"

definition probe_uuids :: "adm_event list \<Rightarrow> string list" where
  "probe_uuids evs = concat (map probe_uuids_of evs)"

definition token_of :: "request \<Rightarrow> string option" where
  "token_of rq = (case rq_state rq of Rq_Probed i u Slot_Acquired \<Rightarrow> Some u | Rq_Leased i t \<Rightarrow> t | _ \<Rightarrow> None)"

definition tokens :: "request list \<Rightarrow> string set" where
  "tokens rqs = {u. \<exists>rq\<in>set rqs. token_of rq = Some u}"

definition tokens_ok :: "(string \<Rightarrow> bool) \<Rightarrow> adm_world \<Rightarrow> bool" where
  "tokens_ok ours w \<longleftrightarrow>
     (\<forall>u\<in>set (live_leases (aw_redis w)). ours u \<longrightarrow> u \<in> tokens (aw_reqs w)) \<and>
     (\<forall>l\<in>set (sl_leases (aw_redis w)). ours (fst l) \<longrightarrow> fst l \<in> set (aw_uuids w)) \<and> 0 \<le> counter (aw_redis w)"

lemma counter_fields:
  "counter (s\<lparr>sl_leases := l\<rparr>) = counter s" "counter (s\<lparr>sl_count := Some (n, x)\<rparr>) = (if alive (sl_now s) x then n else 0)"
  by (auto simp: counter_def live_count_def split: option.split)

lemma counter_nonneg_tick: "0 \<le> counter s \<Longrightarrow> sl_now s \<le> n \<Longrightarrow> 0 \<le> counter (s\<lparr>sl_now := n\<rparr>)"
  using counter_tick(1) [of s n] by auto

lemma counter_nonneg_exec: "0 \<le> counter s \<Longrightarrow> 0 \<le> counter (slot_exec limit x s)"
  using counter_nonneg_tick [of s]
  by (cases x) (auto simp: acquire_script_def release_script_def Let_def counter_fields)

lemma slot_reach_facts:
  assumes "slot_reach limit ttl s s'"
  shows "sl_now s \<le> sl_now s'" and "0 \<le> counter s \<Longrightarrow> 0 \<le> counter s'"
proof -
  have now: "sl_now s \<le> sl_now (slot_exec limit x s)" for x s
    by (cases x) (auto simp: acquire_script_def release_script_def Let_def)
  obtain steps where "s' = slot_run limit steps s" using assms by (auto simp: slot_reach_def)
  moreover have "sl_now s \<le> sl_now (slot_run limit steps s)"
  proof (induction steps arbitrary: s)
    case (Cons x steps)
    then show ?case using now [of s x] by (auto intro: order_trans)
  qed simp
  moreover have "0 \<le> counter s \<Longrightarrow> 0 \<le> counter (slot_run limit steps s)"
    by (induction steps arbitrary: s) (simp_all add: counter_nonneg_exec)
  ultimately show "sl_now s \<le> sl_now s'" "0 \<le> counter s \<Longrightarrow> 0 \<le> counter s'" by simp_all
qed

lemma live_leases_later: "sl_leases s' = sl_leases s \<Longrightarrow> sl_now s \<le> sl_now s' \<Longrightarrow> set (live_leases s') \<subseteq> set (live_leases s)"
  by (auto simp: live_leases_def)

lemma tokens_put_same:
  assumes "r < length rqs" "token_of rq = token_of (rqs ! r)"
  shows "tokens (rqs[r := rq]) = tokens rqs"
proof -
  have "token_of (rqs[r := rq] ! a) = token_of (rqs ! a)" for a using assms by (cases "a = r") simp_all
  then show ?thesis unfolding tokens_def by (metis in_set_conv_nth length_list_update)
qed

lemma tokens_put_less:
  assumes "r < length rqs"
  shows "tokens rqs - set_option (token_of (rqs ! r)) \<subseteq> tokens (rqs[r := rq])"
proof
  fix u
  assume "u \<in> tokens rqs - set_option (token_of (rqs ! r))"
  then obtain a where "a < length rqs" "token_of (rqs ! a) = Some u" "token_of (rqs ! r) \<noteq> Some u"
    by (auto simp: tokens_def in_set_conv_nth)
  moreover from this have "a \<noteq> r" by auto
  ultimately show "u \<in> tokens (rqs[r := rq])"
    unfolding tokens_def by (auto intro!: bexI [of _ "rqs[r := rq] ! a"] nth_mem)
qed

lemma tokens_put_none: "r < length rqs \<Longrightarrow> token_of (rqs ! r) = None \<Longrightarrow> tokens rqs \<subseteq> tokens (rqs[r := rq])"
  using tokens_put_less [of r rqs rq] by simp

text \<open>Everything but a probe and a release keeps the tokens and the Redis.\<close>

lemma tokens_ok_mono:
  assumes "tokens_ok ours w" "aw_redis w' = aw_redis w" "aw_uuids w' = aw_uuids w" "tokens (aw_reqs w) \<subseteq> tokens (aw_reqs w')"
  shows "tokens_ok ours w'"
  using assms unfolding tokens_ok_def by (metis subsetD)

lemma tokens_okI:
  assumes "\<And>v. v \<in> set (live_leases (aw_redis w)) \<Longrightarrow> ours v \<Longrightarrow> v \<in> tokens (aw_reqs w)"
    and "\<And>v. v \<in> fst ` set (sl_leases (aw_redis w)) \<Longrightarrow> ours v \<Longrightarrow> v \<in> set (aw_uuids w)" and "0 \<le> counter (aw_redis w)"
  shows "tokens_ok ours w"
  using assms unfolding tokens_ok_def by blast

lemma tokens_okD:
  assumes "tokens_ok ours w"
  shows "v \<in> set (live_leases (aw_redis w)) \<Longrightarrow> ours v \<Longrightarrow> v \<in> tokens (aw_reqs w)"
    and "v \<in> fst ` set (sl_leases (aw_redis w)) \<Longrightarrow> ours v \<Longrightarrow> v \<in> set (aw_uuids w)" and "0 \<le> counter (aw_redis w)"
  using assms unfolding tokens_ok_def by blast+

lemma enter_queue_fields [simp]:
  "aw_redis (enter_queue cfg r rq first aborted delay now w) = aw_redis w" "aw_uuids (enter_queue cfg r rq first aborted delay now w) = aw_uuids w"
  "\<exists>rq'. aw_reqs (enter_queue cfg r rq first aborted delay now w) = (aw_reqs w)[r := rq']"
  by (auto simp: enter_queue_def Let_def)

lemma probe_failed_fields [simp]:
  "aw_redis (probe_failed cfg r rq res now aborted deadline rng w) = aw_redis w"
  "aw_uuids (probe_failed cfg r rq res now aborted deadline rng w) = aw_uuids w"
  "\<exists>rq'. aw_reqs (probe_failed cfg r rq res now aborted deadline rng w) = (aw_reqs w)[r := rq']"
  by (auto simp: probe_failed_def Let_def split: slot_result.split)

lemma tokens_ok_enter:
  assumes "tokens_ok ours w" "r < length (aw_reqs w)" "token_of (aw_reqs w ! r) = None"
  shows "tokens_ok ours (enter_queue cfg r rq first aborted delay now w)"
proof -
  obtain rq' where rq': "aw_reqs (enter_queue cfg r rq first aborted delay now w) = (aw_reqs w)[r := rq']"
    using enter_queue_fields(3) by blast
  show ?thesis
    by (rule tokens_ok_mono [OF assms(1)]) (simp_all add: rq' tokens_put_none [OF assms(2,3)])
qed

lemma tokens_ok_resume:
  assumes ok: "tokens_ok ours w" and r: "r < length (aw_reqs w)"
  shows "tokens_ok ours (resume cfg r now aborted deadline rng (aw_reqs w ! r) w)"
proof (cases "rq_state (aw_reqs w ! r)")
  case (Rq_Queued i first)
  then have "token_of (aw_reqs w ! r) = None" by (simp add: token_of_def)
  then show ?thesis using r
    by (intro tokens_ok_mono [OF ok])
      (auto simp: resume_def Rq_Queued resume_queued_def with_ticket_def drop_ticket_def Let_def split: option.split intro!: tokens_put_none [THEN subsetD])
next
  case (Rq_Probed i u res)
  show ?thesis
  proof (cases "res = Slot_Acquired")
    case True
    have "tokens ((aw_reqs w)[r := (aw_reqs w ! r)\<lparr>rq_state := Rq_Leased i (Some u)\<rparr>]) = tokens (aw_reqs w)"
      by (rule tokens_put_same [OF r]) (simp add: token_of_def Rq_Probed True)
    then show ?thesis by (intro tokens_ok_mono [OF ok]) (simp_all add: resume_def Rq_Probed resume_probed_def True)
  next
    case False
    then have none: "token_of (aw_reqs w ! r) = None" by (simp add: token_of_def Rq_Probed split: slot_result.split)
    let ?w = "w\<lparr>aw_queue := ticket_release (ac_max_concurrent cfg) i (aw_queue w)\<rparr>"
    obtain rq' where "aw_reqs (probe_failed cfg r (aw_reqs w ! r) res now aborted deadline rng ?w) = (aw_reqs w)[r := rq']"
      using probe_failed_fields(3) [of cfg r "aw_reqs w ! r" res now aborted deadline rng ?w] by auto
    then show ?thesis using tokens_put_none [OF r none] False
      by (intro tokens_ok_mono [OF ok]) (simp_all add: resume_def Rq_Probed resume_probed_def)
  qed
next
  case (Rq_Releasing i)
  then have "token_of (aw_reqs w ! r) = None" by (simp add: token_of_def)
  then show ?thesis using tokens_put_none [OF r]
    by (intro tokens_ok_mono [OF ok]) (simp_all add: resume_def Rq_Releasing lease_released_def)
qed (simp_all add: resume_def ok)

lemma tokens_ok_queue_event:
  assumes ok: "tokens_ok ours w" and r: "r < length (aw_reqs w)"
  shows "tokens_ok ours (queue_event cfg r timeout e (aw_reqs w ! r) w)"
proof (cases "rq_state (aw_reqs w ! r)")
  case (Rq_Queued i first)
  then have "token_of (aw_reqs w ! r) = None" by (simp add: token_of_def)
  then show ?thesis using tokens_put_none [OF r]
    by (intro tokens_ok_mono [OF ok]) (simp_all add: queue_event_def Rq_Queued)
qed (simp_all add: queue_event_def ok)

lemma tokens_ok_start: "tokens_ok ours w \<Longrightarrow> tokens_ok ours (start_request cfg feature now aborted w)"
proof -
  assume ok: "tokens_ok ours w"
  let ?rq = "\<lparr>rq_feature = feature, rq_started = now, rq_probes = 0, rq_errors = 0, rq_state = Rq_Failed Adm_Aborted\<rparr>"
  let ?w = "w\<lparr>aw_reqs := aw_reqs w @ [?rq]\<rparr>"
  have "tokens (aw_reqs w) \<subseteq> tokens (aw_reqs ?w)" by (auto simp: tokens_def)
  then have w: "tokens_ok ours ?w" by (intro tokens_ok_mono [OF ok]) simp_all
  have r: "length (aw_reqs w) < length (aw_reqs ?w)" "token_of (aw_reqs ?w ! length (aw_reqs w)) = None" by (simp_all add: token_of_def)
  have put: "tokens_ok ours (put_request (length (aw_reqs w)) rq ?w)" for rq
    using tokens_put_none [OF r] by (intro tokens_ok_mono [OF w]) simp_all
  note tokens_ok_enter [OF w r]
  then show ?thesis using w put unfolding start_request_def Let_def by simp
qed

lemma tokens_ok_probe:
  assumes ok: "tokens_ok ours w" and r: "r < length (aw_reqs w)" and st: "rq_state (aw_reqs w ! r) = Rq_Probing i m"
    and u: "ours u" "u \<notin> set (aw_uuids w)" and p: "case p of None \<Rightarrow> True | Some pr \<Rightarrow> clean_probe pr"
  shows "tokens_ok ours (run_probe cfg r i (aw_reqs w ! r) m u p w)"
proof -
  have none: "token_of (aw_reqs w ! r) = None" using st by (simp add: token_of_def)
  show ?thesis
  proof (cases p)
    case None
    then show ?thesis using tokens_put_none [OF r none] by (intro tokens_ok_mono [OF ok]) (simp_all add: run_probe_def)
  next
    case (Some pr)
    let ?call = "acquire_redis_slot (ac_global_max cfg) (lease_ms cfg) (Some m) max_consecutive_redis_errors u
                  (max (sl_now (aw_redis w)) (pr_clock pr)) False 0 [pr] (aw_redis w)"
    obtain res s where call: "?call = (res, s)" by force
    have fresh: "u \<notin> fst ` set (sl_leases (aw_redis w))" using ok u unfolding tokens_ok_def by auto
    have acc: "accounted u (aw_redis w) (res, s)"
    proof -
      have "list_all clean_probe [pr]" "0 \<le> counter (aw_redis w)" using p Some ok by (simp_all add: tokens_ok_def)
      then show ?thesis using accounted_loop [of "[pr]" "lease_ms cfg" u "aw_redis w"] lease_ms_nonneg fresh call by metis
    qed
    have reach: "slot_reach (ac_global_max cfg) (lease_ms cfg) (aw_redis w) s"
      using slot_reach_loop [of "ac_global_max cfg" "lease_ms cfg" "aw_redis w" "Some m" max_consecutive_redis_errors u _ False 0 "[pr]"] call
      by (metis snd_conv)
    note facts = slot_reach_facts [OF reach]
    let ?rqs = "(aw_reqs w)[r := (aw_reqs w ! r)\<lparr>rq_state := Rq_Probed i u res\<rparr>]"
    have keep: "tokens (aw_reqs w) \<subseteq> tokens ?rqs" by (rule tokens_put_none [OF r none])
    have won: "u \<in> tokens ?rqs" if "res = Slot_Acquired"
      unfolding tokens_def using r that by (auto simp: token_of_def intro!: bexI [of _ "?rqs ! r"] nth_mem)
    have live: "set (live_leases s) \<subseteq> (if res = Slot_Acquired then {u} else {}) \<union> set (live_leases (aw_redis w))"
      using acc facts(1) by (auto simp: accounted_def live_leases_def split: if_splits)
    have leases: "fst ` set (sl_leases s) \<subseteq> insert u (fst ` set (sl_leases (aw_redis w)))"
      using acc by (auto simp: accounted_def split: if_splits)
    have "tokens_ok ours (put_request r ((aw_reqs w ! r)\<lparr>rq_state := Rq_Probed i u res\<rparr>) (w\<lparr>aw_redis := s, aw_uuids := u # aw_uuids w\<rparr>))"
    proof (rule tokens_okI, unfold put_request_simps, goal_cases)
      case (1 v)
      then have "v \<in> set (live_leases s)" by simp
      then have "res = Slot_Acquired \<and> v = u \<or> v \<in> set (live_leases (aw_redis w))" using live by (auto split: if_splits)
      then show ?case using won keep tokens_okD(1) [OF ok _ 1(2)] by auto
    next
      case (2 v)
      then have "v = u \<or> v \<in> fst ` set (sl_leases (aw_redis w))" using leases by auto
      then show ?case using tokens_okD(2) [OF ok _ 2(2)] by auto
    qed (use facts(2) tokens_okD(3) [OF ok] in simp)
    then show ?thesis by (simp add: run_probe_def Some call del: acquire_redis_slot.simps)
  qed
qed

lemma tokens_ok_release:
  assumes ok: "tokens_ok ours w" and r: "r < length (aw_reqs w)" and st: "rq_state (aw_reqs w ! r) = Rq_Leased i t" and reply: "reply \<noteq> Refused"
  shows "tokens_ok ours (release_lease r i (aw_reqs w ! r) t reply w)"
proof (cases t)
  case None
  then have "token_of (aw_reqs w ! r) = None" using st by (simp add: token_of_def)
  then show ?thesis using tokens_put_none [OF r] by (intro tokens_ok_mono [OF ok]) (simp_all add: release_lease_def None)
next
  case (Some u)
  let ?s = "snd (release_script u (aw_redis w))" and ?rqs = "(aw_reqs w)[r := (aw_reqs w ! r)\<lparr>rq_state := Rq_Releasing i\<rparr>]"
  have tk: "tokens (aw_reqs w) - {u} \<subseteq> tokens ?rqs" using tokens_put_less [OF r] st Some by (simp add: token_of_def)
  have sub: "set (live_leases ?s) \<subseteq> set (live_leases (aw_redis w)) - {u}" "set (sl_leases ?s) \<subseteq> set (sl_leases (aw_redis w))"
    by (auto simp: release_script_def Let_def live_leases_def)
  have pos: "0 \<le> counter ?s" using counter_nonneg_exec [of "aw_redis w" undefined "Sl_Release u"] ok by (simp add: tokens_ok_def)
  have "tokens_ok ours (put_request r ((aw_reqs w ! r)\<lparr>rq_state := Rq_Releasing i\<rparr>) (w\<lparr>aw_redis := ?s\<rparr>))"
  proof (rule tokens_okI, unfold put_request_simps, goal_cases)
    case (1 v)
    then show ?case using sub(1) tk tokens_okD(1) [OF ok _ 1(2)] by auto
  next
    case (2 v)
    then show ?case using sub(2) tokens_okD(2) [OF ok _ 2(2)] by auto
  qed (use pos in simp)
  then show ?thesis using reply by (simp add: release_lease_def Some release_redis_slot_def)
qed

lemma tokens_ok_redis:
  assumes ok: "tokens_ok ours w" and x: "clean_event ours (Ev_Redis x)"
  shows "tokens_ok ours (w\<lparr>aw_redis := slot_exec limit x (aw_redis w)\<rparr>)"
proof -
  let ?s = "slot_exec limit x (aw_redis w)"
  have sub: "set (live_leases ?s) \<subseteq> {u. \<not> ours u} \<union> set (live_leases (aw_redis w))"
    "fst ` set (sl_leases ?s) \<subseteq> {u. \<not> ours u} \<union> fst ` set (sl_leases (aw_redis w))"
    using x by (cases x; auto simp: clean_event_def acquire_script_def release_script_def Let_def live_leases_def)+
  show ?thesis
  proof (rule tokens_okI, goal_cases)
    case (1 v)
    then show ?case using sub(1) tokens_okD(1) [OF ok _ 1(2)] by auto
  next
    case (2 v)
    then show ?case using sub(2) tokens_okD(2) [OF ok _ 2(2)] by auto
  qed (use counter_nonneg_exec tokens_okD(3) [OF ok] in simp)
qed

lemma tokens_ok_exec:
  assumes ok: "tokens_ok ours w" and e: "clean_event ours e" and u: "\<forall>u\<in>set (probe_uuids_of e). u \<notin> set (aw_uuids w)"
  shows "tokens_ok ours (adm_exec cfg e w)"
proof (cases e)
  case (Ev_Probe r u p)
  then show ?thesis using ok e u tokens_ok_probe [OF ok]
    by (simp add: with_request_def clean_event_def split: request_state.split)
next
  case (Ev_Release r reply)
  then show ?thesis using ok e tokens_ok_release [OF ok]
    by (simp add: with_request_def clean_event_def split: request_state.split)
next
  case (Ev_Ready i)
  then show ?thesis by (intro tokens_ok_mono [OF ok]) simp_all
qed (use ok e in \<open>simp_all add: with_request_def tokens_ok_start tokens_ok_queue_event tokens_ok_resume tokens_ok_redis\<close>)

lemma uuids_exec: "set (aw_uuids (adm_exec cfg e w)) \<subseteq> set (probe_uuids_of e) \<union> set (aw_uuids w)"
proof (cases e)
  case (Ev_Resume r now aborted deadline rng)
  have "aw_uuids (resume cfg r now aborted deadline rng rq w) = aw_uuids w" for rq
    by (simp add: resume_def resume_queued_def with_ticket_def drop_ticket_def resume_probed_def lease_released_def Let_def split: request_state.split option.split)
  then show ?thesis by (simp add: Ev_Resume with_request_def)
qed (auto simp: with_request_def start_request_def Let_def queue_event_def run_probe_def release_lease_def
     split: request_state.splits option.splits prod.splits)

lemma tokens_ok_run:
  assumes "list_all (clean_event ours) evs" "distinct (probe_uuids evs)" "\<forall>l\<in>set (sl_leases s). \<not> ours (fst l)" "0 \<le> counter s"
  shows "tokens_ok ours (adm_run cfg s evs) \<and> set (aw_uuids (adm_run cfg s evs)) \<subseteq> set (probe_uuids evs)"
  using assms(1,2)
proof (induction evs rule: rev_induct)
  case Nil
  show ?case using assms(3,4) by (auto simp: tokens_ok_def fresh_admission_def live_leases_def)
next
  case (snoc e evs)
  have pre: "tokens_ok ours (adm_run cfg s evs)" "set (aw_uuids (adm_run cfg s evs)) \<subseteq> set (probe_uuids evs)"
    using snoc by (simp_all add: probe_uuids_def)
  have "\<forall>u\<in>set (probe_uuids_of e). u \<notin> set (aw_uuids (adm_run cfg s evs))"
    using snoc.prems(2) pre(2) by (auto simp: probe_uuids_def)
  then have "tokens_ok ours (adm_exec cfg e (adm_run cfg s evs))" using snoc.prems(1) by (intro tokens_ok_exec [OF pre(1)]) simp_all
  then show ?case using pre(2) uuids_exec [of cfg e "adm_run cfg s evs"] by (auto simp: probe_uuids_def)
qed



end
