(* ===== verification/Llm_Failover.thy ===== *)
theory Llm_Failover
  imports Complex_Main Bot_Prelude Js_Strings
begin

text \<open>
  Provider attempts: the shared attempt budget (\<open>packages/llm-agent/src/execution/attempt-budget.ts\<close>), the
  error classification of the OpenAI adapter (\<open>provider/openai/openai-adapter.ts\<close>,
  \<open>provider/failure-origin.ts\<close>) and the failover adapter with its per-provider circuits
  (\<open>provider/failover/failover-adapter.ts\<close>). What the outside does around the \<open>n\<close>-th attempt is
  given by an environment: the signal, the answer of the provider and the clock.
\<close>

section \<open>Errors\<close>

datatype provider_reason = R_Rate_Limit | R_Timeout | R_Server_Error | R_Network | R_Auth | R_Bad_Request | R_Quota_Exceeded | R_Unknown

record raw_error =
  er_name :: string
  er_status :: "int option"
  er_message :: "string option"
  er_code :: "string option"

datatype llm_error = Raw raw_error | Budget_Spent | All_Exhausted "string list" "provider_reason list" | Override_Refused

definition lower_char :: "char \<Rightarrow> char" where
  "lower_char c = (let n = (of_char c :: nat) in if 65 \<le> n \<and> n \<le> 90 then char_of (n + 32) else c)"

definition to_lower :: "string \<Rightarrow> string" where
  "to_lower s = map lower_char s"

fun has_prefix :: "string \<Rightarrow> string \<Rightarrow> bool" where
  "has_prefix [] s = True"
| "has_prefix (c # cs) [] = False"
| "has_prefix (c # cs) (d # s) = (c = d \<and> has_prefix cs s)"

text \<open>The pattern \<open>first.?second\<close> at the start of a text, and anywhere in it. A dot is no line terminator.\<close>

definition gap_here :: "string \<Rightarrow> string \<Rightarrow> string \<Rightarrow> bool" where
  "gap_here first second s =
     (has_prefix first s \<and>
      (let rest = drop (length first) s in
       has_prefix second rest \<or> (rest \<noteq> [] \<and> hd rest \<notin> {CHR 0x0A, CHR 0x0D} \<and> has_prefix second (tl rest))))"

fun contains_gap :: "string \<Rightarrow> string \<Rightarrow> string \<Rightarrow> bool" where
  "contains_gap first second [] = gap_here first second []"
| "contains_gap first second (c # s) = (gap_here first second (c # s) \<or> contains_gap first second s)"

fun contains :: "string \<Rightarrow> string \<Rightarrow> bool" where
  "contains p [] = (p = [])"
| "contains p (c # s) = (has_prefix p (c # s) \<or> contains p s)"

definition is_abort_error :: "raw_error \<Rightarrow> bool" where
  "is_abort_error e \<longleftrightarrow> er_name e = ''AbortError'' \<or> er_name e = ''TimeoutError''"

definition is_platform_api_error :: "raw_error \<Rightarrow> bool" where
  "is_platform_api_error e \<longleftrightarrow> er_name e = ''MessengerApiError''"

definition is_rate_limit_error :: "raw_error \<Rightarrow> bool" where
  "is_rate_limit_error e \<longleftrightarrow>
     \<not> is_platform_api_error e \<and>
     (er_name e = ''RateLimitError'' \<or>
      (er_status e = Some 429 \<and>
       (case er_message e of None \<Rightarrow> False | Some m \<Rightarrow> contains ''openai'' (to_lower m) \<or> contains_gap ''rate'' ''limit'' (to_lower m))))"

definition is_server_error :: "raw_error \<Rightarrow> bool" where
  "is_server_error e \<longleftrightarrow>
     \<not> is_platform_api_error e \<and>
     (er_name e = ''InternalServerError'' \<or> er_name e = ''APIConnectionError'' \<or>
      (case er_status e of None \<Rightarrow> False | Some st \<Rightarrow> 500 \<le> st \<and> st < 600))"

definition is_auth_error :: "raw_error \<Rightarrow> bool" where
  "is_auth_error e \<longleftrightarrow> \<not> is_platform_api_error e \<and> (er_status e = Some 401 \<or> er_status e = Some 403)"

definition is_bad_request_error :: "raw_error \<Rightarrow> bool" where
  "is_bad_request_error e \<longleftrightarrow> \<not> is_platform_api_error e \<and> (er_status e = Some 400 \<or> er_status e = Some 422)"

definition quota_text :: "string option \<Rightarrow> bool" where
  "quota_text t = (let s = to_lower (case t of None \<Rightarrow> '''' | Some x \<Rightarrow> x) in
     contains_gap ''insufficient'' ''quota'' s \<or> contains_gap ''insufficient'' ''credit'' s \<or>
     contains_gap ''insufficient'' ''balance'' s \<or> contains ''billing'' s)"

definition is_quota_exhausted_error :: "raw_error \<Rightarrow> bool" where
  "is_quota_exhausted_error e \<longleftrightarrow>
     \<not> is_platform_api_error e \<and>
     (er_status e = Some 402 \<or>
      ((er_status e = Some 429 \<or> er_status e = Some 400) \<and> (quota_text (er_message e) \<or> quota_text (er_code e))))"

definition normalize_error :: "raw_error \<Rightarrow> provider_reason" where
  "normalize_error e =
     (if is_quota_exhausted_error e then R_Quota_Exceeded
      else if is_rate_limit_error e then R_Rate_Limit
      else if is_server_error e then R_Server_Error
      else if is_auth_error e then R_Auth
      else if is_bad_request_error e then R_Bad_Request
      else R_Unknown)"

definition is_retryable_error :: "raw_error \<Rightarrow> bool" where
  "is_retryable_error e \<longleftrightarrow> \<not> is_abort_error e \<and> (is_rate_limit_error e \<or> is_server_error e)"

section \<open>The attempt budget\<close>

record attempt_budget =
  bu_max :: nat
  bu_used :: nat
  bu_last :: "llm_error option"

definition normalize_max_attempts :: "int option \<Rightarrow> nat" where
  "normalize_max_attempts v = (case v of None \<Rightarrow> 6 | Some n \<Rightarrow> if 1 \<le> n \<and> n \<le> 8 then nat n else 6)"

definition new_budget :: "int \<Rightarrow> attempt_budget option" where
  "new_budget n = (if n < 1 \<or> n > 8 then None else Some \<lparr>bu_max = nat n, bu_used = 0, bu_last = None\<rparr>)"

definition exhausted :: "attempt_budget \<Rightarrow> bool" where
  "exhausted b \<longleftrightarrow> bu_max b \<le> bu_used b"

text \<open>\<open>throwIfExhausted\<close>: the error it throws, if it throws.\<close>

definition budget_error :: "attempt_budget \<Rightarrow> llm_error option" where
  "budget_error b = (if exhausted b then Some (case bu_last b of None \<Rightarrow> Budget_Spent | Some e \<Rightarrow> e) else None)"

definition consume :: "attempt_budget \<Rightarrow> attempt_budget" where
  "consume b = b\<lparr>bu_used := Suc (bu_used b)\<rparr>"

definition note_failure :: "llm_error \<Rightarrow> attempt_budget \<Rightarrow> attempt_budget" where
  "note_failure e b = b\<lparr>bu_last := Some e\<rparr>"

section \<open>Provider circuits\<close>

text \<open>\<open>ci_healthy_at = None\<close> is \<open>Number.POSITIVE_INFINITY\<close>.\<close>

record circuit_state =
  ci_healthy_at :: "millis option"
  ci_opened :: bool
  ci_successes :: nat
  ci_long :: nat
  ci_auth :: nat
  ci_alerted :: bool
  ci_quarantined :: bool

definition fresh_circuit :: circuit_state where
  "fresh_circuit = \<lparr>ci_healthy_at = Some 0, ci_opened = False, ci_successes = 0, ci_long = 0, ci_auth = 0, ci_alerted = False, ci_quarantined = False\<rparr>"

datatype circuit_event = Ce_Open string provider_reason | Ce_Close string | Ce_Skip string bool | Ce_Quarantine string | Ce_Never_Served string

record candidate =
  ca_name :: string
  ca_model :: string

record failover_config =
  fc_candidates :: "candidate list"
  fc_cooldown_long :: millis
  fc_cooldown_short :: millis
  fc_max_attempts :: nat

definition failover_max_attempts :: "rat option \<Rightarrow> nat" where
  "failover_max_attempts v = (case v of None \<Rightarrow> 2 | Some x \<Rightarrow> nat (max 1 \<lfloor>x\<rfloor>))"

record failover_state =
  fo_circuit :: "string \<Rightarrow> circuit_state"
  fo_budget :: "attempt_budget option"
  fo_n :: nat
  fo_sent :: "string list"
  fo_reasons :: "provider_reason list"
  fo_outcomes :: "(string \<times> bool) list"
  fo_events :: "circuit_event list"

definition long_cooldown :: "provider_reason \<Rightarrow> bool" where
  "long_cooldown r \<longleftrightarrow> r = R_Quota_Exceeded \<or> r = R_Auth \<or> r = R_Rate_Limit"

definition circuit_success :: "circuit_state \<Rightarrow> circuit_state" where
  "circuit_success c = c\<lparr>ci_successes := Suc (ci_successes c), ci_healthy_at := Some 0, ci_opened := False, ci_long := 0, ci_auth := 0, ci_alerted := False\<rparr>"

definition circuit_long :: "provider_reason \<Rightarrow> circuit_state \<Rightarrow> circuit_state" where
  "circuit_long r c =
     (if long_cooldown r then c\<lparr>ci_long := Suc (ci_long c), ci_alerted := (ci_alerted c \<or> Suc (ci_long c) \<ge> 3)\<rparr>
      else c\<lparr>ci_long := 0, ci_alerted := False\<rparr>)"

definition circuit_auth :: "provider_reason \<Rightarrow> circuit_state \<Rightarrow> circuit_state" where
  "circuit_auth r c =
     (if r = R_Auth
      then (let c1 = c\<lparr>ci_auth := Suc (ci_auth c)\<rparr> in
            if ci_auth c1 \<ge> 3 \<and> \<not> ci_quarantined c1 then c1\<lparr>ci_quarantined := True, ci_healthy_at := None\<rparr> else c1)
      else c\<lparr>ci_auth := 0\<rparr>)"

definition put_circuit :: "string \<Rightarrow> (circuit_state \<Rightarrow> circuit_state) \<Rightarrow> failover_state \<Rightarrow> failover_state" where
  "put_circuit p f s = s\<lparr>fo_circuit := (fo_circuit s)(p := f (fo_circuit s p))\<rparr>"

definition emit :: "circuit_event list \<Rightarrow> failover_state \<Rightarrow> failover_state" where
  "emit es s = s\<lparr>fo_events := fo_events s @ es\<rparr>"

definition record_success :: "string \<Rightarrow> failover_state \<Rightarrow> failover_state" where
  "record_success p s =
     (let was_open = ci_opened (fo_circuit s p)
      in emit (if was_open then [Ce_Close p] else []) (put_circuit p circuit_success (s\<lparr>fo_outcomes := fo_outcomes s @ [(p, True)]\<rparr>)))"

definition record_failure :: "string \<Rightarrow> provider_reason \<Rightarrow> failover_state \<Rightarrow> failover_state" where
  "record_failure p r s =
     (let c = fo_circuit s p; c1 = circuit_long r c; c2 = circuit_auth r c1
      in emit ((if ci_alerted c1 \<and> \<not> ci_alerted c then [Ce_Never_Served p] else [])
               @ (if ci_quarantined c2 \<and> \<not> ci_quarantined c1 then [Ce_Quarantine p] else []))
           (put_circuit p (\<lambda>_. c2) (s\<lparr>fo_outcomes := fo_outcomes s @ [(p, False)]\<rparr>)))"

definition open_circuit :: "failover_config \<Rightarrow> string \<Rightarrow> provider_reason \<Rightarrow> millis \<Rightarrow> failover_state \<Rightarrow> failover_state" where
  "open_circuit cfg p r clock s =
     (if ci_quarantined (fo_circuit s p) then s
      else emit [Ce_Open p r]
             (put_circuit p (\<lambda>c. c\<lparr>ci_opened := True,
                ci_healthy_at := Some (clock + (if long_cooldown r then fc_cooldown_long cfg else fc_cooldown_short cfg))\<rparr>) s))"

section \<open>The plan\<close>

definition healthy :: "millis \<Rightarrow> (string \<Rightarrow> circuit_state) \<Rightarrow> candidate \<Rightarrow> bool" where
  "healthy now ci c \<longleftrightarrow> \<not> ci_quarantined (ci (ca_name c)) \<and> (case ci_healthy_at (ci (ca_name c)) of None \<Rightarrow> False | Some t \<Rightarrow> t \<le> now)"

definition eligible :: "(string \<Rightarrow> circuit_state) \<Rightarrow> candidate \<Rightarrow> bool" where
  "eligible ci c \<longleftrightarrow> \<not> ci_quarantined (ci (ca_name c))"

definition pick_ordered :: "failover_config \<Rightarrow> millis \<Rightarrow> (string \<Rightarrow> circuit_state) \<Rightarrow> candidate list \<times> candidate list \<times> bool" where
  "pick_ordered cfg now ci =
     (let cs = fc_candidates cfg; hs = filter (healthy now ci) cs in
      if hs = [] then
        (let es = filter (eligible ci) cs in
         if es = [] then ([], cs, False) else (es, filter (\<lambda>c. \<not> eligible ci c) cs, True))
      else (hs, filter (\<lambda>c. \<not> healthy now ci c) cs, False))"

definition emit_skips :: "candidate list \<Rightarrow> failover_state \<Rightarrow> failover_state" where
  "emit_skips cs s = emit (map (\<lambda>c. Ce_Skip (ca_name c) (ci_quarantined (fo_circuit s (ca_name c)))) cs) s"

section \<open>Attempts\<close>

datatype call_result = Answered | Call_Failed raw_error | Not_Issued raw_error

record attempt_env =
  ae_aborted :: bool
  ae_reason :: raw_error
  ae_result :: call_result
  ae_aborted_after :: bool
  ae_clock :: millis
  ae_sleep_aborted :: bool

datatype failover_end = Fo_Ok | Fo_Throw llm_error | Fo_Next

definition budget_throws :: "failover_state \<Rightarrow> llm_error option" where
  "budget_throws s = (case fo_budget s of None \<Rightarrow> None | Some b \<Rightarrow> budget_error b)"

definition budget_exhausted :: "failover_state \<Rightarrow> bool" where
  "budget_exhausted s = (case fo_budget s of None \<Rightarrow> False | Some b \<Rightarrow> exhausted b)"

text \<open>The adapter consumes one attempt and issues one request.\<close>

definition issue :: "string \<Rightarrow> failover_state \<Rightarrow> failover_state" where
  "issue p s = s\<lparr>fo_budget := map_option consume (fo_budget s), fo_sent := fo_sent s @ [p]\<rparr>"

definition note_error :: "llm_error \<Rightarrow> failover_state \<Rightarrow> failover_state" where
  "note_error e s = s\<lparr>fo_budget := map_option (note_failure e) (fo_budget s)\<rparr>"

text \<open>The \<open>catch\<close> of one attempt: \<open>Inl\<close> ends the inner loop, \<open>Inr\<close> goes on with the next attempt.\<close>

definition attempt_failed ::
    "failover_config \<Rightarrow> string \<Rightarrow> bool \<Rightarrow> attempt_env \<Rightarrow> raw_error \<Rightarrow> failover_state \<Rightarrow> (failover_end \<times> failover_state) + failover_state" where
  "attempt_failed cfg p final a e s =
     (let s1 = note_error (Raw e) s in
      if ae_aborted_after a \<or> is_abort_error e then Inl (Fo_Throw (Raw e), s1)
      else
        (let r = normalize_error e;
             s2 = record_failure p r (s1\<lparr>fo_reasons := fo_reasons s1 @ [r]\<rparr>)
         in if long_cooldown r \<or> final \<or> budget_exhausted s2 then Inl (Fo_Next, open_circuit cfg p r (ae_clock a) s2)
            else if ae_sleep_aborted a then Inl (Fo_Throw (Raw (ae_reason a)), s2)
            else Inr s2))"

fun candidate_attempts :: "failover_config \<Rightarrow> (nat \<Rightarrow> attempt_env) \<Rightarrow> string \<Rightarrow> nat \<Rightarrow> failover_state \<Rightarrow> failover_end \<times> failover_state" where
  "candidate_attempts cfg env p 0 s = (Fo_Next, s)"
| "candidate_attempts cfg env p (Suc left) s =
     (let a = env (fo_n s) in
      if ae_aborted a then (Fo_Throw (Raw (ae_reason a)), s)
      else case budget_throws s of
        Some e \<Rightarrow> (Fo_Throw e, s)
      | None \<Rightarrow>
          (let s0 = s\<lparr>fo_n := Suc (fo_n s)\<rparr> in
           case ae_result a of
             Answered \<Rightarrow> (Fo_Ok, record_success p (issue p s0))
           | Call_Failed e \<Rightarrow>
               (case attempt_failed cfg p (left = 0) a e (issue p s0) of Inl out \<Rightarrow> out | Inr s1 \<Rightarrow> candidate_attempts cfg env p left s1)
           | Not_Issued e \<Rightarrow>
               (case attempt_failed cfg p (left = 0) a e s0 of Inl out \<Rightarrow> out | Inr s1 \<Rightarrow> candidate_attempts cfg env p left s1)))"

fun run_candidates :: "failover_config \<Rightarrow> (nat \<Rightarrow> attempt_env) \<Rightarrow> bool \<Rightarrow> candidate list \<Rightarrow> failover_state \<Rightarrow> failover_end \<times> failover_state" where
  "run_candidates cfg env degraded [] s = (Fo_Next, s)"
| "run_candidates cfg env degraded (c # cs) s =
     (if ae_aborted (env (fo_n s)) then (Fo_Throw (Raw (ae_reason (env (fo_n s)))), s)
      else case budget_throws s of
        Some e \<Rightarrow> (Fo_Throw e, s)
      | None \<Rightarrow>
          (case candidate_attempts cfg env (ca_name c) (if degraded then 1 else fc_max_attempts cfg) s of
             (Fo_Next, s1) \<Rightarrow> if budget_exhausted s1 then (Fo_Next, s1) else run_candidates cfg env degraded cs s1
           | out \<Rightarrow> out))"

definition validate_model_override :: "failover_config \<Rightarrow> string option \<Rightarrow> bool" where
  "validate_model_override cfg model =
     (case model of None \<Rightarrow> True
      | Some m \<Rightarrow> \<not> (length (fc_candidates cfg) > 1 \<and> js_trim m \<noteq> ca_model (hd (fc_candidates cfg))))"

definition run_failover :: "failover_config \<Rightarrow> (nat \<Rightarrow> attempt_env) \<Rightarrow> string option \<Rightarrow> millis \<Rightarrow> failover_state \<Rightarrow> (llm_error + unit) \<times> failover_state" where
  "run_failover cfg env model now s =
     (if \<not> validate_model_override cfg model then (Inl Override_Refused, s)
      else case pick_ordered cfg now (fo_circuit s) of
        (ordered, suppressed, degraded) \<Rightarrow>
          (case run_candidates cfg env degraded ordered (emit_skips suppressed (s\<lparr>fo_reasons := []\<rparr>)) of
             (Fo_Ok, s1) \<Rightarrow> (Inr (), s1)
           | (Fo_Throw e, s1) \<Rightarrow> (Inl e, s1)
           | (Fo_Next, s1) \<Rightarrow>
               (Inl (All_Exhausted (map ca_name (if ordered = [] then fc_candidates cfg else ordered)) (fo_reasons s1)), s1)))"

section \<open>What an attempt changes\<close>

named_theorems fo_simps \<open>effect of the elementary updates on the parts of the state\<close>

lemma put_circuit_simps [fo_simps]:
  "fo_sent (put_circuit p f s) = fo_sent s" "fo_budget (put_circuit p f s) = fo_budget s"
  "fo_circuit (put_circuit p f s) = (fo_circuit s)(p := f (fo_circuit s p))"
  by (simp_all add: put_circuit_def)

lemma emit_simps [fo_simps]:
  "fo_sent (emit es s) = fo_sent s" "fo_budget (emit es s) = fo_budget s" "fo_circuit (emit es s) = fo_circuit s" "fo_n (emit es s) = fo_n s"
  by (simp_all add: emit_def)

lemma record_success_simps [fo_simps]:
  "fo_sent (record_success p s) = fo_sent s" "fo_budget (record_success p s) = fo_budget s"
  "fo_circuit (record_success p s) = (fo_circuit s)(p := circuit_success (fo_circuit s p))"
  by (simp_all add: record_success_def Let_def fo_simps)

lemma record_failure_simps [fo_simps]:
  "fo_sent (record_failure p r s) = fo_sent s" "fo_budget (record_failure p r s) = fo_budget s"
  "fo_circuit (record_failure p r s) = (fo_circuit s)(p := circuit_auth r (circuit_long r (fo_circuit s p)))"
  by (simp_all add: record_failure_def Let_def fo_simps)

lemma open_circuit_simps [fo_simps]:
  "fo_sent (open_circuit cfg p r t s) = fo_sent s" "fo_budget (open_circuit cfg p r t s) = fo_budget s"
  "q \<noteq> p \<Longrightarrow> fo_circuit (open_circuit cfg p r t s) q = fo_circuit s q"
  "ci_quarantined (fo_circuit (open_circuit cfg p r t s) q) = ci_quarantined (fo_circuit s q)"
  by (simp_all add: open_circuit_def fo_simps)

lemma quarantined_step [fo_simps]:
  "ci_quarantined (circuit_success c) = ci_quarantined c" "ci_quarantined (circuit_long r c) = ci_quarantined c"
  by (simp_all add: circuit_success_def circuit_long_def)

lemma quarantined_auth: "ci_quarantined c \<Longrightarrow> ci_quarantined (circuit_auth r c)"
  by (simp add: circuit_auth_def Let_def)

definition budget_moved :: "nat \<Rightarrow> attempt_budget option \<Rightarrow> attempt_budget option \<Rightarrow> bool" where
  "budget_moved k x y = (case x of None \<Rightarrow> y = None
     | Some b \<Rightarrow> (case y of None \<Rightarrow> False | Some c \<Rightarrow> bu_max c = bu_max b \<and> bu_used c = bu_used b + k \<and> (bu_used b \<le> bu_max b \<longrightarrow> bu_used c \<le> bu_max c)))"

lemma budget_moved_refl [simp]: "budget_moved 0 x x"
  by (simp add: budget_moved_def split: option.split)

lemma budget_moved_trans: "budget_moved j x y \<Longrightarrow> budget_moved k y z \<Longrightarrow> budget_moved (j + k) x z"
  by (auto simp: budget_moved_def split: option.splits)

lemma budget_moved_note: "budget_moved k x y \<Longrightarrow> budget_moved k x (map_option (note_failure e) y)"
  by (auto simp: budget_moved_def note_failure_def split: option.splits)

text \<open>\<open>k\<close> requests went to provider \<open>p\<close>, and nothing else happened.\<close>

definition advanced :: "string \<Rightarrow> nat \<Rightarrow> failover_state \<Rightarrow> failover_state \<Rightarrow> bool" where
  "advanced p k s s' \<longleftrightarrow> fo_sent s' = fo_sent s @ replicate k p \<and> budget_moved k (fo_budget s) (fo_budget s') \<and>
     (\<forall>q. q \<noteq> p \<longrightarrow> fo_circuit s' q = fo_circuit s q) \<and> (\<forall>q. ci_quarantined (fo_circuit s q) \<longrightarrow> ci_quarantined (fo_circuit s' q))"

lemma advanced_refl [simp]: "advanced p 0 s s"
  by (simp add: advanced_def)

lemma advanced_trans: "advanced p j s s1 \<Longrightarrow> advanced p k s1 s2 \<Longrightarrow> advanced p (j + k) s s2"
  by (auto simp: advanced_def replicate_add budget_moved_trans)

lemma advanced_n [simp]: "advanced p k (s\<lparr>fo_n := n\<rparr>) s' = advanced p k s s'" "advanced p k s (s'\<lparr>fo_n := n\<rparr>) = advanced p k s s'"
  "advanced p k s (s'\<lparr>fo_reasons := rs\<rparr>) = advanced p k s s'"
  by (simp_all add: advanced_def)

lemma advanced_issue: "budget_throws s = None \<Longrightarrow> advanced p 1 s (issue p s)"
  by (auto simp: advanced_def issue_def budget_moved_def consume_def budget_throws_def budget_error_def exhausted_def split: option.splits if_splits)

lemma advanced_success: "advanced p k s s1 \<Longrightarrow> advanced p k s (record_success p s1)"
  by (auto simp: advanced_def fo_simps)

lemma advanced_note: "advanced p k s s1 \<Longrightarrow> advanced p k s (note_error e s1)"
  by (auto simp: advanced_def note_error_def budget_moved_note)

lemma advanced_failure: "advanced p k s s1 \<Longrightarrow> advanced p k s (record_failure p r s1)"
  by (auto simp: advanced_def fo_simps quarantined_auth)

lemma advanced_open: "advanced p k s s1 \<Longrightarrow> advanced p k s (open_circuit cfg p r t s1)"
  by (auto simp: advanced_def fo_simps)

lemma advanced_failed:
  assumes "advanced p k s s0"
  shows "case attempt_failed cfg p final a e s0 of Inl (out, s1) \<Rightarrow> advanced p k s s1 | Inr s1 \<Rightarrow> advanced p k s s1"
proof -
  have "advanced p k s (record_failure p r (note_error (Raw e) s0\<lparr>fo_reasons := rs\<rparr>))" for r rs
    using advanced_note [OF assms, of "Raw e"] by (intro advanced_failure) simp
  then show ?thesis using advanced_note [OF assms, of "Raw e"] by (simp add: attempt_failed_def Let_def advanced_open)
qed

lemma candidate_attempts_advanced: "\<exists>k\<le>left. advanced p k s (snd (candidate_attempts cfg env p left s))"
proof (induction left arbitrary: s)
  case (Suc left)
  let ?a = "env (fo_n s)" and ?s0 = "s\<lparr>fo_n := Suc (fo_n s)\<rparr>"
  have retry: "\<exists>k\<le>Suc left. advanced p k s (snd (case attempt_failed cfg p (left = 0) ?a e s1 of Inl out \<Rightarrow> out | Inr s2 \<Rightarrow> candidate_attempts cfg env p left s2))"
    if "advanced p j s s1" "j \<le> 1" for e s1 j
  proof (cases "attempt_failed cfg p (left = 0) ?a e s1")
    case (Inl out)
    then show ?thesis using advanced_failed [OF that(1), of cfg "left = 0" ?a e] that(2)
      by (cases out) (auto intro!: exI [of _ j])
  next
    case (Inr s2)
    obtain k where "k \<le> left" "advanced p k s2 (snd (candidate_attempts cfg env p left s2))" using Suc.IH by blast
    moreover have "advanced p j s s2" using advanced_failed [OF that(1), of cfg "left = 0" ?a e] Inr by simp
    ultimately have "advanced p (j + k) s (snd (candidate_attempts cfg env p left s2))" "j + k \<le> Suc left"
      using advanced_trans that(2) by auto
    then show ?thesis using Inr by (auto intro!: exI [of _ "j + k"])
  qed
  show ?case
  proof (cases "ae_aborted ?a \<or> budget_throws s \<noteq> None")
    case True
    then show ?thesis by (intro exI [of _ 0]) (auto simp: Let_def split: option.split)
  next
    case False
    then have i: "advanced p 1 s (issue p ?s0)" using advanced_issue [of ?s0 p] by (simp add: budget_throws_def)
    show ?thesis
    proof (cases "ae_result ?a")
      case Answered
      then show ?thesis using False advanced_success [OF i] by (intro exI [of _ 1]) (simp add: Let_def)
    next
      case (Call_Failed e)
      then show ?thesis using False retry [OF i] by (simp add: Let_def)
    next
      case (Not_Issued e)
      then show ?thesis using False retry [of 0 ?s0] by (simp add: Let_def)
    qed
  qed
qed (intro exI [of _ 0], simp)

text \<open>The same for a plan: \<open>new\<close> are the requests, each provider gets at most \<open>m\<close> per place in the plan.\<close>

definition plan_ran :: "nat \<Rightarrow> string list \<Rightarrow> failover_state \<Rightarrow> failover_state \<Rightarrow> bool" where
  "plan_ran m ps s s' \<longleftrightarrow> (\<exists>new. fo_sent s' = fo_sent s @ new \<and> budget_moved (length new) (fo_budget s) (fo_budget s') \<and>
     (\<forall>p. count_list new p \<le> m * count_list ps p) \<and>
     (\<forall>q. ci_quarantined (fo_circuit s q) \<longrightarrow> ci_quarantined (fo_circuit s' q)))"

lemma plan_ran_Nil: "fo_sent s' = fo_sent s \<Longrightarrow> fo_budget s' = fo_budget s \<Longrightarrow> fo_circuit s' = fo_circuit s \<Longrightarrow> plan_ran m ps s s'"
  unfolding plan_ran_def by (intro exI [of _ "[]"]) simp

lemma count_list_replicate: "count_list (replicate k p) q = (if p = q then k else 0)"
  by (induction k) auto

lemma count_list_app: "count_list (xs @ ys) p = count_list xs p + count_list ys p"
  by (induction xs) auto

lemma plan_ran_advanced: "advanced p k s s1 \<Longrightarrow> k \<le> m \<Longrightarrow> plan_ran m (p # ps) s s1"
  unfolding plan_ran_def advanced_def by (intro exI [of _ "replicate k p"]) (auto simp: count_list_replicate)

lemma plan_ran_step:
  assumes "advanced p k s s1" "k \<le> m" "plan_ran m ps s1 s2"
  shows "plan_ran m (p # ps) s s2"
proof -
  obtain new where new: "fo_sent s2 = fo_sent s1 @ new" "budget_moved (length new) (fo_budget s1) (fo_budget s2)"
    "\<And>q. count_list new q \<le> m * count_list ps q" "\<And>q. ci_quarantined (fo_circuit s1 q) \<Longrightarrow> ci_quarantined (fo_circuit s2 q)"
    using assms(3) unfolding plan_ran_def by blast
  have "budget_moved (length (replicate k p @ new)) (fo_budget s) (fo_budget s2)"
    using assms(1) new(2) budget_moved_trans unfolding advanced_def by auto
  moreover have "count_list (replicate k p @ new) q \<le> m * count_list (p # ps) q" for q
    using new(3) [of q] assms(2) by (simp add: count_list_app count_list_replicate)
  ultimately show ?thesis
    unfolding plan_ran_def using assms(1) new(1,4) by (intro exI [of _ "replicate k p @ new"]) (simp add: advanced_def)
qed

lemma run_candidates_ran:
  "plan_ran (if degraded then 1 else fc_max_attempts cfg) (map ca_name cs) s (snd (run_candidates cfg env degraded cs s))"
proof (induction cs arbitrary: s)
  case (Cons c cs)
  let ?m = "if degraded then 1 else fc_max_attempts cfg"
  show ?case
  proof (cases "ae_aborted (env (fo_n s)) \<or> budget_throws s \<noteq> None")
    case True
    then show ?thesis by (intro plan_ran_Nil) (auto split: option.split)
  next
    case False
    obtain out s1 where call: "candidate_attempts cfg env (ca_name c) ?m s = (out, s1)" by force
    obtain k where k: "k \<le> ?m" "advanced (ca_name c) k s s1" using candidate_attempts_advanced [of ?m "ca_name c" s cfg env] call by auto
    have "plan_ran ?m (map ca_name (c # cs)) s s1" using plan_ran_advanced [OF k(2,1)] by simp
    moreover have "plan_ran ?m (map ca_name (c # cs)) s (snd (run_candidates cfg env degraded cs s1))" using plan_ran_step [OF k(2,1) Cons.IH] by simp
    ultimately show ?thesis using False call by (cases out) (simp_all split: if_splits)
  qed
qed (simp add: plan_ran_Nil)

lemma emit_skips_simps [fo_simps]:
  "fo_sent (emit_skips cs s) = fo_sent s" "fo_budget (emit_skips cs s) = fo_budget s" "fo_circuit (emit_skips cs s) = fo_circuit s" "fo_n (emit_skips cs s) = fo_n s"
  by (simp_all add: emit_skips_def fo_simps)

lemma run_failover_ran:
  assumes "pick_ordered cfg now (fo_circuit s) = (ordered, suppressed, degraded)"
  shows "plan_ran (if degraded then 1 else fc_max_attempts cfg) (map ca_name ordered) s (snd (run_failover cfg env model now s))"
proof (cases "validate_model_override cfg model")
  case True
  let ?s = "emit_skips suppressed (s\<lparr>fo_reasons := []\<rparr>)"
  have "plan_ran (if degraded then 1 else fc_max_attempts cfg) (map ca_name ordered) ?s (snd (run_candidates cfg env degraded ordered ?s))"
    by (rule run_candidates_ran)
  then have "plan_ran (if degraded then 1 else fc_max_attempts cfg) (map ca_name ordered) s (snd (run_candidates cfg env degraded ordered ?s))"
    by (simp add: plan_ran_def fo_simps)
  moreover obtain out s1 where "run_candidates cfg env degraded ordered ?s = (out, s1)" by force
  ultimately show ?thesis using True assms by (cases out) (simp_all add: run_failover_def)
qed (simp add: run_failover_def plan_ran_Nil)

lemma plan_subset:
  assumes "pick_ordered cfg now ci = (ordered, suppressed, degraded)"
  shows "set ordered \<subseteq> {c \<in> set (fc_candidates cfg). \<not> ci_quarantined (ci (ca_name c))}"
    and "degraded \<longleftrightarrow> ordered \<noteq> [] \<and> filter (healthy now ci) (fc_candidates cfg) = []"
    and "ordered = [] \<longleftrightarrow> filter (eligible ci) (fc_candidates cfg) = []"
proof -
  have "healthy now ci c \<Longrightarrow> eligible ci c" for c by (simp add: healthy_def eligible_def)
  then show "set ordered \<subseteq> {c \<in> set (fc_candidates cfg). \<not> ci_quarantined (ci (ca_name c))}"
    "degraded \<longleftrightarrow> ordered \<noteq> [] \<and> filter (healthy now ci) (fc_candidates cfg) = []"
    "ordered = [] \<longleftrightarrow> filter (eligible ci) (fc_candidates cfg) = []"
    using assms unfolding pick_ordered_def Let_def by (auto simp: eligible_def healthy_def filter_empty_conv split: if_splits)
qed

lemma count_list_names: "distinct (map ca_name (fc_candidates cfg)) \<Longrightarrow> pick_ordered cfg now ci = (ordered, suppressed, degraded) \<Longrightarrow>
    count_list (map ca_name ordered) p \<le> 1"
proof -
  assume d: "distinct (map ca_name (fc_candidates cfg))" and p: "pick_ordered cfg now ci = (ordered, suppressed, degraded)"
  have "distinct (map ca_name ordered)"
    using d p unfolding pick_ordered_def Let_def by (auto simp: distinct_map_filter split: if_splits)
  moreover have "distinct xs \<Longrightarrow> count_list xs p \<le> 1" for xs by (induction xs) auto
  ultimately show ?thesis by blast
qed

text \<open>C36: One call of the failover adapter issues at most as many provider requests as the shared
  attempt budget has left and counts every one of them, never calls a quarantined provider, asks each provider at
  most \<open>maxAttempts\<close> times, and at most once when every provider is cooling down.
\<close>

theorem failover_requests_bounded:
  assumes "distinct (map ca_name (fc_candidates cfg))" "fo_budget s = Some b" "bu_used b \<le> bu_max b"
  shows "\<exists>new b'. fo_sent (snd (run_failover cfg env model now s)) = fo_sent s @ new \<and>
    fo_budget (snd (run_failover cfg env model now s)) = Some b' \<and> bu_used b' = bu_used b + length new \<and> bu_used b' \<le> bu_max b \<and>
    list_all (\<lambda>p. \<not> ci_quarantined (fo_circuit s p)) new \<and>
    (\<forall>p. count_list new p \<le> (if filter (healthy now (fo_circuit s)) (fc_candidates cfg) = [] then 1 else fc_max_attempts cfg))"
proof -
  obtain ordered suppressed degraded where plan: "pick_ordered cfg now (fo_circuit s) = (ordered, suppressed, degraded)" by (metis prod_cases3)
  let ?m = "if degraded then 1 else fc_max_attempts cfg" and ?s = "snd (run_failover cfg env model now s)"
  obtain new where new: "fo_sent ?s = fo_sent s @ new" "budget_moved (length new) (fo_budget s) (fo_budget ?s)"
    "\<And>p. count_list new p \<le> ?m * count_list (map ca_name ordered) p"
    using run_failover_ran [OF plan] unfolding plan_ran_def by metis
  obtain b' where b': "fo_budget ?s = Some b'" "bu_used b' = bu_used b + length new" "bu_used b' \<le> bu_max b"
    using new(2) assms(2,3) by (auto simp: budget_moved_def split: option.splits)
  have planned: "p \<in> ca_name ` set ordered" if "p \<in> set new" for p
  proof -
    have "count_list new p \<noteq> 0" using that by (simp add: count_list_0_iff)
    then have "count_list (map ca_name ordered) p \<noteq> 0" using new(3) [of p] by (metis le_zero_eq mult_0_right)
    then show ?thesis by (auto simp: count_list_0_iff)
  qed
  have quarantine: "list_all (\<lambda>p. \<not> ci_quarantined (fo_circuit s p)) new"
    using planned plan_subset(1) [OF plan] by (fastforce simp: list_all_iff)
  have count: "count_list new p \<le> (if filter (healthy now (fo_circuit s)) (fc_candidates cfg) = [] then 1 else fc_max_attempts cfg)" for p
  proof (cases "ordered = []")
    case True
    then show ?thesis using new(3) [of p] by simp
  next
    case False
    have "count_list new p \<le> ?m * 1" using new(3) [of p] count_list_names [OF assms(1) plan, of p] by (meson le_trans mult_le_mono2)
    then show ?thesis using plan_subset(2) [OF plan] False by simp
  qed
  show ?thesis using new(1) b' quarantine count by blast
qed

definition sample_failover :: failover_config where
  "sample_failover = \<lparr>fc_candidates = [\<lparr>ca_name = ''a'', ca_model = ''m''\<rparr>, \<lparr>ca_name = ''b'', ca_model = ''n''\<rparr>],
     fc_cooldown_long = 600000, fc_cooldown_short = 5000, fc_max_attempts = 2\<rparr>"

definition sample_failover_state :: failover_state where
  "sample_failover_state = \<lparr>fo_circuit = (\<lambda>p. fresh_circuit), fo_budget = Some \<lparr>bu_max = 3, bu_used = 0, bu_last = None\<rparr>,
     fo_n = 0, fo_sent = [], fo_reasons = [], fo_outcomes = [], fo_events = []\<rparr>"

definition status_error :: "int \<Rightarrow> raw_error" where
  "status_error st = \<lparr>er_name = ''Error'', er_status = Some st, er_message = None, er_code = None\<rparr>"

definition always_fails :: "int \<Rightarrow> nat \<Rightarrow> attempt_env" where
  "always_fails st n = \<lparr>ae_aborted = False, ae_reason = status_error 0, ae_result = Call_Failed (status_error st),
     ae_aborted_after = False, ae_clock = 0, ae_sleep_aborted = False\<rparr>"

theorem failover_requests_bounded_witness:
  "\<exists>new b'. fo_sent (snd (run_failover sample_failover (always_fails 500) None 0 sample_failover_state)) = fo_sent sample_failover_state @ new \<and>
    fo_budget (snd (run_failover sample_failover (always_fails 500) None 0 sample_failover_state)) = Some b' \<and>
    bu_used b' = bu_used \<lparr>bu_max = 3, bu_used = 0, bu_last = None\<rparr> + length new \<and> bu_used b' \<le> bu_max \<lparr>bu_max = 3, bu_used = 0, bu_last = None\<rparr> \<and>
    list_all (\<lambda>p. \<not> ci_quarantined (fo_circuit sample_failover_state p)) new \<and>
    (\<forall>p. count_list new p \<le> (if filter (healthy 0 (fo_circuit sample_failover_state)) (fc_candidates sample_failover) = [] then 1 else fc_max_attempts sample_failover))"
  by (rule failover_requests_bounded) (simp_all add: sample_failover_def sample_failover_state_def)

section \<open>A sequence of requests\<close>

record failover_request =
  fr_env :: "nat \<Rightarrow> attempt_env"
  fr_model :: "string option"
  fr_now :: millis
  fr_budget :: "attempt_budget option"

definition serve_request :: "failover_config \<Rightarrow> failover_request \<Rightarrow> failover_state \<Rightarrow> failover_state" where
  "serve_request cfg rq s = snd (run_failover cfg (fr_env rq) (fr_model rq) (fr_now rq) (s\<lparr>fo_budget := fr_budget rq, fo_n := 0\<rparr>))"

definition serve_requests :: "failover_config \<Rightarrow> failover_request list \<Rightarrow> failover_state \<Rightarrow> failover_state" where
  "serve_requests cfg rqs s = fold (serve_request cfg) rqs s"

lemma serve_request_quarantine:
  assumes "ci_quarantined (fo_circuit s p)"
  shows "ci_quarantined (fo_circuit (serve_request cfg rq s) p)"
    and "\<exists>new. fo_sent (serve_request cfg rq s) = fo_sent s @ new \<and> p \<notin> set new"
proof -
  let ?s = "s\<lparr>fo_budget := fr_budget rq, fo_n := 0\<rparr>"
  obtain ordered suppressed degraded where plan: "pick_ordered cfg (fr_now rq) (fo_circuit ?s) = (ordered, suppressed, degraded)" by (metis prod_cases3)
  obtain new where new: "fo_sent (serve_request cfg rq s) = fo_sent ?s @ new"
    "\<And>q. count_list new q \<le> (if degraded then 1 else fc_max_attempts cfg) * count_list (map ca_name ordered) q"
    "\<And>q. ci_quarantined (fo_circuit ?s q) \<Longrightarrow> ci_quarantined (fo_circuit (serve_request cfg rq s) q)"
    using run_failover_ran [OF plan, of "fr_env rq" "fr_model rq"] unfolding serve_request_def plan_ran_def by metis
  have "p \<notin> ca_name ` set ordered" using plan_subset(1) [OF plan] assms by auto
  then have "count_list (map ca_name ordered) p = 0" by (simp add: count_list_0_iff)
  then have "count_list new p = 0" using new(2) [of p] by simp
  then have "p \<notin> set new" by (simp add: count_list_0_iff)
  then show "\<exists>new. fo_sent (serve_request cfg rq s) = fo_sent s @ new \<and> p \<notin> set new" using new(1) by auto
  show "ci_quarantined (fo_circuit (serve_request cfg rq s) p)" using new(3) assms by simp
qed

text \<open>C37: A quarantined provider stays quarantined and receives no further request for the rest of the process,
  whatever requests follow.
\<close>

theorem quarantine_is_final:
  assumes "ci_quarantined (fo_circuit s p)"
  shows "ci_quarantined (fo_circuit (serve_requests cfg rqs s) p) \<and> (\<exists>new. fo_sent (serve_requests cfg rqs s) = fo_sent s @ new \<and> p \<notin> set new)"
  using assms
proof (induction rqs arbitrary: s)
  case (Cons rq rqs)
  obtain new where new: "fo_sent (serve_request cfg rq s) = fo_sent s @ new" "p \<notin> set new"
    using serve_request_quarantine(2) [OF Cons.prems] by blast
  obtain more where more: "fo_sent (serve_requests cfg rqs (serve_request cfg rq s)) = fo_sent (serve_request cfg rq s) @ more" "p \<notin> set more"
    using Cons.IH [OF serve_request_quarantine(1) [OF Cons.prems]] by blast
  have "fo_sent (serve_requests cfg (rq # rqs) s) = fo_sent s @ (new @ more)" using new more by (simp add: serve_requests_def)
  moreover have "ci_quarantined (fo_circuit (serve_requests cfg (rq # rqs) s) p)"
    using Cons.IH [OF serve_request_quarantine(1) [OF Cons.prems]] by (simp add: serve_requests_def)
  ultimately show ?case using new(2) more(2) by (intro conjI exI [of _ "new @ more"]) simp_all
qed (simp add: serve_requests_def)

definition failing_request :: "int \<Rightarrow> millis \<Rightarrow> failover_request" where
  "failing_request st now = \<lparr>fr_env = always_fails st, fr_model = None, fr_now = now, fr_budget = None\<rparr>"

theorem quarantine_is_final_witness:
  "ci_quarantined (fo_circuit (serve_requests sample_failover [failing_request 401 0, failing_request 401 1, failing_request 401 2] sample_failover_state) ''a'') \<and>
   ci_quarantined (fo_circuit (serve_requests sample_failover [failing_request 500 9]
      (serve_requests sample_failover [failing_request 401 0, failing_request 401 1, failing_request 401 2] sample_failover_state)) ''a'') \<and>
   (\<exists>new. fo_sent (serve_requests sample_failover [failing_request 500 9]
        (serve_requests sample_failover [failing_request 401 0, failing_request 401 1, failing_request 401 2] sample_failover_state))
      = fo_sent (serve_requests sample_failover [failing_request 401 0, failing_request 401 1, failing_request 401 2] sample_failover_state) @ new \<and> ''a'' \<notin> set new)"
proof -
  have q: "ci_quarantined (fo_circuit (serve_requests sample_failover [failing_request 401 0, failing_request 401 1, failing_request 401 2] sample_failover_state) ''a'')"
    by code_simp
  show ?thesis using q quarantine_is_final [OF q] by blast
qed

section \<open>How a call ends\<close>

definition cooling :: "failover_state \<Rightarrow> string \<Rightarrow> bool" where
  "cooling s p \<longleftrightarrow> ci_quarantined (fo_circuit s p) \<or> ci_opened (fo_circuit s p)"

definition serving :: "failover_state \<Rightarrow> string \<Rightarrow> bool" where
  "serving s p \<longleftrightarrow> fo_sent s \<noteq> [] \<and> last (fo_sent s) = p \<and> \<not> ci_opened (fo_circuit s p) \<and> ci_healthy_at (fo_circuit s p) = Some 0"

lemma attempt_failed_cases:
  assumes "attempt_failed cfg p final a e s = x"
  shows "case x of Inl (Fo_Next, s1) \<Rightarrow> cooling s1 p | Inl (Fo_Throw er, s1) \<Rightarrow> er = Raw e \<or> er = Raw (ae_reason a) | Inl (Fo_Ok, s1) \<Rightarrow> False | Inr s1 \<Rightarrow> \<not> final"
proof -
  have "cooling (open_circuit cfg p r t s1) p" for r t s1 by (simp add: cooling_def open_circuit_def fo_simps)
  then show ?thesis using assms by (auto simp: attempt_failed_def Let_def)
qed

lemma candidate_attempts_end:
  assumes "candidate_attempts cfg env p left s = (out, s')"
  shows "case out of Fo_Ok \<Rightarrow> serving s' p | Fo_Next \<Rightarrow> left = 0 \<or> cooling s' p | Fo_Throw e \<Rightarrow> (\<exists>r. e = Raw r) \<or> budget_exhausted s'"
  using assms
proof (induction left arbitrary: s)
  case (Suc left s)
  let ?s0 = "s\<lparr>fo_n := Suc (fo_n s)\<rparr>"
  have retry: ?case
    if "(case attempt_failed cfg p (left = 0) (env (fo_n s)) e s1 of Inl out \<Rightarrow> out | Inr s2 \<Rightarrow> candidate_attempts cfg env p left s2) = (out, s')" for e s1
    using that Suc.IH attempt_failed_cases [of cfg p "left = 0" "env (fo_n s)" e s1, OF refl]
    by (cases "attempt_failed cfg p (left = 0) (env (fo_n s)) e s1") (auto split: failover_end.splits)
  show ?case
  proof (cases "ae_aborted (env (fo_n s)) \<or> budget_throws s \<noteq> None")
    case True
    then show ?thesis using Suc.prems
      by (auto simp: Let_def budget_throws_def budget_error_def budget_exhausted_def split: option.splits if_splits)
  next
    case False
    show ?thesis
    proof (cases "ae_result (env (fo_n s))")
      case Answered
      then show ?thesis using Suc.prems False by (auto simp: Let_def serving_def fo_simps circuit_success_def issue_def)
    qed (use Suc.prems False retry in \<open>simp_all add: Let_def\<close>)
  qed
qed simp

declare candidate_attempts.simps [simp del]

lemma run_candidates_Cons:
  assumes "candidate_attempts cfg env (ca_name c) (if degraded then 1 else fc_max_attempts cfg) s = (out, s1)"
  shows "run_candidates cfg env degraded (c # cs) s =
    (if ae_aborted (env (fo_n s)) then (Fo_Throw (Raw (ae_reason (env (fo_n s)))), s)
     else case budget_throws s of Some e \<Rightarrow> (Fo_Throw e, s)
     | None \<Rightarrow> if out = Fo_Next \<and> \<not> budget_exhausted s1 then run_candidates cfg env degraded cs s1 else (out, s1))"
  unfolding run_candidates.simps assms by (cases out) (simp_all split: option.split)

lemma serving_unchanged: "advanced q k s s' \<Longrightarrow> q \<noteq> p \<Longrightarrow> cooling s p \<Longrightarrow> cooling s' p"
  by (simp add: advanced_def cooling_def)

lemma cooling_kept:
  assumes "cooling s p" "p \<notin> ca_name ` set cs"
  shows "cooling (snd (run_candidates cfg env degraded cs s)) p"
  using assms
proof (induction cs arbitrary: s)
  case (Cons c cs)
  let ?m = "if degraded then 1 else fc_max_attempts cfg"
  obtain out s1 where call: "candidate_attempts cfg env (ca_name c) ?m s = (out, s1)" by force
  have "cooling s1 p"
    using candidate_attempts_advanced [of ?m "ca_name c" s cfg env] call Cons.prems serving_unchanged by fastforce
  then have "cooling (snd (run_candidates cfg env degraded cs s1)) p" using Cons by simp
  then show ?case unfolding run_candidates_Cons [OF call] using Cons.prems(1) \<open>cooling s1 p\<close> by (simp split: option.split)
qed simp

lemma run_candidates_end:
  assumes "run_candidates cfg env degraded cs s = (out, s')" "0 < fc_max_attempts cfg" "distinct (map ca_name cs)"
  shows "case out of Fo_Ok \<Rightarrow> (\<exists>c\<in>set cs. serving s' (ca_name c))
    | Fo_Next \<Rightarrow> budget_exhausted s' \<or> (\<forall>c\<in>set cs. cooling s' (ca_name c)) | Fo_Throw e \<Rightarrow> (\<exists>r. e = Raw r) \<or> budget_exhausted s'"
  using assms(1,3)
proof (induction cs arbitrary: s)
  case (Cons c cs)
  let ?m = "if degraded then 1 else fc_max_attempts cfg"
  show ?case
  proof (cases "ae_aborted (env (fo_n s)) \<or> budget_throws s \<noteq> None")
    case True
    then show ?thesis using Cons.prems
      by (auto simp: budget_throws_def budget_error_def budget_exhausted_def split: option.splits if_splits)
  next
    case False
    obtain out1 s1 where call: "candidate_attempts cfg env (ca_name c) ?m s = (out1, s1)" by force
    have ends: "case out1 of Fo_Ok \<Rightarrow> serving s1 (ca_name c) | Fo_Next \<Rightarrow> cooling s1 (ca_name c) | Fo_Throw e \<Rightarrow> (\<exists>r. e = Raw r) \<or> budget_exhausted s1"
      using candidate_attempts_end [OF call] assms(2) by (auto split: failover_end.splits if_splits)
    note step = Cons.prems(1) [unfolded run_candidates_Cons [OF call]]
    show ?thesis
    proof (cases "out1 = Fo_Next \<and> \<not> budget_exhausted s1")
      case True
      then have rec: "run_candidates cfg env degraded cs s1 = (out, s')" using step False by simp
      have "cooling s' (ca_name c)" using cooling_kept [of s1 "ca_name c" cs cfg env degraded] ends True Cons.prems(2) rec by auto
      then show ?thesis using Cons.IH [OF rec] Cons.prems(2) by (auto split: failover_end.splits)
    next
      case other: False
      then have "out = out1" "s' = s1" using step False by auto
      then show ?thesis using ends other by (auto split: failover_end.splits)
    qed
  qed
qed simp

text \<open>C38: The failover adapter answers only from a planned provider it has just asked and whose circuit it leaves
  closed, and it reports all providers exhausted only when the attempt budget is spent or every
  planned provider has been put into cooldown or quarantine.
\<close>

theorem failover_ends_truthfully:
  assumes "distinct (map ca_name (fc_candidates cfg))" "0 < fc_max_attempts cfg"
    and "pick_ordered cfg now (fo_circuit s) = (ordered, suppressed, degraded)"
  shows "case run_failover cfg env model now s of
      (Inr _, s') \<Rightarrow> list_ex (\<lambda>c. serving s' (ca_name c)) ordered
    | (Inl (All_Exhausted ps rs), s') \<Rightarrow> budget_exhausted s' \<or> list_all (\<lambda>c. cooling s' (ca_name c)) ordered
    | _ \<Rightarrow> True"
proof -
  let ?s = "emit_skips suppressed (s\<lparr>fo_reasons := []\<rparr>)"
  have d: "distinct (map ca_name ordered)"
    using assms(1,3) unfolding pick_ordered_def Let_def by (auto simp: distinct_map_filter split: if_splits)
  obtain out s' where run: "run_candidates cfg env degraded ordered ?s = (out, s')" by force
  note ends = run_candidates_end [OF run assms(2) d]
  show ?thesis
    using ends run assms(3) by (cases out) (auto simp: run_failover_def list_all_iff list_ex_iff split: llm_error.splits)
qed

theorem failover_ends_truthfully_witness:
  "case run_failover sample_failover (always_fails 500) None 0 sample_failover_state of
      (Inr _, s') \<Rightarrow> list_ex (\<lambda>c. serving s' (ca_name c)) (fst (pick_ordered sample_failover 0 (fo_circuit sample_failover_state)))
    | (Inl (All_Exhausted ps rs), s') \<Rightarrow> budget_exhausted s' \<or>
        list_all (\<lambda>c. cooling s' (ca_name c)) (fst (pick_ordered sample_failover 0 (fo_circuit sample_failover_state)))
    | _ \<Rightarrow> True"
  by (rule failover_ends_truthfully [where suppressed = "fst (snd (pick_ordered sample_failover 0 (fo_circuit sample_failover_state)))"
        and degraded = "snd (snd (pick_ordered sample_failover 0 (fo_circuit sample_failover_state)))"]) (simp_all add: sample_failover_def)

text \<open>A request that every provider rejects as malformed opens the circuits of all of them: the
  short cooldown does not look at the reason, so a learner's payload takes healthy providers out of the plan of others.
\<close>

theorem bad_request_cools_healthy_providers:
  "case run_failover sample_failover (always_fails 400) None 0 (sample_failover_state\<lparr>fo_budget := None\<rparr>) of
     (res, s') \<Rightarrow> res = Inl (All_Exhausted [''a'', ''b''] [R_Bad_Request, R_Bad_Request, R_Bad_Request, R_Bad_Request]) \<and>
       ci_healthy_at (fo_circuit s' ''a'') = Some 5000 \<and> ci_healthy_at (fo_circuit s' ''b'') = Some 5000 \<and>
       snd (snd (pick_ordered sample_failover 1 (fo_circuit s')))"
  by code_simp

end
