(* ===== verification/Llm_Execution.thy ===== *)
theory Llm_Execution
  imports Llm_Failover Webhook_Inbox
begin

text \<open>
  One execution of a model call behind its admission
  (\<open>packages/llm-agent/src/execution/env-llm-execution.port.ts\<close>): the retry loop of \<open>retry.ts\<close>, the
  attribution of its failure (\<open>execution/failure-attribution.ts\<close>) and the execution circuit shared by
  all calls of the process. The callback \<open>fn\<close> of \<open>run\<close> is an argument, as it is in the code; the
  callback of the chat agent (\<open>agent.service.ts\<close>) goes to the failover adapter.
\<close>

section \<open>Retry\<close>

record retry_env =
  rn_aborted :: bool
  rn_reason :: raw_error
  rn_aborted_after :: bool
  rn_timed_out :: bool
  rn_deadline_during :: bool
  rn_sleep_aborted :: bool

text \<open>\<open>tk_failure\<close> and \<open>tk_deadline\<close> are the two flags of the failure tracker.\<close>

record tracker =
  tk_failure :: bool
  tk_deadline :: bool

definition fresh_tracker :: tracker where
  "fresh_tracker = \<lparr>tk_failure = False, tk_deadline = False\<rparr>"

definition capped_exponential_backoff :: "int \<Rightarrow> int \<Rightarrow> nat \<Rightarrow> int" where
  "capped_exponential_backoff base cap attempt = min (base * 2 ^ (attempt - 1)) cap"

definition retry_delay :: "int \<Rightarrow> int \<Rightarrow> nat \<Rightarrow> rat \<Rightarrow> rat" where
  "retry_delay base cap attempt rng = jittered_delay_ms (capped_exponential_backoff base cap attempt) rng"

definition tracker_run :: "retry_env \<Rightarrow> tracker \<Rightarrow> (llm_error + 'a) \<Rightarrow> tracker" where
  "tracker_run e tk res = tk\<lparr>tk_failure := (tk_failure tk \<or> (case res of Inl x \<Rightarrow> True | Inr y \<Rightarrow> False)),
                            tk_deadline := (tk_deadline tk \<or> rn_deadline_during e)\<rparr>"

definition abort_like :: "llm_error \<Rightarrow> bool" where
  "abort_like er = (case er of Raw e \<Rightarrow> is_abort_error e | _ \<Rightarrow> False)"

text \<open>\<open>retryable\<close> is \<open>isRetryableError\<close> of the adapter in use. \<open>None\<close> is the \<open>undefined\<close> thrown when no attempt is allowed.\<close>

fun retry_with_backoff ::
    "(llm_error \<Rightarrow> bool) \<Rightarrow> (nat \<Rightarrow> retry_env) \<Rightarrow> (failover_state \<Rightarrow> (llm_error + 'a) \<times> failover_state) \<Rightarrow> nat \<Rightarrow> nat \<Rightarrow> llm_error option \<Rightarrow>
     tracker \<Rightarrow> failover_state \<Rightarrow> (llm_error option + 'a) \<times> tracker \<times> failover_state" where
  "retry_with_backoff retryable env fn 0 attempt last_error tk s = (Inl last_error, tk, s)"
| "retry_with_backoff retryable env fn (Suc left) attempt last_error tk s =
     (let e = env attempt in
      if rn_aborted e then (Inl (Some (Raw (rn_reason e))), tk, s)
      else case budget_throws s of
        Some er \<Rightarrow> (Inl (Some er), tk, s)
      | None \<Rightarrow>
          (case fn s of
             (Inr y, s1) \<Rightarrow> (Inr y, tracker_run e tk (Inr y :: llm_error + 'a), s1)
           | (Inl er, s1) \<Rightarrow>
               (let tk1 = tracker_run e tk (Inl er :: llm_error + 'a); s2 = note_error er s1 in
                if rn_aborted_after e \<or> (abort_like er \<and> \<not> rn_timed_out e) \<or> \<not> retryable er \<or> left = 0 \<or> budget_exhausted s2
                then (Inl (Some er), tk1, s2)
                else if rn_sleep_aborted e then (Inl (Some (Raw (rn_reason e))), fresh_tracker, s2)
                else retry_with_backoff retryable env fn left (Suc attempt) (Some er) fresh_tracker s2)))"

text \<open>The callback of the chat agent, and the retry decision of the failover adapter: never.\<close>

definition chat_call :: "failover_config \<Rightarrow> (nat \<Rightarrow> attempt_env) \<Rightarrow> string option \<Rightarrow> millis \<Rightarrow> failover_state \<Rightarrow> (llm_error + unit) \<times> failover_state" where
  "chat_call cfg env model now s =
     (if ae_aborted (env (fo_n s)) then (Inl (Raw (ae_reason (env (fo_n s)))), s)
      else case budget_throws s of Some er \<Rightarrow> (Inl er, s) | None \<Rightarrow> run_failover cfg env model now s)"

definition failover_retryable :: "llm_error \<Rightarrow> bool" where
  "failover_retryable er = False"

definition single_provider_retryable :: "llm_error \<Rightarrow> bool" where
  "single_provider_retryable er = (case er of Raw e \<Rightarrow> is_retryable_error e | _ \<Rightarrow> False)"

section \<open>Attribution\<close>

datatype failure_kind = Kind_Provider | Kind_Caller_Cancellation | Kind_Non_Provider

record failure_class =
  fk_kind :: failure_kind
  fk_reason :: "provider_reason option"
  fk_counts :: bool

text \<open>The reasons a terminal error carries; an error without a status normalizes to \<open>unknown\<close>.\<close>

definition failure_reasons :: "llm_error \<Rightarrow> provider_reason list" where
  "failure_reasons er =
     (case er of
        All_Exhausted ps rs \<Rightarrow> if rs \<noteq> [] then rs else [R_Unknown]
      | Raw e \<Rightarrow> [normalize_error e]
      | _ \<Rightarrow> [R_Unknown])"

definition classify_provider_failure :: "llm_error \<Rightarrow> failure_class" where
  "classify_provider_failure er =
     (let h = find (\<lambda>r. r \<noteq> R_Bad_Request) (failure_reasons er)
      in \<lparr>fk_kind = Kind_Provider, fk_reason = Some (case h of None \<Rightarrow> R_Bad_Request | Some r \<Rightarrow> r), fk_counts = (h \<noteq> None)\<rparr>)"

definition non_provider :: failure_class where
  "non_provider = \<lparr>fk_kind = Kind_Non_Provider, fk_reason = None, fk_counts = False\<rparr>"

definition classify_failure :: "bool \<Rightarrow> bool \<Rightarrow> tracker \<Rightarrow> llm_error \<Rightarrow> failure_class" where
  "classify_failure caller_aborted deadline_aborted tk er =
     (if caller_aborted then \<lparr>fk_kind = Kind_Caller_Cancellation, fk_reason = None, fk_counts = False\<rparr>
      else if tk_failure tk then classify_provider_failure er
      else if deadline_aborted \<and> \<not> tk_deadline tk then non_provider
      else if tk_deadline tk then classify_provider_failure er
      else non_provider)"

section \<open>The execution circuit\<close>

text \<open>\<open>xc_opened_at = 0\<close> is the closed circuit, as in the code.\<close>

record exec_circuit =
  xc_failures :: nat
  xc_opened_at :: millis
  xc_half_open :: bool

definition exec_circuit_threshold :: nat where
  "exec_circuit_threshold = 3"

definition exec_circuit_reset_ms :: millis where
  "exec_circuit_reset_ms = 60000"

definition closed_circuit :: exec_circuit where
  "closed_circuit = \<lparr>xc_failures = 0, xc_opened_at = 0, xc_half_open = False\<rparr>"

datatype circuit_refusal = Circuit_Open | Circuit_Half_Open

definition assert_circuit_available :: "millis \<Rightarrow> exec_circuit \<Rightarrow> (circuit_refusal + unit) \<times> exec_circuit" where
  "assert_circuit_available now c =
     (if xc_opened_at c = 0 then (Inr (), c)
      else if now - xc_opened_at c < exec_circuit_reset_ms then (Inl Circuit_Open, c)
      else if xc_half_open c then (Inl Circuit_Half_Open, c)
      else (Inr (), c\<lparr>xc_half_open := True\<rparr>))"

definition exec_record_success :: "exec_circuit \<Rightarrow> exec_circuit" where
  "exec_record_success c = \<lparr>xc_failures = 0, xc_opened_at = 0, xc_half_open = False\<rparr>"

definition exec_record_failure :: "millis \<Rightarrow> failure_class \<Rightarrow> exec_circuit \<Rightarrow> exec_circuit" where
  "exec_record_failure now k c =
     (if fk_kind k \<noteq> Kind_Provider then c\<lparr>xc_half_open := False\<rparr>
      else if \<not> fk_counts k then c\<lparr>xc_half_open := False\<rparr>
      else
        (let c1 = c\<lparr>xc_failures := Suc (xc_failures c)\<rparr> in
         if xc_failures c1 \<ge> exec_circuit_threshold then c1\<lparr>xc_opened_at := now, xc_half_open := False\<rparr> else c1))"

section \<open>Executions of a process\<close>

text \<open>
  An execution of standard mode starts with the circuit check and ends with a rejected admission, a
  success or a classified failure; the \<open>finally\<close> of \<open>run\<close> clears the half-open flag in every case.
\<close>

datatype exec_end = Xn_Not_Admitted | Xn_Success | Xn_Failure failure_class

record execution =
  xe_start :: millis
  xe_probe :: bool
  xe_running :: bool

record exec_world =
  xw_now :: millis
  xw_circuit :: exec_circuit
  xw_runs :: "execution list"

datatype exec_event = Xe_Start millis | Xe_End nat millis exec_end

definition start_execution :: "millis \<Rightarrow> exec_world \<Rightarrow> exec_world" where
  "start_execution now w =
     (case assert_circuit_available now (xw_circuit w) of
        (Inl refusal, c) \<Rightarrow> w\<lparr>xw_now := now, xw_circuit := c\<rparr>
      | (Inr _, c) \<Rightarrow> w\<lparr>xw_now := now, xw_circuit := c,
                      xw_runs := xw_runs w @ [\<lparr>xe_start = now, xe_probe = (xc_opened_at (xw_circuit w) \<noteq> 0), xe_running = True\<rparr>]\<rparr>)"

definition settle_circuit :: "millis \<Rightarrow> exec_end \<Rightarrow> exec_circuit \<Rightarrow> exec_circuit" where
  "settle_circuit now x c =
     (case x of
        Xn_Not_Admitted \<Rightarrow> c\<lparr>xc_half_open := False\<rparr>
      | Xn_Success \<Rightarrow> (exec_record_success c)\<lparr>xc_half_open := False\<rparr>
      | Xn_Failure k \<Rightarrow> (exec_record_failure now k c)\<lparr>xc_half_open := False\<rparr>)"

definition end_execution :: "nat \<Rightarrow> millis \<Rightarrow> exec_end \<Rightarrow> exec_world \<Rightarrow> exec_world" where
  "end_execution r now x w =
     (if r < length (xw_runs w) \<and> xe_running (xw_runs w ! r)
      then w\<lparr>xw_now := now, xw_circuit := settle_circuit now x (xw_circuit w),
             xw_runs := (xw_runs w)[r := (xw_runs w ! r)\<lparr>xe_running := False\<rparr>]\<rparr>
      else w)"

fun exec_step :: "exec_event \<Rightarrow> exec_world \<Rightarrow> exec_world" where
  "exec_step (Xe_Start now) w = start_execution now w"
| "exec_step (Xe_End r now x) w = end_execution r now x w"

fun event_time :: "exec_event \<Rightarrow> millis" where
  "event_time (Xe_Start now) = now"
| "event_time (Xe_End r now x) = now"

definition fresh_executions :: exec_world where
  "fresh_executions = \<lparr>xw_now = 1, xw_circuit = closed_circuit, xw_runs = []\<rparr>"

text \<open>A run in which time moves on and no execution outlives its deadline \<open>timeout\<close>.\<close>

inductive exec_reach :: "millis \<Rightarrow> exec_world \<Rightarrow> bool" for timeout where
  start: "exec_reach timeout fresh_executions"
| step: "exec_reach timeout w \<Longrightarrow> xw_now w \<le> event_time ev \<Longrightarrow>
    list_all (\<lambda>x. xe_running x \<longrightarrow> event_time ev - xe_start x \<le> timeout) (xw_runs w) \<Longrightarrow> exec_reach timeout (exec_step ev w)"

definition probes_in_flight :: "exec_world \<Rightarrow> execution list" where
  "probes_in_flight w = filter (\<lambda>x. xe_running x \<and> xe_probe x) (xw_runs w)"

definition in_flight :: "exec_world \<Rightarrow> execution list" where
  "in_flight w = filter xe_running (xw_runs w)"

section \<open>One probe at a time\<close>

lemma length_filter_clear:
  "r < length xs \<Longrightarrow> P (xs ! r) \<Longrightarrow> \<not> P y \<Longrightarrow> Suc (length (filter P (xs[r := y]))) = length (filter P xs)"
proof (induction xs arbitrary: r)
  case (Cons x xs)
  then show ?case by (cases r) auto
qed simp

text \<open>
  While a probe is in flight it is the only execution and the flag is set; executions that started
  before the circuit opened did so no later than that moment; an open circuit has seen three failures.
\<close>

definition exec_ok :: "exec_world \<Rightarrow> bool" where
  "exec_ok w \<longleftrightarrow>
     (\<forall>x\<in>set (in_flight w). xe_start x \<le> xw_now w \<and> (\<not> xe_probe x \<longrightarrow> xc_opened_at (xw_circuit w) = 0 \<or> xe_start x \<le> xc_opened_at (xw_circuit w))) \<and>
     (if probes_in_flight w = [] then \<not> xc_half_open (xw_circuit w)
      else length (in_flight w) = 1 \<and> xc_opened_at (xw_circuit w) \<noteq> 0 \<and> xc_half_open (xw_circuit w)) \<and>
     0 < xw_now w \<and> (xc_opened_at (xw_circuit w) \<noteq> 0 \<longrightarrow> exec_circuit_threshold \<le> xc_failures (xw_circuit w))"

lemma probes_subset: "set (probes_in_flight w) = {x \<in> set (in_flight w). xe_probe x}"
  by (auto simp: probes_in_flight_def in_flight_def)

lemma in_flight_snoc:
  "in_flight (w\<lparr>xw_runs := rs\<rparr>) = filter xe_running rs" "in_flight (w\<lparr>xw_now := t\<rparr>) = in_flight w" "in_flight (w\<lparr>xw_circuit := c\<rparr>) = in_flight w"
  "probes_in_flight (w\<lparr>xw_runs := rs\<rparr>) = filter (\<lambda>x. xe_running x \<and> xe_probe x) rs"
  "probes_in_flight (w\<lparr>xw_now := t\<rparr>) = probes_in_flight w" "probes_in_flight (w\<lparr>xw_circuit := c\<rparr>) = probes_in_flight w"
  "filter xe_running (xw_runs w) = in_flight w" "filter (\<lambda>x. xe_running x \<and> xe_probe x) (xw_runs w) = probes_in_flight w"
  by (simp_all add: in_flight_def probes_in_flight_def)

lemma exec_ok_start:
  assumes ok: "exec_ok w" and t: "xw_now w \<le> now" and live: "\<forall>x\<in>set (in_flight w). now - xe_start x \<le> timeout" and "timeout < exec_circuit_reset_ms"
  shows "exec_ok (start_execution now w)"
proof -
  let ?c = "xw_circuit w"
  have older: "\<forall>x\<in>set (in_flight w). xe_start x \<le> now" using ok t unfolding exec_ok_def by fastforce
  show ?thesis
  proof (cases "xc_opened_at ?c = 0")
    case True
    then have "probes_in_flight w = []" using ok by (auto simp: exec_ok_def split: if_splits)
    then show ?thesis using ok True t older unfolding exec_ok_def start_execution_def
      by (simp add: assert_circuit_available_def in_flight_snoc)
  next
    case False
    show ?thesis
    proof (cases "now - xc_opened_at ?c < exec_circuit_reset_ms \<or> xc_half_open ?c")
      case True
      then have "start_execution now w = w\<lparr>xw_now := now, xw_circuit := ?c\<rparr>"
        using False by (auto simp: start_execution_def assert_circuit_available_def)
      then show ?thesis using ok t older by (simp add: exec_ok_def in_flight_snoc)
    next
      case probe: False
      then have none: "probes_in_flight w = []" using ok by (auto simp: exec_ok_def split: if_splits)
      have "in_flight w = []"
      proof (rule ccontr)
        assume "in_flight w \<noteq> []"
        then obtain x where x: "x \<in> set (in_flight w)" by (metis list.set_sel(1))
        then have "\<not> xe_probe x" using none probes_subset [of w] by auto
        then have "xe_start x \<le> xc_opened_at ?c" using ok x False by (auto simp: exec_ok_def)
        then show False using live x probe assms(4) by force
      qed
      then show ?thesis using ok probe False none t unfolding exec_ok_def start_execution_def
        by (simp add: assert_circuit_available_def in_flight_snoc)
    qed
  qed
qed

lemma settle_circuit_cases:
  "\<not> xc_half_open (settle_circuit now x c)"
  "xc_opened_at (settle_circuit now x c) = xc_opened_at c \<or> xc_opened_at (settle_circuit now x c) = 0 \<or> xc_opened_at (settle_circuit now x c) = now"
  "(xc_opened_at c \<noteq> 0 \<longrightarrow> exec_circuit_threshold \<le> xc_failures c) \<Longrightarrow>
   xc_opened_at (settle_circuit now x c) \<noteq> 0 \<longrightarrow> exec_circuit_threshold \<le> xc_failures (settle_circuit now x c)"
  by (auto simp: settle_circuit_def exec_record_success_def exec_record_failure_def Let_def split: exec_end.split)

lemma exec_ok_end:
  assumes ok: "exec_ok w" and t: "xw_now w \<le> now"
  shows "exec_ok (end_execution r now x w)"
proof (cases "r < length (xw_runs w) \<and> xe_running (xw_runs w ! r)")
  case True
  let ?runs = "(xw_runs w)[r := (xw_runs w ! r)\<lparr>xe_running := False\<rparr>]"
  let ?w = "w\<lparr>xw_now := now, xw_circuit := settle_circuit now x (xw_circuit w), xw_runs := ?runs\<rparr>"
  have sub: "set (in_flight ?w) \<subseteq> set (in_flight w)"
    by (auto simp: in_flight_def dest!: set_update_subset_insert [THEN subsetD])
  have len: "Suc (length (in_flight ?w)) = length (in_flight w)"
    unfolding in_flight_def using length_filter_clear [of r "xw_runs w" xe_running] True by simp
  have none: "probes_in_flight ?w = []"
  proof (cases "probes_in_flight w = []")
    case True
    then have "set (probes_in_flight ?w) = {}" using sub probes_subset [of w] probes_subset [of ?w] by auto
    then show ?thesis by simp
  next
    case False
    then have "length (in_flight w) = 1" using ok by (simp add: exec_ok_def)
    then have "set (probes_in_flight ?w) = {}" using len probes_subset [of ?w] by auto
    then show ?thesis by simp
  qed
  have a: "xe_start y \<le> now \<and> (\<not> xe_probe y \<longrightarrow> xc_opened_at (settle_circuit now x (xw_circuit w)) = 0 \<or> xe_start y \<le> xc_opened_at (settle_circuit now x (xw_circuit w)))"
    if "y \<in> set (in_flight ?w)" for y
    using ok t sub that settle_circuit_cases(2) [of now x "xw_circuit w"] unfolding exec_ok_def by fastforce
  have "exec_ok ?w"
    using ok t none a settle_circuit_cases(1) [of now x "xw_circuit w"] settle_circuit_cases(3) [of "xw_circuit w" now x]
    unfolding exec_ok_def by simp
  then show ?thesis using True by (simp add: end_execution_def)
qed (use ok in \<open>auto simp: end_execution_def\<close>)

lemma exec_reach_ok:
  assumes "exec_reach timeout w" "timeout < exec_circuit_reset_ms"
  shows "exec_ok w"
  using assms(1)
proof induction
  case start
  show ?case by (simp add: exec_ok_def fresh_executions_def in_flight_def probes_in_flight_def closed_circuit_def)
next
  case (step w ev)
  have "\<forall>x\<in>set (in_flight w). event_time ev - xe_start x \<le> timeout" using step.hyps(3) by (auto simp: in_flight_def list_all_iff)
  then show ?case using exec_ok_start [OF step.IH] exec_ok_end [OF step.IH] step.hyps(2) assms(2) by (cases ev) auto
qed

text \<open>C39: When the request deadline is shorter than the reset time of the execution circuit, at most one
  half-open probe is in flight at any time, no other execution runs beside it, the circuit is open
  while it runs, and an open circuit has always seen at least three counted failures.
\<close>

theorem execution_circuit_single_probe:
  assumes "exec_reach timeout w" "timeout < exec_circuit_reset_ms"
  shows "length (probes_in_flight w) \<le> 1 \<and>
    (if probes_in_flight w = [] then \<not> xc_half_open (xw_circuit w)
     else in_flight w = probes_in_flight w \<and> xc_opened_at (xw_circuit w) \<noteq> 0 \<and> xc_half_open (xw_circuit w)) \<and>
    (if xc_opened_at (xw_circuit w) = 0 then True else exec_circuit_threshold \<le> xc_failures (xw_circuit w))"
proof -
  have ok: "exec_ok w" by (rule exec_reach_ok [OF assms])
  have "probes_in_flight w = filter xe_probe (in_flight w)" by (simp add: probes_in_flight_def in_flight_def conj_commute)
  moreover have "in_flight w = probes_in_flight w" if "probes_in_flight w \<noteq> []"
  proof -
    have "length (in_flight w) = 1" using ok that by (simp add: exec_ok_def)
    then obtain y where "in_flight w = [y]" by (metis One_nat_def length_0_conv length_Suc_conv)
    then show ?thesis using that calculation by (simp split: if_splits)
  qed
  ultimately show ?thesis using ok by (auto simp: exec_ok_def split: if_splits)
qed

fun timed :: "millis \<Rightarrow> exec_event list \<Rightarrow> exec_world \<Rightarrow> bool" where
  "timed timeout [] w = True"
| "timed timeout (ev # evs) w =
     (xw_now w \<le> event_time ev \<and> list_all (\<lambda>x. xe_running x \<longrightarrow> event_time ev - xe_start x \<le> timeout) (xw_runs w) \<and> timed timeout evs (exec_step ev w))"

lemma exec_reach_fold: "exec_reach timeout w \<Longrightarrow> timed timeout evs w \<Longrightarrow> exec_reach timeout (fold exec_step evs w)"
  by (induction evs arbitrary: w) (auto intro: exec_reach.step)

definition counted_failure :: exec_end where
  "counted_failure = Xn_Failure \<lparr>fk_kind = Kind_Provider, fk_reason = Some R_Server_Error, fk_counts = True\<rparr>"

definition three_failures :: "exec_event list" where
  "three_failures = [Xe_Start 2, Xe_End 0 3 counted_failure, Xe_Start 4, Xe_End 1 5 counted_failure, Xe_Start 6, Xe_End 2 7 counted_failure]"

theorem execution_circuit_single_probe_witness:
  "case fold exec_step (three_failures @ [Xe_Start 8, Xe_Start 60008, Xe_Start 60009]) fresh_executions of w \<Rightarrow>
    length (xw_runs w) = 4 \<and> length (probes_in_flight w) \<le> 1 \<and>
    (if probes_in_flight w = [] then \<not> xc_half_open (xw_circuit w)
     else in_flight w = probes_in_flight w \<and> xc_opened_at (xw_circuit w) \<noteq> 0 \<and> xc_half_open (xw_circuit w)) \<and>
    (if xc_opened_at (xw_circuit w) = 0 then True else exec_circuit_threshold \<le> xc_failures (xw_circuit w))"
proof -
  let ?w = "fold exec_step (three_failures @ [Xe_Start 8, Xe_Start 60008, Xe_Start 60009]) fresh_executions"
  have "timed 30000 (three_failures @ [Xe_Start 8, Xe_Start 60008, Xe_Start 60009]) fresh_executions" by code_simp
  then have "exec_reach 30000 ?w" by (intro exec_reach_fold exec_reach.start)
  moreover have "(30000 :: int) < exec_circuit_reset_ms" "length (xw_runs ?w) = 4" by code_simp+
  ultimately show ?thesis using execution_circuit_single_probe [of 30000 ?w] by blast
qed

text \<open>With a request deadline above the reset time two half-open probes run at once: the end of an execution
  that began before the circuit opened clears the flag of the probe in flight.
\<close>

theorem stale_execution_admits_second_probe:
  "\<exists>w. exec_reach 90000 w \<and> length (probes_in_flight w) = 2"
proof -
  let ?evs = "[Xe_Start 1, Xe_Start 2, Xe_End 1 3 counted_failure, Xe_Start 4, Xe_End 2 5 counted_failure, Xe_Start 6, Xe_End 3 7 counted_failure,
               Xe_Start 60008, Xe_End 0 60009 (Xn_Failure non_provider), Xe_Start 60010]"
  have "timed 90000 ?evs fresh_executions" by code_simp
  then have "exec_reach 90000 (fold exec_step ?evs fresh_executions)" by (intro exec_reach_fold exec_reach.start)
  moreover have "length (probes_in_flight (fold exec_step ?evs fresh_executions)) = 2" by code_simp
  ultimately show ?thesis by blast
qed

section \<open>What counts\<close>


section \<open>The budget of a generation\<close>

definition spent :: "failover_state \<Rightarrow> failover_state \<Rightarrow> bool" where
  "spent s s' \<longleftrightarrow> (\<exists>new. fo_sent s' = fo_sent s @ new \<and> budget_moved (length new) (fo_budget s) (fo_budget s'))"

lemma spent_refl [simp]: "spent s s"
  unfolding spent_def by (intro exI [of _ "[]"]) simp

lemma spent_trans:
  assumes "spent s s1" "spent s1 s2"
  shows "spent s s2"
proof -
  obtain n1 n2 where "fo_sent s1 = fo_sent s @ n1" "budget_moved (length n1) (fo_budget s) (fo_budget s1)"
    "fo_sent s2 = fo_sent s1 @ n2" "budget_moved (length n2) (fo_budget s1) (fo_budget s2)"
    using assms unfolding spent_def by blast
  then show ?thesis using budget_moved_trans unfolding spent_def by (intro exI [of _ "n1 @ n2"]) auto
qed

lemma spent_note: "spent s s1 \<Longrightarrow> spent s (note_error e s1)"
  unfolding spent_def note_error_def by (auto simp: budget_moved_note)

lemma spent_failover: "spent s (snd (run_failover cfg env model now s))"
proof -
  obtain ordered suppressed degraded where "pick_ordered cfg now (fo_circuit s) = (ordered, suppressed, degraded)" by (metis prod_cases3)
  from run_failover_ran [OF this] show ?thesis unfolding plan_ran_def spent_def by metis
qed

lemma spent_chat_call: "spent s (snd (chat_call cfg env model now s))"
  by (simp add: chat_call_def spent_failover split: option.split)

lemma spent_retry:
  assumes "\<And>s. spent s (snd (fn s))"
  shows "spent s (snd (snd (retry_with_backoff retryable env fn left attempt last_error tk s)))"
proof (induction left arbitrary: attempt last_error tk s)
  case (Suc left)
  obtain res s1 where fn: "fn s = (res, s1)" by force
  have one: "spent s s1" using assms [of s] fn by simp
  have noted: "spent s (note_error er s1)" for er by (rule spent_note [OF one])
  have again: "spent s (snd (snd (retry_with_backoff retryable env fn left a l t (note_error er s1))))" for er a l t
    by (rule spent_trans [OF noted Suc.IH])
  show ?case using one noted again by (cases res) (simp_all add: Let_def fn split: option.split)
qed simp

record round =
  rd_retry :: "nat \<Rightarrow> retry_env"
  rd_env :: "nat \<Rightarrow> attempt_env"
  rd_max :: nat
  rd_now :: millis

text \<open>The tool rounds of one generation: every round is one execution, and all share the budget.\<close>

definition run_round :: "failover_config \<Rightarrow> round \<Rightarrow> failover_state \<Rightarrow> failover_state" where
  "run_round cfg rd s = snd (snd (retry_with_backoff failover_retryable (rd_retry rd) (chat_call cfg (rd_env rd) (Some (ca_model (hd (fc_candidates cfg)))) (rd_now rd)) (rd_max rd) 1 None fresh_tracker s))"

definition run_rounds :: "failover_config \<Rightarrow> round list \<Rightarrow> failover_state \<Rightarrow> failover_state" where
  "run_rounds cfg rds s = fold (run_round cfg) rds s"

lemma spent_rounds: "spent s (run_rounds cfg rds s)"
  unfolding run_rounds_def
proof (induction rds arbitrary: s)
  case (Cons rd rds)
  have "spent s (run_round cfg rd s)" unfolding run_round_def by (rule spent_retry) (rule spent_chat_call)
  then show ?case using spent_trans Cons.IH [of "run_round cfg rd s"] by auto
qed simp

text \<open>C13: However many tool rounds, execution retries and failovers a generation goes through, it issues at
  most \<open>LLM_MAX_TOTAL_PROVIDER_ATTEMPTS\<close> provider requests, which is never more than eight.
\<close>

theorem generation_requests_bounded:
  assumes "new_budget n = Some b" "fo_budget s = Some b"
  shows "\<exists>new. fo_sent (run_rounds cfg rds s) = fo_sent s @ new \<and> int (length new) \<le> n \<and> length new \<le> 8"
proof -
  obtain new where "fo_sent (run_rounds cfg rds s) = fo_sent s @ new" "budget_moved (length new) (fo_budget s) (fo_budget (run_rounds cfg rds s))"
    using spent_rounds unfolding spent_def by blast
  moreover have "bu_max b = nat n" "bu_used b = 0" "1 \<le> n" "n \<le> 8" using assms(1) by (auto simp: new_budget_def split: if_splits)
  ultimately show ?thesis using assms(2) by (auto simp: budget_moved_def split: option.splits)
qed

definition sample_round :: round where
  "sample_round = \<lparr>rd_retry = (\<lambda>n. \<lparr>rn_aborted = False, rn_reason = status_error 0, rn_aborted_after = False, rn_timed_out = False,
     rn_deadline_during = False, rn_sleep_aborted = False\<rparr>), rd_env = always_fails 500, rd_max = 1, rd_now = 0\<rparr>"

theorem generation_requests_bounded_witness:
  "\<exists>new. fo_sent (run_rounds sample_failover [sample_round, sample_round] sample_failover_state) = fo_sent sample_failover_state @ new \<and> int (length new) \<le> 3 \<and> length new \<le> 8"
  by (rule generation_requests_bounded [of _ "\<lparr>bu_max = 3, bu_used = 0, bu_last = None\<rparr>"]) (simp_all add: new_budget_def sample_failover_state_def)

end
