(* ===== verification/Spec2Isabelle.thy ===== *)
theory Spec2Isabelle
  imports Chat_Quota_Books Quota_Core Chat_Pipeline Debounce_Queue Inbox_Workers Reschedule_Confirm Report_Outbox Reminder_Guarantees
    Llm_Admission Llm_Execution
begin

text \<open>
  Verification of the tutoring bots' shared runtime: chat quota, message queue, chat pipeline and
  webhook inbox.
\<close>

end
